(* ===== verification/Edr_Prelude.thy ===== *)
theory Edr_Prelude
  imports Main "HOL-Library.Word"
begin

text \<open>
  Shared vocabulary of the development: the machine types of the driver, the little-endian
  encoding of fixed-width fields, byte-addressed blocks of memory with ranged reads and writes,
  and the collections of rewrite rules that the component theories extend.
\<close>

unbundle bit_operations_syntax

section \<open>Machine types\<close>

type_synonym u8 = "8 word"
type_synonym u16 = "16 word"
type_synonym u32 = "32 word"
type_synonym u64 = "64 word"

text \<open>
  Pointers are abstract identities; \<open>0\<close> is the null pointer. The driver never does arithmetic on a
  pointer except to reach a field of a block, which the model writes as a block and an offset.
\<close>

type_synonym ptr = nat

abbreviation (input) null_ptr :: ptr where
  "null_ptr \<equiv> 0"

text \<open>
  \<open>layout_simps\<close>: sizes and field offsets of the wire structures.
  \<open>frame_simps\<close>: which fields of the driver state an operation leaves alone.
  \<open>mon_simps\<close>: what an operation does to the contract monitor.
\<close>

named_theorems layout_simps
named_theorems frame_simps
named_theorems mon_simps

section \<open>Little-endian integers\<close>

primrec le_enc :: "nat \<Rightarrow> nat \<Rightarrow> u8 list" where
  "le_enc 0 x = []"
| "le_enc (Suc n) x = of_nat (x mod 256) # le_enc n (x div 256)"

primrec le_dec :: "u8 list \<Rightarrow> nat" where
  "le_dec [] = 0"
| "le_dec (b # bs) = unat b + 256 * le_dec bs"

lemma length_le_enc [simp]: "length (le_enc n x) = n"
  by (induction n arbitrary: x) auto

lemma unat_of_byte [simp]: "unat (of_nat (x mod 256) :: u8) = x mod 256"
  by (simp add: unat_of_nat)

lemma le_dec_enc: "le_dec (le_enc n x) = x mod 256 ^ n"
proof (induction n arbitrary: x)
  case 0
  then show ?case by simp
next
  case (Suc n)
  have "le_dec (le_enc (Suc n) x) = x mod 256 + 256 * (x div 256 mod 256 ^ n)"
    by (simp add: Suc.IH)
  also have "\<dots> = x mod 256 ^ Suc n"
    by (simp add: mod_mult2_eq)
  finally show ?case .
qed

lemma unat_u16_mod [simp]: "unat (w :: u16) mod 65536 = unat w"
  using unsigned_less [of w, where ?'a = nat] by simp

lemma unat_u32_mod [simp]: "unat (w :: u32) mod 4294967296 = unat w"
  using unsigned_less [of w, where ?'a = nat] by simp

lemma unat_u64_mod [simp]: "unat (w :: u64) mod 18446744073709551616 = unat w"
  using unsigned_less [of w, where ?'a = nat] by simp

lemma unat_ucast_32_64 [simp]: "unat (ucast (w :: u32) :: u64) = unat w"
  using unsigned_less [of w, where ?'a = nat]
  by (simp add: unsigned_ucast_eq take_bit_nat_eq_self_iff)

lemma of_nat_unat_32_64 [simp]: "(of_nat (unat (w :: u32)) :: u64) = ucast w"
  by (rule word_unat_eq_iff [THEN iffD2])
    (use unsigned_less [of w, where ?'a = nat] in \<open>simp add: unat_of_nat\<close>)

text \<open>Writing a word and reading it back.\<close>

definition bytes16 :: "u16 \<Rightarrow> u8 list" where "bytes16 w = le_enc 2 (unat w)"
definition bytes32 :: "u32 \<Rightarrow> u8 list" where "bytes32 w = le_enc 4 (unat w)"
definition bytes64 :: "u64 \<Rightarrow> u8 list" where "bytes64 w = le_enc 8 (unat w)"

lemma length_bytes [simp]:
  "length (bytes16 a) = 2" "length (bytes32 b) = 4" "length (bytes64 c) = 8"
  by (simp_all add: bytes16_def bytes32_def bytes64_def)

lemma of_nat_le_dec_bytes [simp]:
  "of_nat (le_dec (bytes16 a)) = a"
  "of_nat (le_dec (bytes32 b)) = b"
  "of_nat (le_dec (bytes64 c)) = c"
  by (simp_all add: bytes16_def bytes32_def bytes64_def le_dec_enc)

text \<open>An array of UTF-16 code units.\<close>

definition bytes_of_units :: "u16 list \<Rightarrow> u8 list" where
  "bytes_of_units us = concat (map bytes16 us)"

fun units_of_bytes :: "u8 list \<Rightarrow> u16 list" where
  "units_of_bytes (a # b # bs) = of_nat (le_dec [a, b]) # units_of_bytes bs"
| "units_of_bytes _ = []"

lemma bytes_of_units_simps [simp]:
  "bytes_of_units [] = []"
  "bytes_of_units (u # us) = bytes16 u @ bytes_of_units us"
  by (simp_all add: bytes_of_units_def)

lemma length_bytes_of_units [simp]: "length (bytes_of_units us) = 2 * length us"
  by (induction us) auto

lemma units_of_bytes16_append [simp]:
  "units_of_bytes (bytes16 u @ bs) = u # units_of_bytes bs"
proof -
  obtain a b where ab: "bytes16 u = [a, b]"
    by (simp add: bytes16_def numeral_2_eq_2)
  have "of_nat (le_dec [a, b]) = u"
    unfolding ab [symmetric] by simp
  then show ?thesis by (simp add: ab del: le_dec.simps)
qed

lemma units_of_bytes_of_units [simp]: "units_of_bytes (bytes_of_units us) = us"
  by (induction us) auto

section \<open>Blocks of memory\<close>

text \<open>
  The contents of a block are a function from byte offsets; how long the block is belongs to
  whoever allocated it. \<open>write_at\<close> is the effect of \<open>ptr::write\<close> and
  \<open>ptr::copy_nonoverlapping\<close>, \<open>read_at\<close> the bytes of a range.
\<close>

type_synonym block = "nat \<Rightarrow> u8"

definition write_at :: "nat \<Rightarrow> u8 list \<Rightarrow> block \<Rightarrow> block" where
  "write_at off bs f = (\<lambda>i. if off \<le> i \<and> i < off + length bs then bs ! (i - off) else f i)"

definition read_at :: "nat \<Rightarrow> nat \<Rightarrow> block \<Rightarrow> u8 list" where
  "read_at off n f = map f [off..<off + n]"

lemma length_read_at [simp]: "length (read_at off n f) = n"
  by (simp add: read_at_def)

lemma nth_read_at [simp]: "i < n \<Longrightarrow> read_at off n f ! i = f (off + i)"
  by (simp add: read_at_def)

lemma read_at_cong:
  "(\<And>i. off \<le> i \<Longrightarrow> i < off + n \<Longrightarrow> f i = g i) \<Longrightarrow> read_at off n f = read_at off n g"
  by (simp add: read_at_def)

lemma read_write_same [simp]:
  "n = length bs \<Longrightarrow> read_at off n (write_at off bs f) = bs"
  by (rule nth_equalityI) (auto simp: write_at_def)

lemma read_write_disjoint [simp]:
  "off + n \<le> off' \<or> off' + length bs \<le> off \<Longrightarrow>
   read_at off n (write_at off' bs f) = read_at off n f"
  by (rule read_at_cong) (auto simp: write_at_def)

lemma read_at_split: "read_at off (m + n) f = read_at off m f @ read_at (off + m) n f"
  using upt_add_eq_append [of off "off + m" n] by (simp add: read_at_def add.assoc)

lemma read_at_0 [simp]: "read_at off 0 f = []"
  by (simp add: read_at_def)

lemma read_at_zero [simp]: "read_at off n (\<lambda>_. 0) = replicate n 0"
  by (simp add: read_at_def map_replicate_const)

lemma read_at_take: "m \<le> n \<Longrightarrow> take m (read_at off n f) = read_at off m f"
  by (simp add: read_at_def take_map)

text \<open>The prefix of a field that a string copy fills, and the rest it leaves alone.\<close>

lemma read_write_prefix:
  assumes "length bs \<le> n"
  shows "read_at off n (write_at off bs f) = bs @ read_at (off + length bs) (n - length bs) f"
proof -
  have "read_at off n (write_at off bs f) =
      read_at off (length bs) (write_at off bs f) @
      read_at (off + length bs) (n - length bs) (write_at off bs f)"
    using assms read_at_split [of off "length bs" "n - length bs"] by simp
  then show ?thesis by simp
qed

lemma write_at_Nil [simp]: "write_at off [] f = f"
  by (rule ext) (auto simp: write_at_def)

section \<open>Lists and maps\<close>

lemma map_upt_shift: "map (\<lambda>i. f (i + k)) [m..<n] = map f [m + k..<n + k]"
  by (rule nth_equalityI) (auto simp: ac_simps)

lemma concat_snoc [simp]: "concat (xs @ [x]) = concat xs @ x"
  by simp

lemma distinct_map_upd_notin:
  "x \<notin> set xs \<Longrightarrow> map (f(x := v)) xs = map f xs"
  by (rule map_cong) auto

end
