(* ===== verification/Edr_Events.thy ===== *)
theory Edr_Events
  imports Edr_Prelude
begin

text \<open>
  The wire format (\<open>src/src/events.rs\<close>): the schema constants, the discriminants, and the
  \<open>repr(C, packed)\<close> structures as lists of named fields. A packed structure has its fields in the
  order of declaration with no padding, so the offset of a field is the sum of the widths before it.
\<close>

section \<open>Constants\<close>

definition EVENT_VERSION :: u16 where "EVENT_VERSION = 6"
definition IMAGE_PATH_MAX :: nat where "IMAGE_PATH_MAX = 512"
definition COMMAND_LINE_MAX :: nat where "COMMAND_LINE_MAX = 4096"
definition USER_SID_MAX :: nat where "USER_SID_MAX = 192"
definition REGISTRY_KEY_PATH_MAX :: nat where "REGISTRY_KEY_PATH_MAX = 512"
definition REGISTRY_VALUE_NAME_MAX :: nat where "REGISTRY_VALUE_NAME_MAX = 128"
definition REGISTRY_DATA_PREVIEW_MAX :: nat where "REGISTRY_DATA_PREVIEW_MAX = 256"

lemmas max_defs = IMAGE_PATH_MAX_def COMMAND_LINE_MAX_def USER_SID_MAX_def
  REGISTRY_KEY_PATH_MAX_def REGISTRY_VALUE_NAME_MAX_def REGISTRY_DATA_PREVIEW_MAX_def

section \<open>Discriminants\<close>

datatype EventType =
    ProcessCreate | ProcessExit | ImageLoad | RegistryModify
  | ThreadCreate | ThreadExit | ProcessHandleAccess

primrec event_type_u16 :: "EventType \<Rightarrow> u16" where
  "event_type_u16 ProcessCreate = 1"
| "event_type_u16 ProcessExit = 2"
| "event_type_u16 ImageLoad = 3"
| "event_type_u16 RegistryModify = 4"
| "event_type_u16 ThreadCreate = 5"
| "event_type_u16 ThreadExit = 6"
| "event_type_u16 ProcessHandleAccess = 7"

datatype HandleAccessOp = Create | Duplicate

primrec handle_access_op_u16 :: "HandleAccessOp \<Rightarrow> u16" where
  "handle_access_op_u16 Create = 1"
| "handle_access_op_u16 Duplicate = 2"

datatype RegistryOp = SetValue | DeleteValue | DeleteKey | RenameKey | CreateKey

primrec registry_op_u16 :: "RegistryOp \<Rightarrow> u16" where
  "registry_op_u16 SetValue = 1"
| "registry_op_u16 DeleteValue = 2"
| "registry_op_u16 DeleteKey = 3"
| "registry_op_u16 RenameKey = 4"
| "registry_op_u16 CreateKey = 5"

section \<open>Packed structures\<close>

datatype field_type =
    U8 | U16 | U32 | I32 | U64 | I64
  | Array field_type nat
  | Struct "(string \<times> field_type) list"

type_synonym layout = "(string \<times> field_type) list"

fun width :: "field_type \<Rightarrow> nat" where
  "width U8 = 1"
| "width U16 = 2"
| "width U32 = 4"
| "width I32 = 4"
| "width U64 = 8"
| "width I64 = 8"
| "width (Array t n) = n * width t"
| "width (Struct fs) = sum_list (map (\<lambda>f. width (snd f)) fs)"

definition size_of :: "layout \<Rightarrow> nat" where
  "size_of fs = width (Struct fs)"

fun field_off :: "layout \<Rightarrow> string \<Rightarrow> nat" where
  "field_off [] name = 0"
| "field_off ((m, t) # fs) name = (if m = name then 0 else width t + field_off fs name)"

fun field_width :: "layout \<Rightarrow> string \<Rightarrow> nat" where
  "field_width [] name = 0"
| "field_width ((m, t) # fs) name = (if m = name then width t else field_width fs name)"

definition EventHeader :: layout where
  "EventHeader =
    [(''version'', U16), (''type_'', U16), (''timestamp'', I64), (''size'', U32),
     (''drop_count'', U32), (''trunc_count'', U32)]"

definition ProcessCreateEvent :: layout where
  "ProcessCreateEvent =
    [(''header'', Struct EventHeader),
     (''process_id'', U32), (''parent_process_id'', U32), (''creating_process_id'', U32),
     (''image_path'', Array U16 IMAGE_PATH_MAX), (''image_path_len'', U16),
     (''command_line'', Array U16 COMMAND_LINE_MAX), (''command_line_len'', U16),
     (''parent_image_path'', Array U16 IMAGE_PATH_MAX), (''parent_image_path_len'', U16),
     (''user_sid'', Array U16 USER_SID_MAX), (''user_sid_len'', U16),
     (''integrity_level'', U32)]"

definition ProcessExitEvent :: layout where
  "ProcessExitEvent =
    [(''header'', Struct EventHeader), (''process_id'', U32), (''exit_code'', I32)]"

definition ImageLoadEvent :: layout where
  "ImageLoadEvent =
    [(''header'', Struct EventHeader), (''process_id'', U32),
     (''image_base'', U64), (''image_size'', U64),
     (''image_path'', Array U16 IMAGE_PATH_MAX), (''image_path_len'', U16)]"

definition RegistryEvent :: layout where
  "RegistryEvent =
    [(''header'', Struct EventHeader), (''process_id'', U32), (''operation'', U16),
     (''value_type'', U32), (''data_size'', U32),
     (''key_path'', Array U16 REGISTRY_KEY_PATH_MAX), (''key_path_len'', U16),
     (''value_name'', Array U16 REGISTRY_VALUE_NAME_MAX), (''value_name_len'', U16),
     (''data_preview'', Array U8 REGISTRY_DATA_PREVIEW_MAX), (''data_preview_len'', U16)]"

definition ThreadCreateEvent :: layout where
  "ThreadCreateEvent =
    [(''header'', Struct EventHeader), (''process_id'', U32), (''thread_id'', U32),
     (''creating_process_id'', U32)]"

definition ThreadExitEvent :: layout where
  "ThreadExitEvent =
    [(''header'', Struct EventHeader), (''process_id'', U32), (''thread_id'', U32)]"

definition ProcessHandleAccessEvent :: layout where
  "ProcessHandleAccessEvent =
    [(''header'', Struct EventHeader), (''source_process_id'', U32),
     (''target_process_id'', U32), (''desired_access'', U32),
     (''original_desired_access'', U32), (''operation'', U16)]"

lemmas event_layout_defs = EventHeader_def ProcessCreateEvent_def ProcessExitEvent_def
  ImageLoadEvent_def RegistryEvent_def ThreadCreateEvent_def ThreadExitEvent_def
  ProcessHandleAccessEvent_def

text \<open>The structure a notification of each type carries.\<close>

primrec event_layout :: "EventType \<Rightarrow> layout" where
  "event_layout ProcessCreate = ProcessCreateEvent"
| "event_layout ProcessExit = ProcessExitEvent"
| "event_layout ImageLoad = ImageLoadEvent"
| "event_layout RegistryModify = RegistryEvent"
| "event_layout ThreadCreate = ThreadCreateEvent"
| "event_layout ThreadExit = ThreadExitEvent"
| "event_layout ProcessHandleAccess = ProcessHandleAccessEvent"

subsection \<open>Sizes and offsets\<close>

lemma size_of_simps [simp, layout_simps]:
  "size_of EventHeader = 24"
  "size_of ProcessCreateEvent = 10672"
  "size_of ProcessExitEvent = 32"
  "size_of ImageLoadEvent = 1070"
  "size_of RegistryEvent = 1580"
  "size_of ThreadCreateEvent = 36"
  "size_of ThreadExitEvent = 32"
  "size_of ProcessHandleAccessEvent = 42"
  by (simp_all add: size_of_def event_layout_defs max_defs)

text \<open>
  In every structure two different fields never share a byte, and every field lies inside the
  structure: general facts about packed layouts, by induction on the declaration.
\<close>

lemma field_inside:
  "name \<in> fst ` set fs \<Longrightarrow> field_off fs name + field_width fs name \<le> size_of fs"
proof (induction fs)
  case Nil
  then show ?case by simp
next
  case (Cons f fs)
  obtain m t where f: "f = (m, t)" by (cases f)
  show ?case
  proof (cases "m = name")
    case True
    then show ?thesis by (simp add: f size_of_def)
  next
    case False
    with Cons.prems f have "name \<in> fst ` set fs" by auto
    with Cons.IH False show ?thesis by (simp add: f size_of_def)
  qed
qed

lemma field_width_absent: "name \<notin> fst ` set fs \<Longrightarrow> field_width fs name = 0"
  by (induction fs) auto

lemma fields_disjoint:
  assumes "m \<noteq> n"
  shows "field_off fs m + field_width fs m \<le> field_off fs n \<or>
         field_off fs n + field_width fs n \<le> field_off fs m \<or>
         m \<notin> fst ` set fs \<or> n \<notin> fst ` set fs"
  using assms
proof (induction fs)
  case Nil
  then show ?case by simp
next
  case (Cons f fs)
  then show ?case by (cases f) auto
qed

section \<open>Reading a structure back\<close>

definition get_field :: "layout \<Rightarrow> string \<Rightarrow> block \<Rightarrow> u8 list" where
  "get_field fs name b = read_at (field_off fs name) (field_width fs name) b"

definition get_u16 :: "layout \<Rightarrow> string \<Rightarrow> block \<Rightarrow> u16" where
  "get_u16 fs name b = of_nat (le_dec (get_field fs name b))"

definition get_u32 :: "layout \<Rightarrow> string \<Rightarrow> block \<Rightarrow> u32" where
  "get_u32 fs name b = of_nat (le_dec (get_field fs name b))"

definition get_u64 :: "layout \<Rightarrow> string \<Rightarrow> block \<Rightarrow> u64" where
  "get_u64 fs name b = of_nat (le_dec (get_field fs name b))"

definition get_units :: "layout \<Rightarrow> string \<Rightarrow> block \<Rightarrow> u16 list" where
  "get_units fs name b = units_of_bytes (get_field fs name b)"

lemma get_write_same:
  "length bs = field_width fs name \<Longrightarrow>
   get_field fs name (write_at (field_off fs name) bs b) = bs"
  by (simp add: get_field_def)

lemma get_write_other:
  assumes "m \<noteq> n" "m \<in> fst ` set fs" "n \<in> fst ` set fs" "length bs \<le> field_width fs n"
  shows "get_field fs m (write_at (field_off fs n) bs b) = get_field fs m b"
  using fields_disjoint [of m n fs] assms by (auto simp: get_field_def)

lemma le_dec_replicate_0 [simp]: "le_dec (replicate n 0) = 0"
  by (induction n) auto

lemma get_zero_block [simp]:
  "get_field fs name (\<lambda>_. 0) = replicate (field_width fs name) 0"
  "get_u16 fs name (\<lambda>_. 0) = 0"
  "get_u32 fs name (\<lambda>_. 0) = 0"
  "get_u64 fs name (\<lambda>_. 0) = 0"
  by (simp_all add: get_field_def get_u16_def get_u32_def get_u64_def)

section \<open>The header value\<close>

record event_header =
  version :: u16
  htype :: u16
  timestamp :: u64
  hsize :: u32
  drop_count :: u32
  trunc_count :: u32

definition header_bytes :: "event_header \<Rightarrow> u8 list" where
  "header_bytes h =
    bytes16 (version h) @ bytes16 (htype h) @ bytes64 (timestamp h) @ bytes32 (hsize h) @
    bytes32 (drop_count h) @ bytes32 (trunc_count h)"

text \<open>What a consumer reads from the first 24 bytes of an event.\<close>

definition read_header :: "block \<Rightarrow> event_header" where
  "read_header b =
    \<lparr>version = get_u16 EventHeader ''version'' b,
     htype = get_u16 EventHeader ''type_'' b,
     timestamp = get_u64 EventHeader ''timestamp'' b,
     hsize = get_u32 EventHeader ''size'' b,
     drop_count = get_u32 EventHeader ''drop_count'' b,
     trunc_count = get_u32 EventHeader ''trunc_count'' b\<rparr>"

lemma length_header_bytes [simp]: "length (header_bytes h) = 24"
  by (simp add: header_bytes_def)

lemma header_offs [layout_simps]:
  "field_off EventHeader ''version'' = 0" "field_width EventHeader ''version'' = 2"
  "field_off EventHeader ''type_'' = 2" "field_width EventHeader ''type_'' = 2"
  "field_off EventHeader ''timestamp'' = 4" "field_width EventHeader ''timestamp'' = 8"
  "field_off EventHeader ''size'' = 12" "field_width EventHeader ''size'' = 4"
  "field_off EventHeader ''drop_count'' = 16" "field_width EventHeader ''drop_count'' = 4"
  "field_off EventHeader ''trunc_count'' = 20" "field_width EventHeader ''trunc_count'' = 4"
  by (simp_all add: EventHeader_def)

text \<open>Reading a slice of what was just written, by position in the written bytes.\<close>

lemma read_write_slice:
  assumes "off + length xs = k" "n = length ys"
  shows "read_at k n (write_at off (xs @ ys @ zs) f) = ys"
  using assms by (intro nth_equalityI) (auto simp: write_at_def nth_append)

lemma read_header_write: "read_header (write_at 0 (header_bytes h) b) = h"
proof -
  have slices:
    "read_at 0 2 (write_at 0 (header_bytes h) b) = bytes16 (version h)"
    "read_at 2 2 (write_at 0 (header_bytes h) b) = bytes16 (htype h)"
    "read_at 4 8 (write_at 0 (header_bytes h) b) = bytes64 (timestamp h)"
    "read_at 12 4 (write_at 0 (header_bytes h) b) = bytes32 (hsize h)"
    "read_at 16 4 (write_at 0 (header_bytes h) b) = bytes32 (drop_count h)"
    "read_at 20 4 (write_at 0 (header_bytes h) b) = bytes32 (trunc_count h)"
    unfolding header_bytes_def
    using read_write_slice [where off = 0 and xs = "[]" and ys = "bytes16 (version h)"]
      read_write_slice [where off = 0 and xs = "bytes16 (version h)" and ys = "bytes16 (htype h)"]
      read_write_slice [where off = 0 and xs = "bytes16 (version h) @ bytes16 (htype h)"
        and ys = "bytes64 (timestamp h)"]
      read_write_slice [where off = 0 and
        xs = "bytes16 (version h) @ bytes16 (htype h) @ bytes64 (timestamp h)"
        and ys = "bytes32 (hsize h)"]
      read_write_slice [where off = 0 and
        xs = "bytes16 (version h) @ bytes16 (htype h) @ bytes64 (timestamp h) @ bytes32 (hsize h)"
        and ys = "bytes32 (drop_count h)"]
      read_write_slice [where off = 0 and
        xs = "bytes16 (version h) @ bytes16 (htype h) @ bytes64 (timestamp h) @
              bytes32 (hsize h) @ bytes32 (drop_count h)"
        and ys = "bytes32 (trunc_count h)" and zs = "[]"]
    by simp_all
  show ?thesis
    by (simp add: read_header_def get_u16_def get_u32_def get_u64_def get_field_def
        layout_simps slices)
qed

end
