(* ===== verification/Edr_Kernel.thy ===== *)
theory Edr_Kernel
  imports Edr_Events
begin

text \<open>
  The boundary between the driver and Windows. The WDK routines the driver calls are not part of
  the repository, so they are not defined here: what they return is a parameter of the model
  (the record \<open>kernel\<close>, each result a function of the trace so far). A call that takes, uses or gives
  back something (memory, an IRP, the lock, a registration, a reference, a name) or prints is an entry
  of a trace, and so is every access the driver makes to memory it does not own outright (pool blocks,
  IRPs, strings handed in by the kernel). Calls that only read something leave no entry:
  \<open>KeQuerySystemTimePrecise\<close>, \<open>PsGetCurrentProcessId\<close>, \<open>PsGetProcessId\<close>, \<open>PsGetProcessExitStatus\<close>,
  \<open>IoGetCurrentProcess\<close>, \<open>RtlSubAuthorityCountSid\<close> and \<open>RtlSubAuthoritySid\<close>; nor does
  \<open>RtlInitUnicodeString\<close>, which fills in a local variable. Neither the monitor nor the rules on
  interrupt levels say anything about them.

  The documented rules for using these routines are the \<^emph>\<open>contract monitor\<close>: an automaton over
  traces that gets stuck on a use Windows does not allow (freeing a block twice, touching a block
  after freeing it or beyond its end, completing an IRP twice or touching it after completion,
  completing an IRP with the spinlock held, touching the queue without it, removing a callback that
  is not registered). The safety theorems say that the traces of the driver never get it stuck.
\<close>

section \<open>Structures of the WDK the driver reads and writes\<close>

text \<open>
  \<open>UNICODE_STRING\<close>: \<open>Length\<close> counts bytes; \<open>Buffer\<close> is \<open>None\<close> for a null pointer and otherwise
  the code units it points at.
\<close>

record unicode_string =
  Length :: u16
  Buffer :: "u16 list option"

text \<open>The IRP with its current stack location; \<open>SystemBuffer\<close> is the buffer's contents.\<close>

record irp =
  IoControlCode :: u32
  OutputBufferLength :: u32
  SystemBuffer :: block
  Status :: u32
  Information :: u64
  Control :: u8

text \<open>
  \<open>OB_CALLBACK_REGISTRATION\<close> with the one \<open>OB_OPERATION_REGISTRATION\<close> it points at. The two callbacks are
  function pointers, of which the model keeps whether they are null.
\<close>

datatype (plugins only: code size) object_type = PsProcessType | PsThreadType

record ob_registration =
  RegVersion :: u16
  OperationRegistrationCount :: u16
  Altitude :: "u16 list"
  RegObjectType :: object_type
  Operations :: u32
  PreOperation :: bool
  PostOperation :: bool

definition OB_FLT_REGISTRATION_VERSION :: u32 where "OB_FLT_REGISTRATION_VERSION = 0x100"
definition OB_OPERATION_HANDLE_CREATE :: u32 where "OB_OPERATION_HANDLE_CREATE = 1"
definition OB_OPERATION_HANDLE_DUPLICATE :: u32 where "OB_OPERATION_HANDLE_DUPLICATE = 2"

text \<open>Status codes of the public Windows ABI (\<open>ntstatus.h\<close>).\<close>

definition STATUS_SUCCESS :: u32 where "STATUS_SUCCESS = 0"
definition STATUS_PENDING :: u32 where "STATUS_PENDING = 0x103"
definition STATUS_UNSUCCESSFUL :: u32 where "STATUS_UNSUCCESSFUL = 0xC0000001"
definition STATUS_INVALID_DEVICE_REQUEST :: u32 where "STATUS_INVALID_DEVICE_REQUEST = 0xC0000010"
definition STATUS_BUFFER_TOO_SMALL :: u32 where "STATUS_BUFFER_TOO_SMALL = 0xC0000023"
definition STATUS_CANCELLED :: u32 where "STATUS_CANCELLED = 0xC0000120"

lemmas status_defs = STATUS_SUCCESS_def STATUS_PENDING_def STATUS_UNSUCCESSFUL_def
  STATUS_INVALID_DEVICE_REQUEST_def STATUS_BUFFER_TOO_SMALL_def STATUS_CANCELLED_def

text \<open>\<open>NTSTATUS\<close> is an \<open>i32\<close>; the code tests \<open>status < 0\<close>.\<close>

definition nt_error :: "u32 \<Rightarrow> bool" where
  "nt_error status \<longleftrightarrow> sint status < 0"

section \<open>The trace\<close>

datatype (plugins only: code size) kcall =
    ExAllocatePool2 u64 u64 u32 ptr             \<comment> \<open>flags, bytes, tag, result\<close>
  | ExFreePool ptr
  | WriteMem ptr nat nat                        \<comment> \<open>block, offset, bytes\<close>
  | ReadMem ptr nat nat
  | ReadSource nat nat                          \<comment> \<open>elements read, elements there\<close>
  | IrpArrive ptr nat                           \<comment> \<open>IRP given to the driver, bytes of its buffer\<close>
  | IrpAccess ptr
  | WriteSystemBuffer ptr nat                   \<comment> \<open>IRP, bytes\<close>
  | IofCompleteRequest ptr irp                  \<comment> \<open>the IRP as it is handed back\<close>
  | KeInitializeSpinLock
  | KeAcquireSpinLockRaiseToDpc u8              \<comment> \<open>result: the previous IRQL\<close>
  | KeReleaseSpinLock u8
  | QueueAccess
  | DbgPrint string
  | CmCallbackGetKeyObjectIDEx u64 ptr u32 ptr  \<comment> \<open>cookie, object, status, name\<close>
  | CmCallbackReleaseKeyObjectIDEx ptr
  | InvalidCast                                 \<comment> \<open>a structure read at the wrong type\<close>
  | Panic
  | OverflowPanic                               \<comment> \<open>an arithmetic check fails: the thread stops here\<close>
  | IoCreateDevice u32 "u16 list" u32 u32 u8 u32 ptr
      \<comment> \<open>extension size, name, type, characteristics, exclusive, status, device\<close>
  | IoDeleteDevice ptr
  | SetDeviceFlags ptr u32
  | IoCreateSymbolicLink "u16 list" "u16 list" u32
  | IoDeleteSymbolicLink "u16 list"
  | PsSetCreateProcessNotifyRoutineEx bool u32  \<comment> \<open>remove, status\<close>
  | PsSetLoadImageNotifyRoutine u32
  | PsRemoveLoadImageNotifyRoutine
  | CmRegisterCallback u32 u64                  \<comment> \<open>status, cookie\<close>
  | CmUnRegisterCallback u64
  | PsSetCreateThreadNotifyRoutine u32
  | PsRemoveCreateThreadNotifyRoutine
  | ObRegisterCallbacks ob_registration u32 ptr \<comment> \<open>registration, status, handle\<close>
  | ObUnRegisterCallbacks ptr
  | PsLookupProcessByProcessId u64 u32 ptr
  | ObfDereferenceObject ptr
  | SeLocateProcessImageName ptr u32 ptr
  | PsReferencePrimaryToken ptr ptr
  | PsDereferencePrimaryToken ptr
  | SeQueryInformationToken ptr u32 u32 ptr     \<comment> \<open>token, class, status, blob\<close>
  | RtlConvertSidToUnicodeString ptr u32 ptr    \<comment> \<open>SID, status, buffer\<close>
  | RtlFreeUnicodeString ptr

type_synonym history = "kcall list"

section \<open>The kernel's answers\<close>

text \<open>
  Beside the kernel's answers, one property of the build: whether arithmetic is checked for overflow, as the
  \<open>dev\<close> profile of \<open>src/Cargo.toml\<close> does and the \<open>release\<close> profile does not. The profiles set nothing but
  \<open>panic = "abort"\<close>, so that both are the defaults of the language. A failed check panics and the panic
  does not return: the thread takes no further step. The handler is the one of the WDK crates; nothing is
  assumed of it, and the monitor has no rule on it.
\<close>

record kernel =
  overflow_checks :: bool
  ret_ExAllocatePool2 :: "history \<Rightarrow> u64 \<Rightarrow> u64 \<Rightarrow> u32 \<Rightarrow> ptr"
  pool_contents :: "history \<Rightarrow> block"           \<comment> \<open>what a fresh block holds\<close>
  ret_KeQuerySystemTimePrecise :: "history \<Rightarrow> u64"
  ret_KeAcquireSpinLockRaiseToDpc :: "history \<Rightarrow> u8"
  ret_PsGetCurrentProcessId :: "history \<Rightarrow> u64"
  ret_PsGetProcessId :: "history \<Rightarrow> ptr \<Rightarrow> u64"
  ret_PsGetProcessExitStatus :: "history \<Rightarrow> ptr \<Rightarrow> u32"
  ret_CmCallbackGetKeyObjectIDEx :: "history \<Rightarrow> u64 \<Rightarrow> ptr \<Rightarrow> u32 \<times> ptr \<times> unicode_string"
  ret_IoCreateDevice :: "history \<Rightarrow> u32 \<times> ptr"
  ret_IoCreateSymbolicLink :: "history \<Rightarrow> u32"
  ret_PsSetCreateProcessNotifyRoutineEx :: "history \<Rightarrow> bool \<Rightarrow> u32"
  ret_PsSetLoadImageNotifyRoutine :: "history \<Rightarrow> u32"
  ret_CmRegisterCallback :: "history \<Rightarrow> u32 \<times> u64"
  ret_PsSetCreateThreadNotifyRoutine :: "history \<Rightarrow> u32"
  ret_ObRegisterCallbacks :: "history \<Rightarrow> u32 \<times> ptr"
  ret_PsLookupProcessByProcessId :: "history \<Rightarrow> u64 \<Rightarrow> u32 \<times> ptr"
  ret_SeLocateProcessImageName :: "history \<Rightarrow> ptr \<Rightarrow> u32 \<times> ptr \<times> unicode_string"
  ret_IoGetCurrentProcess :: "history \<Rightarrow> ptr"
  ret_PsReferencePrimaryToken :: "history \<Rightarrow> ptr \<Rightarrow> ptr"
  ret_SeQueryInformationToken :: "history \<Rightarrow> ptr \<Rightarrow> u32 \<Rightarrow> u32 \<times> ptr \<times> ptr"
  ret_RtlConvertSidToUnicodeString :: "history \<Rightarrow> ptr \<Rightarrow> u32 \<times> ptr \<times> unicode_string"
  ret_RtlSubAuthorityCountSid :: "history \<Rightarrow> ptr \<Rightarrow> u8 option"
  ret_RtlSubAuthoritySid :: "history \<Rightarrow> ptr \<Rightarrow> u32 \<Rightarrow> u32 option"

section \<open>The contract monitor\<close>

record monitor =
  m_live :: "ptr \<Rightarrow> nat option"      \<comment> \<open>pool blocks held, with their sizes\<close>
  m_irps :: "ptr \<Rightarrow> nat option"      \<comment> \<open>IRPs held, with the sizes of their buffers\<close>
  m_lock :: "u8 option"              \<comment> \<open>the spinlock is held, and the IRQL to restore\<close>
  m_names :: "ptr \<Rightarrow> nat"            \<comment> \<open>registry key names to release\<close>
  m_refs :: "ptr \<Rightarrow> nat"             \<comment> \<open>process and token references to drop\<close>
  m_strings :: "ptr \<Rightarrow> nat"          \<comment> \<open>strings to give back to the run-time library\<close>
  m_process :: bool
  m_image :: bool
  m_registry :: "u64 option"
  m_thread :: bool
  m_object :: "ptr option"
  m_device :: "ptr option"
  m_symlink :: bool

definition mon0 :: monitor where
  "mon0 =
    \<lparr>m_live = (\<lambda>_. None), m_irps = (\<lambda>_. None), m_lock = None, m_names = (\<lambda>_. 0),
     m_refs = (\<lambda>_. 0), m_strings = (\<lambda>_. 0), m_process = False, m_image = False,
     m_registry = None, m_thread = False, m_object = None, m_device = None, m_symlink = False\<rparr>"

definition guarded :: "bool \<Rightarrow> monitor \<Rightarrow> monitor option" where
  "guarded ok m = (if ok then Some m else None)"

primrec mon_step :: "kcall \<Rightarrow> monitor \<Rightarrow> monitor option" where
  "mon_step (ExAllocatePool2 flags bytes tag p) m =
     (if p = null_ptr then Some m
      else guarded (m_live m p = None) (m\<lparr>m_live := (m_live m)(p := Some (unat bytes))\<rparr>))"
| "mon_step (ExFreePool p) m =
     guarded (m_live m p \<noteq> None) (m\<lparr>m_live := (m_live m)(p := None)\<rparr>)"
| "mon_step (WriteMem p off n) m =
     guarded (case m_live m p of None \<Rightarrow> False | Some sz \<Rightarrow> off + n \<le> sz) m"
| "mon_step (ReadMem p off n) m =
     guarded (case m_live m p of None \<Rightarrow> False | Some sz \<Rightarrow> off + n \<le> sz) m"
| "mon_step (ReadSource n avail) m = guarded (n \<le> avail) m"
| "mon_step (IrpArrive i len) m =
     guarded (i \<noteq> null_ptr \<and> m_irps m i = None) (m\<lparr>m_irps := (m_irps m)(i := Some len)\<rparr>)"
| "mon_step (IrpAccess i) m = guarded (m_irps m i \<noteq> None) m"
| "mon_step (WriteSystemBuffer i n) m =
     guarded (case m_irps m i of None \<Rightarrow> False | Some len \<Rightarrow> n \<le> len) m"
| "mon_step (IofCompleteRequest i r) m =
     guarded (m_irps m i \<noteq> None \<and> m_lock m = None) (m\<lparr>m_irps := (m_irps m)(i := None)\<rparr>)"
| "mon_step KeInitializeSpinLock m = guarded (m_lock m = None) m"
| "mon_step (KeAcquireSpinLockRaiseToDpc q) m =
     guarded (m_lock m = None) (m\<lparr>m_lock := Some q\<rparr>)"
| "mon_step (KeReleaseSpinLock q) m = guarded (m_lock m = Some q) (m\<lparr>m_lock := None\<rparr>)"
| "mon_step QueueAccess m = guarded (m_lock m \<noteq> None) m"
| "mon_step (DbgPrint s) m = Some m"
| "mon_step (CmCallbackGetKeyObjectIDEx cookie object status name) m =
     Some (if nt_error status \<or> name = null_ptr then m
           else m\<lparr>m_names := (m_names m)(name := Suc (m_names m name))\<rparr>)"
| "mon_step (CmCallbackReleaseKeyObjectIDEx name) m =
     guarded (0 < m_names m name) (m\<lparr>m_names := (m_names m)(name := m_names m name - 1)\<rparr>)"
| "mon_step InvalidCast m = None"
| "mon_step Panic m = None"
| "mon_step OverflowPanic m = Some m"
| "mon_step (IoCreateDevice ext name type characteristics exclusive status device) m =
     (if nt_error status then Some m
      else guarded (m_device m = None) (m\<lparr>m_device := Some device\<rparr>))"
| "mon_step (IoDeleteDevice device) m =
     guarded (m_device m = Some device) (m\<lparr>m_device := None\<rparr>)"
| "mon_step (SetDeviceFlags device flags) m = guarded (m_device m = Some device) m"
| "mon_step (IoCreateSymbolicLink link target status) m =
     (if nt_error status then Some m else guarded (\<not> m_symlink m) (m\<lparr>m_symlink := True\<rparr>))"
| "mon_step (IoDeleteSymbolicLink link) m = guarded (m_symlink m) (m\<lparr>m_symlink := False\<rparr>)"
| "mon_step (PsSetCreateProcessNotifyRoutineEx remove status) m =
     (if remove then guarded (m_process m) (m\<lparr>m_process := False\<rparr>)
      else if nt_error status then Some m
      else guarded (\<not> m_process m) (m\<lparr>m_process := True\<rparr>))"
| "mon_step (PsSetLoadImageNotifyRoutine status) m =
     (if nt_error status then Some m else guarded (\<not> m_image m) (m\<lparr>m_image := True\<rparr>))"
| "mon_step PsRemoveLoadImageNotifyRoutine m = guarded (m_image m) (m\<lparr>m_image := False\<rparr>)"
| "mon_step (CmRegisterCallback status cookie) m =
     (if nt_error status then Some m
      else guarded (m_registry m = None) (m\<lparr>m_registry := Some cookie\<rparr>))"
| "mon_step (CmUnRegisterCallback cookie) m =
     guarded (m_registry m = Some cookie) (m\<lparr>m_registry := None\<rparr>)"
| "mon_step (PsSetCreateThreadNotifyRoutine status) m =
     (if nt_error status then Some m else guarded (\<not> m_thread m) (m\<lparr>m_thread := True\<rparr>))"
| "mon_step PsRemoveCreateThreadNotifyRoutine m = guarded (m_thread m) (m\<lparr>m_thread := False\<rparr>)"
| "mon_step (ObRegisterCallbacks registration status handle) m =
     (if nt_error status then Some m
      else guarded (m_object m = None) (m\<lparr>m_object := Some handle\<rparr>))"
| "mon_step (ObUnRegisterCallbacks handle) m =
     guarded (m_object m = Some handle) (m\<lparr>m_object := None\<rparr>)"
| "mon_step (PsLookupProcessByProcessId pid status p) m =
     Some (if status = STATUS_SUCCESS \<and> p \<noteq> null_ptr
           then m\<lparr>m_refs := (m_refs m)(p := Suc (m_refs m p))\<rparr> else m)"
| "mon_step (ObfDereferenceObject p) m =
     guarded (0 < m_refs m p) (m\<lparr>m_refs := (m_refs m)(p := m_refs m p - 1)\<rparr>)"
| "mon_step (SeLocateProcessImageName process status name) m =
     (if status = STATUS_SUCCESS \<and> name \<noteq> null_ptr
      then guarded (m_live m name = None) (m\<lparr>m_live := (m_live m)(name := Some 0)\<rparr>) else Some m)"
| "mon_step (PsReferencePrimaryToken process token) m =
     Some (if token = null_ptr then m
           else m\<lparr>m_refs := (m_refs m)(token := Suc (m_refs m token))\<rparr>)"
| "mon_step (PsDereferencePrimaryToken token) m =
     guarded (0 < m_refs m token) (m\<lparr>m_refs := (m_refs m)(token := m_refs m token - 1)\<rparr>)"
| "mon_step (SeQueryInformationToken token class status blob) m =
     (if status = STATUS_SUCCESS \<and> blob \<noteq> null_ptr
      then guarded (m_live m blob = None) (m\<lparr>m_live := (m_live m)(blob := Some 0)\<rparr>) else Some m)"
| "mon_step (RtlConvertSidToUnicodeString sid status buffer) m =
     Some (if status = STATUS_SUCCESS \<and> buffer \<noteq> null_ptr
           then m\<lparr>m_strings := (m_strings m)(buffer := Suc (m_strings m buffer))\<rparr> else m)"
| "mon_step (RtlFreeUnicodeString buffer) m =
     guarded (0 < m_strings m buffer) (m\<lparr>m_strings := (m_strings m)(buffer := m_strings m buffer - 1)\<rparr>)"

fun mon_run :: "history \<Rightarrow> monitor \<Rightarrow> monitor option" where
  "mon_run [] m = Some m"
| "mon_run (c # cs) m = (case mon_step c m of None \<Rightarrow> None | Some m' \<Rightarrow> mon_run cs m')"

lemma mon_run_append:
  "mon_run (xs @ ys) m = (case mon_run xs m of None \<Rightarrow> None | Some m' \<Rightarrow> mon_run ys m')"
  by (induction xs arbitrary: m) (auto split: option.splits)

lemma guarded_simps [simp]: "guarded True m = Some m" "guarded False m = None"
  by (simp_all add: guarded_def)

lemma guarded_eq_Some [simp]: "guarded ok m = Some m' \<longleftrightarrow> ok \<and> m' = m"
  by (auto simp: guarded_def)

section \<open>What the driver relies on\<close>

text \<open>
  \<open>ExAllocatePool2\<close> does not hand out a block that is still allocated. Stated for the traces the
  monitor accepts, since nothing can be expected of the pool after a misuse.
\<close>

definition pool_fresh :: "kernel \<Rightarrow> bool" where
  "pool_fresh K \<longleftrightarrow>
    (\<forall>h m flags bytes tag. mon_run h mon0 = Some m \<longrightarrow>
       (let p = ret_ExAllocatePool2 K h flags bytes tag in p \<noteq> null_ptr \<longrightarrow> m_live m p = None))"

text \<open>A \<open>UNICODE_STRING\<close> describes no more code units than its buffer holds.\<close>

definition us_valid :: "unicode_string \<Rightarrow> bool" where
  "us_valid s \<longleftrightarrow> (case Buffer s of None \<Rightarrow> True | Some us \<Rightarrow> unat (Length s) div 2 \<le> length us)"

definition pus_valid :: "unicode_string option \<Rightarrow> bool" where
  "pus_valid s \<longleftrightarrow> (case s of None \<Rightarrow> True | Some s \<Rightarrow> us_valid s)"

definition key_names_valid :: "kernel \<Rightarrow> bool" where
  "key_names_valid K \<longleftrightarrow>
    (\<forall>h cookie object. case ret_CmCallbackGetKeyObjectIDEx K h cookie object of
       (status, name, s) \<Rightarrow> us_valid s)"

end
