(* ===== verification/Edr_State.thy ===== *)
theory Edr_State
  imports Edr_Kernel
begin

text \<open>
  The driver-wide state (\<open>src/src/state.rs\<close>) and the elementary accesses to it: the globals as
  one record, together with the memory the driver works on (pool blocks and IRPs) and the trace of
  its kernel calls.
\<close>

section \<open>Globals\<close>

definition QUEUE_CAP :: nat where "QUEUE_CAP = 4096"

text \<open>\<open>u32::from_ne_bytes(*b"wEDR")\<close>: the bytes of the tag in memory order on a little-endian target.\<close>

definition POOL_TAG :: u32 where
  "POOL_TAG = of_nat (le_dec [0x77, 0x45, 0x44, 0x52])"

definition POOL_FLAG_NON_PAGED :: u64 where "POOL_FLAG_NON_PAGED = 0x40"

lemma QUEUE_CAP_pos [simp]: "0 < QUEUE_CAP"
  by (simp add: QUEUE_CAP_def)

record slot =
  data :: ptr
  slot_size :: u32

text \<open>
  \<open>QUEUE_HEAD\<close>, \<open>QUEUE_TAIL\<close> and \<open>QUEUE_LEN\<close> are \<open>usize\<close>; the ring invariant keeps them at most
  \<open>QUEUE_CAP\<close>, so their arithmetic cannot wrap and \<open>nat\<close> is exact. \<open>QUEUE_BUF\<close> starts uninitialised:
  its initial contents are arbitrary. The atomic counters are \<open>u32\<close> and wrap.
\<close>

record driver =
  QUEUE_BUF :: "nat \<Rightarrow> slot"
  QUEUE_HEAD :: nat
  QUEUE_TAIL :: nat
  QUEUE_LEN :: nat
  DROP_COUNT :: u32
  TRUNC_COUNT :: u32
  OOM_COUNT :: u32
  PENDING_IRP :: ptr
  CONTROL_DEVICE :: ptr
  PROCESS_CALLBACK_REGISTERED :: bool
  IMAGE_CALLBACK_REGISTERED :: bool
  REGISTRY_CALLBACK_REGISTERED :: bool
  REGISTRY_CALLBACK_COOKIE :: u64
  THREAD_CALLBACK_REGISTERED :: bool
  OBJECT_CALLBACK_HANDLE :: ptr
  heap :: "ptr \<Rightarrow> block"
  irps :: "ptr \<Rightarrow> irp"
  trace :: history

definition initial_driver :: "(nat \<Rightarrow> slot) \<Rightarrow> (ptr \<Rightarrow> block) \<Rightarrow> (ptr \<Rightarrow> irp) \<Rightarrow> driver" where
  "initial_driver buf hp ir =
    \<lparr>QUEUE_BUF = buf, QUEUE_HEAD = 0, QUEUE_TAIL = 0, QUEUE_LEN = 0,
     DROP_COUNT = 0, TRUNC_COUNT = 0, OOM_COUNT = 0, PENDING_IRP = null_ptr,
     CONTROL_DEVICE = null_ptr, PROCESS_CALLBACK_REGISTERED = False,
     IMAGE_CALLBACK_REGISTERED = False, REGISTRY_CALLBACK_REGISTERED = False,
     REGISTRY_CALLBACK_COOKIE = 0, THREAD_CALLBACK_REGISTERED = False,
     OBJECT_CALLBACK_HANDLE = null_ptr, heap = hp, irps = ir, trace = []\<rparr>"

section \<open>Kernel calls and memory accesses\<close>

definition log_call :: "kcall \<Rightarrow> driver \<Rightarrow> driver" where
  "log_call c d = d\<lparr>trace := trace d @ [c]\<rparr>"

text \<open>\<open>ptr::write\<close> and \<open>ptr::copy_nonoverlapping\<close> into a pool block.\<close>

definition write_mem :: "ptr \<Rightarrow> nat \<Rightarrow> u8 list \<Rightarrow> driver \<Rightarrow> driver" where
  "write_mem p off bs d =
    log_call (WriteMem p off (length bs)) (d\<lparr>heap := (heap d)(p := write_at off bs (heap d p))\<rparr>)"

text \<open>\<open>ptr::write_bytes(p, 0, n)\<close>.\<close>

definition zero_mem :: "ptr \<Rightarrow> nat \<Rightarrow> driver \<Rightarrow> driver" where
  "zero_mem p n d =
    log_call (WriteMem p 0 n)
      (d\<lparr>heap := (heap d)(p := (\<lambda>i. if i < n then 0 else heap d p i))\<rparr>)"

definition free_pool :: "ptr \<Rightarrow> driver \<Rightarrow> driver" where
  "free_pool p d = log_call (ExFreePool p) d"

definition bump_drop :: "driver \<Rightarrow> driver" where
  "bump_drop d = d\<lparr>DROP_COUNT := DROP_COUNT d + 1\<rparr>"

definition bump_trunc :: "driver \<Rightarrow> driver" where
  "bump_trunc d = d\<lparr>TRUNC_COUNT := TRUNC_COUNT d + 1\<rparr>"

text \<open>\<open>PENDING_IRP.swap(null)\<close>: the previous value, and the slot emptied.\<close>

definition take_pending :: "driver \<Rightarrow> ptr \<times> driver" where
  "take_pending d = (PENDING_IRP d, d\<lparr>PENDING_IRP := null_ptr\<rparr>)"

section \<open>The monitor on a state\<close>

definition mon_of :: "driver \<Rightarrow> monitor option" where
  "mon_of d = mon_run (trace d) mon0"

lemma mon_of_initial [simp]: "mon_of (initial_driver buf hp ir) = Some mon0"
  by (simp add: mon_of_def initial_driver_def)

lemma mon_of_log_call [mon_simps]:
  "mon_of (log_call c d) = (case mon_of d of None \<Rightarrow> None | Some m \<Rightarrow> mon_step c m)"
  by (simp add: mon_of_def log_call_def mon_run_append split: option.splits)

text \<open>A state change that leaves the trace alone leaves the monitor alone.\<close>

lemma mon_of_cong: "trace d' = trace d \<Longrightarrow> mon_of d' = mon_of d"
  by (simp add: mon_of_def)

lemma mon_of_updates [simp]:
  "mon_of (d\<lparr>QUEUE_BUF := a\<rparr>) = mon_of d"
  "mon_of (d\<lparr>QUEUE_HEAD := b\<rparr>) = mon_of d"
  "mon_of (d\<lparr>QUEUE_TAIL := b\<rparr>) = mon_of d"
  "mon_of (d\<lparr>QUEUE_LEN := b\<rparr>) = mon_of d"
  "mon_of (d\<lparr>DROP_COUNT := e\<rparr>) = mon_of d"
  "mon_of (d\<lparr>TRUNC_COUNT := e\<rparr>) = mon_of d"
  "mon_of (d\<lparr>OOM_COUNT := e\<rparr>) = mon_of d"
  "mon_of (d\<lparr>PENDING_IRP := b\<rparr>) = mon_of d"
  "mon_of (d\<lparr>CONTROL_DEVICE := b\<rparr>) = mon_of d"
  "mon_of (d\<lparr>PROCESS_CALLBACK_REGISTERED := f\<rparr>) = mon_of d"
  "mon_of (d\<lparr>IMAGE_CALLBACK_REGISTERED := f\<rparr>) = mon_of d"
  "mon_of (d\<lparr>REGISTRY_CALLBACK_REGISTERED := f\<rparr>) = mon_of d"
  "mon_of (d\<lparr>REGISTRY_CALLBACK_COOKIE := g\<rparr>) = mon_of d"
  "mon_of (d\<lparr>THREAD_CALLBACK_REGISTERED := f\<rparr>) = mon_of d"
  "mon_of (d\<lparr>OBJECT_CALLBACK_HANDLE := b\<rparr>) = mon_of d"
  "mon_of (d\<lparr>heap := h\<rparr>) = mon_of d"
  "mon_of (d\<lparr>irps := i\<rparr>) = mon_of d"
  by (simp_all add: mon_of_def)

lemma mon_of_write_mem [mon_simps]:
  "mon_of (write_mem p off bs d) =
    (case mon_of d of None \<Rightarrow> None | Some m \<Rightarrow> mon_step (WriteMem p off (length bs)) m)"
  by (simp add: write_mem_def mon_of_log_call)

lemma mon_of_zero_mem [mon_simps]:
  "mon_of (zero_mem p n d) =
    (case mon_of d of None \<Rightarrow> None | Some m \<Rightarrow> mon_step (WriteMem p 0 n) m)"
  by (simp add: zero_mem_def mon_of_log_call)

lemma mon_of_free_pool [mon_simps]:
  "mon_of (free_pool p d) =
    (case mon_of d of None \<Rightarrow> None | Some m \<Rightarrow> mon_step (ExFreePool p) m)"
  by (simp add: free_pool_def mon_of_log_call)

lemma mon_of_bumps [simp]: "mon_of (bump_drop d) = mon_of d" "mon_of (bump_trunc d) = mon_of d"
  by (simp_all add: bump_drop_def bump_trunc_def)

section \<open>Work on one block\<close>

text \<open>
  \<open>fills p n d d'\<close>: going from \<open>d\<close> to \<open>d'\<close> the driver did nothing but fill in the block \<open>p\<close>
  of \<open>n\<close> bytes and count truncations. Everything an event emitter does between allocating the
  event and submitting it is of this kind.
\<close>

definition fill_call :: "kcall \<Rightarrow> bool" where
  "fill_call c = (case c of WriteMem p off n \<Rightarrow> True | ReadSource n avail \<Rightarrow> True | _ \<Rightarrow> False)"

definition fills :: "ptr \<Rightarrow> nat \<Rightarrow> driver \<Rightarrow> driver \<Rightarrow> bool" where
  "fills p n d d' \<longleftrightarrow>
    QUEUE_BUF d' = QUEUE_BUF d \<and> QUEUE_HEAD d' = QUEUE_HEAD d \<and> QUEUE_TAIL d' = QUEUE_TAIL d \<and>
    QUEUE_LEN d' = QUEUE_LEN d \<and> DROP_COUNT d' = DROP_COUNT d \<and> OOM_COUNT d' = OOM_COUNT d \<and>
    PENDING_IRP d' = PENDING_IRP d \<and> CONTROL_DEVICE d' = CONTROL_DEVICE d \<and>
    PROCESS_CALLBACK_REGISTERED d' = PROCESS_CALLBACK_REGISTERED d \<and>
    IMAGE_CALLBACK_REGISTERED d' = IMAGE_CALLBACK_REGISTERED d \<and>
    REGISTRY_CALLBACK_REGISTERED d' = REGISTRY_CALLBACK_REGISTERED d \<and>
    REGISTRY_CALLBACK_COOKIE d' = REGISTRY_CALLBACK_COOKIE d \<and>
    THREAD_CALLBACK_REGISTERED d' = THREAD_CALLBACK_REGISTERED d \<and>
    OBJECT_CALLBACK_HANDLE d' = OBJECT_CALLBACK_HANDLE d \<and> irps d' = irps d \<and>
    (\<forall>q. q \<noteq> p \<longrightarrow> heap d' q = heap d q) \<and>
    (\<exists>cs. trace d' = trace d @ cs \<and> list_all fill_call cs \<and>
      (\<forall>m. m_live m p = Some n \<longrightarrow> mon_run cs m = Some m))"

lemma fills_calls:
  assumes "fills p n d d'"
  obtains cs where "trace d' = trace d @ cs" "list_all fill_call cs"
    "\<And>m. m_live m p = Some n \<Longrightarrow> mon_run cs m = Some m"
  using assms by (auto simp: fills_def)

lemma fillsD:
  assumes "fills p n d d'"
  shows "QUEUE_BUF d' = QUEUE_BUF d" "QUEUE_HEAD d' = QUEUE_HEAD d" "QUEUE_TAIL d' = QUEUE_TAIL d"
    "QUEUE_LEN d' = QUEUE_LEN d" "DROP_COUNT d' = DROP_COUNT d" "OOM_COUNT d' = OOM_COUNT d"
    "PENDING_IRP d' = PENDING_IRP d" "CONTROL_DEVICE d' = CONTROL_DEVICE d"
    "PROCESS_CALLBACK_REGISTERED d' = PROCESS_CALLBACK_REGISTERED d"
    "IMAGE_CALLBACK_REGISTERED d' = IMAGE_CALLBACK_REGISTERED d"
    "REGISTRY_CALLBACK_REGISTERED d' = REGISTRY_CALLBACK_REGISTERED d"
    "REGISTRY_CALLBACK_COOKIE d' = REGISTRY_CALLBACK_COOKIE d"
    "THREAD_CALLBACK_REGISTERED d' = THREAD_CALLBACK_REGISTERED d"
    "OBJECT_CALLBACK_HANDLE d' = OBJECT_CALLBACK_HANDLE d"
    "irps d' = irps d" "q \<noteq> p \<Longrightarrow> heap d' q = heap d q"
    "mon_of d = Some m \<Longrightarrow> m_live m p = Some n \<Longrightarrow> mon_of d' = Some m"
  using assms by (simp_all add: fills_def) (auto simp: mon_of_def mon_run_append)

lemma fills_refl [simp, intro]: "fills p n d d"
  by (simp add: fills_def)

lemma fills_trace:
  assumes "fills p n d d'"
  obtains cs where "trace d' = trace d @ cs" "list_all fill_call cs"
  using assms by (auto simp: fills_def)

lemma fills_trans [trans]:
  assumes "fills p n d1 d2" "fills p n d2 d3"
  shows "fills p n d1 d3"
proof -
  obtain cs where cs: "trace d2 = trace d1 @ cs" "list_all fill_call cs"
    "\<And>m. m_live m p = Some n \<Longrightarrow> mon_run cs m = Some m"
    using fills_calls [OF assms(1)] by blast
  obtain cs' where cs': "trace d3 = trace d2 @ cs'" "list_all fill_call cs'"
    "\<And>m. m_live m p = Some n \<Longrightarrow> mon_run cs' m = Some m"
    using fills_calls [OF assms(2)] by blast
  have "\<exists>cs. trace d3 = trace d1 @ cs \<and> list_all fill_call cs \<and>
      (\<forall>m. m_live m p = Some n \<longrightarrow> mon_run cs m = Some m)"
    using cs cs' by (intro exI [of _ "cs @ cs'"]) (simp add: mon_run_append)
  with assms show ?thesis by (simp add: fills_def)
qed

lemma fills_write_mem:
  assumes "fills p n d d'" "off + length bs \<le> n"
  shows "fills p n d (write_mem p off bs d')"
proof -
  have "fills p n d' (write_mem p off bs d')"
    using assms(2) by (simp add: fills_def write_mem_def log_call_def fill_call_def)
  with assms(1) show ?thesis by (rule fills_trans)
qed

lemma fills_bump_trunc:
  assumes "fills p n d d'"
  shows "fills p n d (bump_trunc d')"
proof -
  have "fills p n d' (bump_trunc d')"
    by (simp add: fills_def bump_trunc_def)
  with assms show ?thesis by (rule fills_trans)
qed

lemma fills_read_source:
  assumes "fills p n d d'" "k \<le> avail"
  shows "fills p n d (log_call (ReadSource k avail) d')"
proof -
  have "fills p n d' (log_call (ReadSource k avail) d')"
    using assms(2) by (simp add: fills_def log_call_def fill_call_def)
  with assms(1) show ?thesis by (rule fills_trans)
qed

end
