(* ===== verification/Edr_Ring.thy ===== *)
theory Edr_Ring
  imports Edr_State
begin

text \<open>
  The ring buffer (\<open>src/src/queue/ring.rs\<close>): \<open>queue_push_locked\<close> and \<open>queue_pop_locked\<close>, the
  interface they implement (a bounded queue that evicts its oldest entry), and what they free, count
  and keep.
\<close>

section \<open>The operations\<close>

definition queue_push_locked :: "ptr \<Rightarrow> u32 \<Rightarrow> driver \<Rightarrow> bool \<times> driver" where
  "queue_push_locked p sz d =
    (let d = log_call QueueAccess d;
         d = (if QUEUE_LEN d = QUEUE_CAP then
                let old = QUEUE_BUF d (QUEUE_HEAD d);
                    d = free_pool (data old) d;
                    d = d\<lparr>QUEUE_HEAD := (QUEUE_HEAD d + 1) mod QUEUE_CAP\<rparr>;
                    d = d\<lparr>QUEUE_LEN := QUEUE_LEN d - 1\<rparr>
                in bump_drop d
              else d);
         d = d\<lparr>QUEUE_BUF := (QUEUE_BUF d)(QUEUE_TAIL d := \<lparr>data = p, slot_size = sz\<rparr>)\<rparr>;
         d = d\<lparr>QUEUE_TAIL := (QUEUE_TAIL d + 1) mod QUEUE_CAP\<rparr>;
         d = d\<lparr>QUEUE_LEN := QUEUE_LEN d + 1\<rparr>
     in (True, d))"

definition queue_pop_locked :: "driver \<Rightarrow> slot option \<times> driver" where
  "queue_pop_locked d =
    (let d = log_call QueueAccess d in
     if QUEUE_LEN d = 0 then (None, d)
     else
       let s = QUEUE_BUF d (QUEUE_HEAD d);
           d = d\<lparr>QUEUE_HEAD := (QUEUE_HEAD d + 1) mod QUEUE_CAP\<rparr>;
           d = d\<lparr>QUEUE_LEN := QUEUE_LEN d - 1\<rparr>
       in (Some s, d))"

section \<open>The live entries and the ring invariant\<close>

text \<open>
  The comment on \<open>QUEUE_BUF\<close>: live entries occupy \<open>[QUEUE_HEAD .. QUEUE_HEAD + QUEUE_LEN]\<close> modulo
  \<open>QUEUE_CAP\<close>.
\<close>

definition queue_list :: "driver \<Rightarrow> slot list" where
  "queue_list d = map (\<lambda>i. QUEUE_BUF d ((QUEUE_HEAD d + i) mod QUEUE_CAP)) [0..<QUEUE_LEN d]"

definition ring_ok :: "driver \<Rightarrow> bool" where
  "ring_ok d \<longleftrightarrow>
    QUEUE_HEAD d < QUEUE_CAP \<and> QUEUE_TAIL d < QUEUE_CAP \<and> QUEUE_LEN d \<le> QUEUE_CAP \<and>
    QUEUE_TAIL d = (QUEUE_HEAD d + QUEUE_LEN d) mod QUEUE_CAP"

lemma length_queue_list [simp]: "length (queue_list d) = QUEUE_LEN d"
  by (simp add: queue_list_def)

lemma queue_list_frame:
  "QUEUE_BUF d' = QUEUE_BUF d \<Longrightarrow> QUEUE_HEAD d' = QUEUE_HEAD d \<Longrightarrow> QUEUE_LEN d' = QUEUE_LEN d \<Longrightarrow>
   queue_list d' = queue_list d"
  by (simp add: queue_list_def)

lemma ring_ok_frame:
  "QUEUE_HEAD d' = QUEUE_HEAD d \<Longrightarrow> QUEUE_TAIL d' = QUEUE_TAIL d \<Longrightarrow> QUEUE_LEN d' = QUEUE_LEN d \<Longrightarrow>
   ring_ok d' = ring_ok d"
  by (simp add: ring_ok_def)

lemma queue_list_updates [simp]:
  "queue_list (d\<lparr>QUEUE_TAIL := t\<rparr>) = queue_list d"
  "queue_list (d\<lparr>DROP_COUNT := a\<rparr>) = queue_list d"
  "queue_list (d\<lparr>TRUNC_COUNT := a\<rparr>) = queue_list d"
  "queue_list (d\<lparr>OOM_COUNT := a\<rparr>) = queue_list d"
  "queue_list (d\<lparr>PENDING_IRP := p\<rparr>) = queue_list d"
  "queue_list (d\<lparr>heap := h\<rparr>) = queue_list d"
  "queue_list (d\<lparr>irps := r\<rparr>) = queue_list d"
  "queue_list (d\<lparr>trace := c\<rparr>) = queue_list d"
  "queue_list (log_call k d) = queue_list d"
  "queue_list (free_pool p d) = queue_list d"
  "queue_list (bump_drop d) = queue_list d"
  "queue_list (bump_trunc d) = queue_list d"
  "queue_list (write_mem p off bs d) = queue_list d"
  "queue_list (zero_mem p n d) = queue_list d"
  by (simp_all add: queue_list_def log_call_def free_pool_def bump_drop_def bump_trunc_def
      write_mem_def zero_mem_def)

lemma queue_list_initial [simp]: "queue_list (initial_driver buf hp ir) = []"
  by (simp add: queue_list_def initial_driver_def)

lemma ring_ok_initial [simp]: "ring_ok (initial_driver buf hp ir)"
  by (simp add: ring_ok_def initial_driver_def)

text \<open>The slot at the tail is not a live entry unless the ring is full.\<close>

lemma mod_cap_less:
  assumes "i < j" "j < (c :: nat)"
  shows "(h + i) mod c \<noteq> (h + j) mod c"
proof
  assume "(h + i) mod c = (h + j) mod c"
  then have "c dvd (h + j) - (h + i)"
    using assms(1) by (subst mod_eq_dvd_iff_nat [symmetric]) auto
  with assms show False by (auto dest: dvd_imp_le)
qed

lemma queue_list_tl:
  assumes "0 < QUEUE_LEN d"
  shows "queue_list (d\<lparr>QUEUE_HEAD := (QUEUE_HEAD d + 1) mod QUEUE_CAP,
                        QUEUE_LEN := QUEUE_LEN d - 1\<rparr>) = tl (queue_list d)"
  by (rule nth_equalityI)
    (simp_all add: queue_list_def nth_tl mod_add_left_eq flip: add.assoc add_Suc)

lemma queue_list_snoc:
  assumes "ring_ok d" "QUEUE_LEN d < QUEUE_CAP"
  shows "queue_list (d\<lparr>QUEUE_BUF := (QUEUE_BUF d)(QUEUE_TAIL d := s),
                        QUEUE_TAIL := t, QUEUE_LEN := Suc (QUEUE_LEN d)\<rparr>) = queue_list d @ [s]"
proof -
  let ?h = "QUEUE_HEAD d" and ?n = "QUEUE_LEN d"
  have tail: "QUEUE_TAIL d = (?h + ?n) mod QUEUE_CAP"
    using assms(1) by (simp add: ring_ok_def)
  have "(?h + i) mod QUEUE_CAP \<noteq> QUEUE_TAIL d" if "i < ?n" for i
    using that assms(2) mod_cap_less [of i ?n QUEUE_CAP ?h] by (simp add: tail)
  then show ?thesis
    by (simp add: queue_list_def tail)
qed


section \<open>What push and pop do\<close>

text \<open>The state just before the new entry is stored.\<close>

definition push_room :: "driver \<Rightarrow> driver" where
  "push_room d =
    (let d = log_call QueueAccess d in
     if QUEUE_LEN d = QUEUE_CAP then
       bump_drop ((free_pool (data (QUEUE_BUF d (QUEUE_HEAD d))) d)
         \<lparr>QUEUE_HEAD := (QUEUE_HEAD d + 1) mod QUEUE_CAP, QUEUE_LEN := QUEUE_LEN d - 1\<rparr>)
     else d)"

lemma queue_push_locked_room:
  "queue_push_locked p sz d =
    (let d = push_room d in
     (True, d\<lparr>QUEUE_BUF := (QUEUE_BUF d)(QUEUE_TAIL d := \<lparr>data = p, slot_size = sz\<rparr>),
              QUEUE_TAIL := (QUEUE_TAIL d + 1) mod QUEUE_CAP, QUEUE_LEN := Suc (QUEUE_LEN d)\<rparr>))"
  by (simp add: queue_push_locked_def push_room_def Let_def log_call_def free_pool_def bump_drop_def)

lemma hd_queue_list:
  "QUEUE_HEAD d < QUEUE_CAP \<Longrightarrow> 0 < QUEUE_LEN d \<Longrightarrow>
   hd (queue_list d) = QUEUE_BUF d (QUEUE_HEAD d)"
  by (simp add: queue_list_def hd_map)

lemma queue_list_advance:
  assumes "0 < QUEUE_LEN d" "QUEUE_BUF d' = QUEUE_BUF d"
    "QUEUE_HEAD d' = (QUEUE_HEAD d + 1) mod QUEUE_CAP" "QUEUE_LEN d' = QUEUE_LEN d - 1"
  shows "queue_list d' = tl (queue_list d)"
  using queue_list_tl [OF assms(1)] assms(2-4) by (simp add: queue_list_def)

lemma ring_ok_advance:
  assumes "ring_ok d" "0 < QUEUE_LEN d" "QUEUE_TAIL d' = QUEUE_TAIL d"
    "QUEUE_HEAD d' = (QUEUE_HEAD d + 1) mod QUEUE_CAP" "QUEUE_LEN d' = QUEUE_LEN d - 1"
  shows "ring_ok d'"
proof -
  obtain n where n: "QUEUE_LEN d = Suc n" using assms(2) by (cases "QUEUE_LEN d") auto
  show ?thesis
    using assms by (auto simp: ring_ok_def n mod_add_left_eq)
qed

lemma push_room_ring:
  assumes "ring_ok d"
  shows "ring_ok (push_room d)" "QUEUE_LEN (push_room d) < QUEUE_CAP"
    "queue_list (push_room d) =
      (if QUEUE_LEN d = QUEUE_CAP then tl (queue_list d) else queue_list d)"
proof -
  have le: "QUEUE_LEN d \<le> QUEUE_CAP" using assms by (simp add: ring_ok_def)
  show "QUEUE_LEN (push_room d) < QUEUE_CAP"
    using le by (simp add: push_room_def Let_def log_call_def free_pool_def bump_drop_def)
  show "ring_ok (push_room d)"
    using assms
    by (auto simp: push_room_def Let_def log_call_def free_pool_def bump_drop_def
        intro: ring_ok_advance [OF assms] elim: ring_ok_frame [THEN iffD2, rotated 3])
  show "queue_list (push_room d) =
      (if QUEUE_LEN d = QUEUE_CAP then tl (queue_list d) else queue_list d)"
    by (auto simp: push_room_def Let_def log_call_def free_pool_def bump_drop_def
        intro: queue_list_advance queue_list_frame)
qed

lemma push_ring_ok:
  assumes "ring_ok d"
  shows "ring_ok (snd (queue_push_locked p sz d))"
  using push_room_ring(1,2) [OF assms]
  by (simp add: queue_push_locked_room Let_def ring_ok_def mod_Suc_eq)

lemma push_queue_list:
  assumes "ring_ok d"
  shows "queue_list (snd (queue_push_locked p sz d)) =
    (if QUEUE_LEN d = QUEUE_CAP then tl (queue_list d) else queue_list d)
      @ [\<lparr>data = p, slot_size = sz\<rparr>]"
  using queue_list_snoc [OF push_room_ring(1,2) [OF assms]] push_room_ring(3) [OF assms]
  by (simp add: queue_push_locked_room Let_def)

lemma pop_ring_ok:
  assumes "ring_ok d"
  shows "ring_ok (snd (queue_pop_locked d))"
  using assms
  by (auto simp: queue_pop_locked_def Let_def log_call_def intro: ring_ok_advance
      elim: ring_ok_frame [THEN iffD2, rotated 3])

lemma pop_empty:
  assumes "queue_list d = []"
  shows "queue_pop_locked d = (None, log_call QueueAccess d)"
proof -
  have "QUEUE_LEN d = 0" using assms by (metis length_queue_list list.size(3))
  then show ?thesis by (simp add: queue_pop_locked_def log_call_def)
qed

lemma pop_Cons:
  assumes "ring_ok d" "queue_list d = s # ss"
  shows "fst (queue_pop_locked d) = Some s" "queue_list (snd (queue_pop_locked d)) = ss"
proof -
  have len: "0 < QUEUE_LEN d" using assms(2) by (metis length_queue_list length_greater_0_conv list.discI)
  have hd: "QUEUE_BUF d (QUEUE_HEAD d) = s"
    using hd_queue_list [of d] assms len by (simp add: ring_ok_def)
  show "fst (queue_pop_locked d) = Some s"
    using len hd by (simp add: queue_pop_locked_def log_call_def Let_def)
  have "queue_list (snd (queue_pop_locked d)) = tl (queue_list d)"
    using len by (intro queue_list_advance) (simp_all add: queue_pop_locked_def log_call_def Let_def)
  with assms(2) show "queue_list (snd (queue_pop_locked d)) = ss" by simp
qed

text \<open>The fields the ring operations leave alone, and the one counter push moves.\<close>

lemma push_frame [frame_simps]:
  "DROP_COUNT (snd (queue_push_locked p sz d)) =
     DROP_COUNT d + (if QUEUE_LEN d = QUEUE_CAP then 1 else 0)"
  "TRUNC_COUNT (snd (queue_push_locked p sz d)) = TRUNC_COUNT d"
  "OOM_COUNT (snd (queue_push_locked p sz d)) = OOM_COUNT d"
  "PENDING_IRP (snd (queue_push_locked p sz d)) = PENDING_IRP d"
  "CONTROL_DEVICE (snd (queue_push_locked p sz d)) = CONTROL_DEVICE d"
  "PROCESS_CALLBACK_REGISTERED (snd (queue_push_locked p sz d)) = PROCESS_CALLBACK_REGISTERED d"
  "IMAGE_CALLBACK_REGISTERED (snd (queue_push_locked p sz d)) = IMAGE_CALLBACK_REGISTERED d"
  "REGISTRY_CALLBACK_REGISTERED (snd (queue_push_locked p sz d)) = REGISTRY_CALLBACK_REGISTERED d"
  "REGISTRY_CALLBACK_COOKIE (snd (queue_push_locked p sz d)) = REGISTRY_CALLBACK_COOKIE d"
  "THREAD_CALLBACK_REGISTERED (snd (queue_push_locked p sz d)) = THREAD_CALLBACK_REGISTERED d"
  "OBJECT_CALLBACK_HANDLE (snd (queue_push_locked p sz d)) = OBJECT_CALLBACK_HANDLE d"
  "heap (snd (queue_push_locked p sz d)) = heap d"
  "irps (snd (queue_push_locked p sz d)) = irps d"
  by (simp_all add: queue_push_locked_def Let_def log_call_def free_pool_def bump_drop_def)

lemma pop_frame [frame_simps]:
  "DROP_COUNT (snd (queue_pop_locked d)) = DROP_COUNT d"
  "TRUNC_COUNT (snd (queue_pop_locked d)) = TRUNC_COUNT d"
  "OOM_COUNT (snd (queue_pop_locked d)) = OOM_COUNT d"
  "PENDING_IRP (snd (queue_pop_locked d)) = PENDING_IRP d"
  "CONTROL_DEVICE (snd (queue_pop_locked d)) = CONTROL_DEVICE d"
  "PROCESS_CALLBACK_REGISTERED (snd (queue_pop_locked d)) = PROCESS_CALLBACK_REGISTERED d"
  "IMAGE_CALLBACK_REGISTERED (snd (queue_pop_locked d)) = IMAGE_CALLBACK_REGISTERED d"
  "REGISTRY_CALLBACK_REGISTERED (snd (queue_pop_locked d)) = REGISTRY_CALLBACK_REGISTERED d"
  "REGISTRY_CALLBACK_COOKIE (snd (queue_pop_locked d)) = REGISTRY_CALLBACK_COOKIE d"
  "THREAD_CALLBACK_REGISTERED (snd (queue_pop_locked d)) = THREAD_CALLBACK_REGISTERED d"
  "OBJECT_CALLBACK_HANDLE (snd (queue_pop_locked d)) = OBJECT_CALLBACK_HANDLE d"
  "heap (snd (queue_pop_locked d)) = heap d"
  "irps (snd (queue_pop_locked d)) = irps d"
  by (simp_all add: queue_pop_locked_def Let_def log_call_def)

lemma trace_push:
  "trace (snd (queue_push_locked p sz d)) =
    trace d @ QueueAccess #
      (if QUEUE_LEN d = QUEUE_CAP then [ExFreePool (data (QUEUE_BUF d (QUEUE_HEAD d)))] else [])"
  by (simp add: queue_push_locked_def Let_def log_call_def free_pool_def bump_drop_def)

lemma trace_pop: "trace (snd (queue_pop_locked d)) = trace d @ [QueueAccess]"
  by (simp add: queue_pop_locked_def Let_def log_call_def)

lemma mon_of_pop [mon_simps]:
  "mon_of (snd (queue_pop_locked d)) =
    (case mon_of d of None \<Rightarrow> None | Some m \<Rightarrow> mon_step QueueAccess m)"
  by (simp add: mon_of_def trace_pop mon_run_append split: option.splits)

lemma mon_of_push [mon_simps]:
  "mon_of (snd (queue_push_locked p sz d)) =
    (case mon_of d of None \<Rightarrow> None
     | Some m \<Rightarrow> mon_run (QueueAccess #
         (if QUEUE_LEN d = QUEUE_CAP then [ExFreePool (data (QUEUE_BUF d (QUEUE_HEAD d)))] else [])) m)"
  by (simp add: mon_of_def trace_push mon_run_append split: option.splits)

section \<open>The interface: a bounded queue that evicts its oldest entry\<close>

locale evicting_queue =
  fixes cap :: nat
    and invar :: "'q \<Rightarrow> bool"
    and contents :: "'q \<Rightarrow> 'a list"
    and push :: "'a \<Rightarrow> 'q \<Rightarrow> 'q"
    and pop :: "'q \<Rightarrow> 'a option \<times> 'q"
  assumes cap_pos: "0 < cap"
    and bounded: "invar q \<Longrightarrow> length (contents q) \<le> cap"
    and push_invar: "invar q \<Longrightarrow> invar (push x q)"
    and push_contents: "invar q \<Longrightarrow>
      contents (push x q) =
        (if length (contents q) = cap then tl (contents q) else contents q) @ [x]"
    and pop_invar: "invar q \<Longrightarrow> invar (snd (pop q))"
    and pop_none: "invar q \<Longrightarrow> contents q = [] \<Longrightarrow>
      fst (pop q) = None \<and> contents (snd (pop q)) = []"
    and pop_some: "invar q \<Longrightarrow> contents q = x # xs \<Longrightarrow>
      fst (pop q) = Some x \<and> contents (snd (pop q)) = xs"
begin

lemma fold_push_invar: "invar q \<Longrightarrow> invar (fold push xs q)"
  by (induction xs arbitrary: q) (auto intro: push_invar)

text \<open>Whatever is pushed, the queue holds the most recent entries in order.\<close>

lemma fold_push_contents:
  "invar q \<Longrightarrow>
   contents (fold push xs q) = drop (length (contents q) + length xs - cap) (contents q @ xs)"
proof (induction xs arbitrary: q)
  case Nil
  then show ?case using bounded [of q] by simp
next
  case (Cons x xs)
  let ?c = "contents q"
  have len: "length ?c \<le> cap" using Cons.prems by (rule bounded)
  have "contents (fold push xs (push x q)) =
      drop (length (contents (push x q)) + length xs - cap) (contents (push x q) @ xs)"
    using Cons.prems by (intro Cons.IH push_invar)
  also have "\<dots> = drop (length ?c + length (x # xs) - cap) (?c @ x # xs)"
  proof (cases "length ?c = cap")
    case True
    with cap_pos obtain y ys where "?c = y # ys" by (cases ?c) auto
    with True Cons.prems show ?thesis by (simp add: push_contents flip: True)
  next
    case False
    with Cons.prems show ?thesis by (simp add: push_contents)
  qed
  finally show ?case by simp
qed

lemma newest_survives: "invar q \<Longrightarrow> contents (push x q) \<noteq> [] \<and> last (contents (push x q)) = x"
  by (simp add: push_contents)

text \<open>Popping until the queue reports empty returns every entry, oldest first.\<close>

fun drain :: "nat \<Rightarrow> 'q \<Rightarrow> 'a list \<times> 'q" where
  "drain 0 q = ([], q)"
| "drain (Suc n) q =
     (case pop q of
        (None, q') \<Rightarrow> ([], q')
      | (Some x, q') \<Rightarrow> (case drain n q' of (xs, q'') \<Rightarrow> (x # xs, q'')))"

lemma drain_contents:
  "invar q \<Longrightarrow> length (contents q) < n \<Longrightarrow>
   fst (drain n q) = contents q \<and> contents (snd (drain n q)) = []"
proof (induction n arbitrary: q)
  case 0
  then show ?case by simp
next
  case (Suc n)
  show ?case
  proof (cases "contents q")
    case Nil
    then show ?thesis using pop_none [OF Suc.prems(1)] by (cases "pop q") auto
  next
    case (Cons x xs)
    obtain q' where q': "pop q = (Some x, q')" "contents q' = xs"
      using pop_some [OF Suc.prems(1) Cons] by (cases "pop q") auto
    have "invar q'" using pop_invar [OF Suc.prems(1)] q' by simp
    then have "fst (drain n q') = xs \<and> contents (snd (drain n q')) = []"
      using Suc.IH [of q'] Suc.prems(2) Cons q' by simp
    then show ?thesis using Cons q' by (auto split: prod.splits)
  qed
qed

end

definition push_slot :: "slot \<Rightarrow> driver \<Rightarrow> driver" where
  "push_slot s d = snd (queue_push_locked (data s) (slot_size s) d)"

interpretation ring: evicting_queue QUEUE_CAP ring_ok queue_list push_slot queue_pop_locked
proof unfold_locales
  show "0 < QUEUE_CAP" by simp
next
  fix q assume "ring_ok q"
  then show "length (queue_list q) \<le> QUEUE_CAP" by (simp add: ring_ok_def)
next
  fix q x assume "ring_ok q"
  then show "ring_ok (push_slot x q)" by (simp add: push_slot_def push_ring_ok)
next
  fix q x assume "ring_ok q"
  then show "queue_list (push_slot x q) =
      (if length (queue_list q) = QUEUE_CAP then tl (queue_list q) else queue_list q) @ [x]"
    by (simp add: push_slot_def push_queue_list)
next
  fix q assume "ring_ok q"
  then show "ring_ok (snd (queue_pop_locked q))" by (rule pop_ring_ok)
next
  fix q assume "queue_list q = []"
  then show "fst (queue_pop_locked q) = None \<and> queue_list (snd (queue_pop_locked q)) = []"
    using queue_list_frame [of "log_call QueueAccess q" q] by (simp add: pop_empty log_call_def)
next
  fix q x xs assume "ring_ok q" "queue_list q = x # xs"
  then show "fst (queue_pop_locked q) = Some x \<and> queue_list (snd (queue_pop_locked q)) = xs"
    by (simp add: pop_Cons)
qed

end
