(* ===== verification/Edr_Util.thy ===== *)
theory Edr_Util
  imports Edr_Ring
begin

text \<open>
  The helpers of \<open>src/src/util\<close>: the RAII spinlock guard (\<open>spin_lock.rs\<close>) and the ASCII to UTF-16
  conversion (\<open>strings.rs\<close>). \<open>SyncCell\<close> (\<open>sync_cell.rs\<close>) is a cell with no behaviour of its own; the
  rule that its contents are touched under the lock only is the monitor's rule for \<open>QueueAccess\<close>.
\<close>

section \<open>SpinLockGuard\<close>

text \<open>\<open>QUEUE_LOCK\<close> is the only spinlock of the driver, so the guard carries the saved IRQL alone.\<close>

record spin_lock_guard =
  saved_irql :: u8

definition SpinLockGuard_acquire :: "kernel \<Rightarrow> driver \<Rightarrow> spin_lock_guard \<times> driver" where
  "SpinLockGuard_acquire K d =
    (let q = ret_KeAcquireSpinLockRaiseToDpc K (trace d)
     in (\<lparr>saved_irql = q\<rparr>, log_call (KeAcquireSpinLockRaiseToDpc q) d))"

definition SpinLockGuard_drop :: "spin_lock_guard \<Rightarrow> driver \<Rightarrow> driver" where
  "SpinLockGuard_drop g d = log_call (KeReleaseSpinLock (saved_irql g)) d"

section \<open>wstr16\<close>

text \<open>The \<open>while i < N\<close> loop over the output array.\<close>

function wstr16_loop :: "u8 list \<Rightarrow> u16 list \<Rightarrow> nat \<Rightarrow> u16 list" where
  "wstr16_loop s out i =
    (if i < length s then wstr16_loop s (out[i := ucast (s ! i)]) (i + 1) else out)"
  by pat_completeness auto
termination
  by (relation "measure (\<lambda>(s, out, i). length s - i)") auto

declare wstr16_loop.simps [simp del]

definition wstr16 :: "u8 list \<Rightarrow> u16 list" where
  "wstr16 s = wstr16_loop s (replicate (length s) 0) 0"

lemma wstr16_loop_eq:
  "length out = length s \<Longrightarrow> i \<le> length s \<Longrightarrow>
   wstr16_loop s out i = take i out @ map ucast (drop i s)"
proof (induction s out i rule: wstr16_loop.induct)
  case (1 s out i)
  show ?case
  proof (cases "i < length s")
    case True
    with 1 have "wstr16_loop s (out[i := ucast (s ! i)]) (i + 1) =
        take (i + 1) (out[i := ucast (s ! i)]) @ map ucast (drop (i + 1) s)"
      by simp
    also have "\<dots> = take i out @ map ucast (drop i s)"
      using True "1.prems" by (simp add: take_Suc_conv_app_nth Cons_nth_drop_Suc [symmetric])
    finally show ?thesis using True by (simp add: wstr16_loop.simps [of s out i])
  next
    case False
    then show ?thesis using "1.prems" by (subst wstr16_loop.simps) simp
  qed
qed

lemma wstr16_eq: "wstr16 s = map ucast s"
  by (simp add: wstr16_def wstr16_loop_eq)

end
