(* ===== verification/Edr_Irp.thy ===== *)
theory Edr_Irp
  imports Edr_Util
begin

text \<open>
  The IRP helpers (\<open>src/src/ipc/irp.rs\<close>) and the IOCTL contract (\<open>src/src/ipc/mod.rs\<close>). Every use
  of an IRP, also reading its stack location, is an \<open>IrpAccess\<close> in the trace.
\<close>

section \<open>IRP helpers\<close>

definition SL_PENDING_RETURNED :: u8 where "SL_PENDING_RETURNED = 0x01"

definition current_stack_location :: "ptr \<Rightarrow> driver \<Rightarrow> irp \<times> driver" where
  "current_stack_location i d = (irps d i, log_call (IrpAccess i) d)"

definition mark_irp_pending :: "ptr \<Rightarrow> driver \<Rightarrow> driver" where
  "mark_irp_pending i d =
    (let (stack, d) = current_stack_location i d
     in d\<lparr>irps := (irps d)(i := stack\<lparr>Control := Control stack OR SL_PENDING_RETURNED\<rparr>)\<rparr>)"

definition complete_irp :: "ptr \<Rightarrow> u32 \<Rightarrow> u64 \<Rightarrow> driver \<Rightarrow> u32 \<times> driver" where
  "complete_irp i status info d =
    (let d = log_call (IrpAccess i)
           (d\<lparr>irps := (irps d)(i := (irps d i)\<lparr>Status := status, Information := info\<rparr>)\<rparr>);
         d = log_call (IofCompleteRequest i (irps d i)) d
     in (status, d))"

text \<open>\<open>ptr::copy_nonoverlapping(data, sysbuf, n)\<close> into the buffer of an IRP.\<close>

definition copy_to_system_buffer :: "ptr \<Rightarrow> ptr \<Rightarrow> nat \<Rightarrow> driver \<Rightarrow> driver" where
  "copy_to_system_buffer i p n d =
    (let d = log_call (IrpAccess i) d;
         d = log_call (ReadMem p 0 n) d;
         d = log_call (WriteSystemBuffer i n) d
     in d\<lparr>irps := (irps d)(i := (irps d i)
            \<lparr>SystemBuffer := write_at 0 (read_at 0 n (heap d p)) (SystemBuffer (irps d i))\<rparr>)\<rparr>)"

lemmas irp_op_defs = current_stack_location_def mark_irp_pending_def complete_irp_def
  copy_to_system_buffer_def

section \<open>The IOCTL code\<close>

text \<open>Constants of the public Windows ABI.\<close>

definition FILE_DEVICE_UNKNOWN :: u32 where "FILE_DEVICE_UNKNOWN = 0x22"
definition METHOD_BUFFERED :: u32 where "METHOD_BUFFERED = 0"
definition FILE_READ_ACCESS :: u32 where "FILE_READ_ACCESS = 1"

definition ctl_code :: "u32 \<Rightarrow> u32 \<Rightarrow> u32 \<Rightarrow> u32 \<Rightarrow> u32" where
  "ctl_code device_type function_code method access =
    push_bit 16 device_type OR push_bit 14 access OR push_bit 2 function_code OR method"

definition IOCTL_WEDR_GET_EVENT :: u32 where
  "IOCTL_WEDR_GET_EVENT = ctl_code FILE_DEVICE_UNKNOWN 0x800 METHOD_BUFFERED FILE_READ_ACCESS"

lemma ioctl_value: "IOCTL_WEDR_GET_EVENT = 0x226000"
  by (simp add: IOCTL_WEDR_GET_EVENT_def ctl_code_def FILE_DEVICE_UNKNOWN_def METHOD_BUFFERED_def
      FILE_READ_ACCESS_def)

end
