(* ===== verification/Edr_Ownership.thy ===== *)
theory Edr_Ownership
  imports Edr_Irp
begin

text \<open>
  Who owns what between two operations of the driver: the pool blocks the driver holds are those in
  the queue and the ones the running operation has in hand, the IRPs it holds are the parked one and
  the ones it was called with, no resource of another kind is held, and the registration flags agree
  with what is registered. Stated on the monitor, so it says both that the trace so far was allowed
  and what is still allowed next.
\<close>

section \<open>Queue entries as owned blocks\<close>

definition slot_block :: "slot \<Rightarrow> ptr \<times> nat" where
  "slot_block s = (data s, unat (slot_size s))"

definition queue_blocks :: "driver \<Rightarrow> (ptr \<times> nat) list" where
  "queue_blocks d = map slot_block (queue_list d)"

definition regs_agree :: "monitor \<Rightarrow> driver \<Rightarrow> bool" where
  "regs_agree m d \<longleftrightarrow>
    m_process m = PROCESS_CALLBACK_REGISTERED d \<and>
    m_image m = IMAGE_CALLBACK_REGISTERED d \<and>
    m_registry m =
      (if REGISTRY_CALLBACK_REGISTERED d then Some (REGISTRY_CALLBACK_COOKIE d) else None) \<and>
    m_thread m = THREAD_CALLBACK_REGISTERED d \<and>
    m_object m =
      (if OBJECT_CALLBACK_HANDLE d = null_ptr then None else Some (OBJECT_CALLBACK_HANDLE d)) \<and>
    m_device m = (if CONTROL_DEVICE d = null_ptr then None else Some (CONTROL_DEVICE d)) \<and>
    m_symlink m = (CONTROL_DEVICE d \<noteq> null_ptr)"

definition blocks_owned :: "(ptr \<times> nat) list \<Rightarrow> monitor \<Rightarrow> driver \<Rightarrow> bool" where
  "blocks_owned bs m d \<longleftrightarrow>
    distinct (map fst (bs @ queue_blocks d)) \<and> null_ptr \<notin> fst ` set (bs @ queue_blocks d) \<and>
    m_live m = map_of (bs @ queue_blocks d)"

definition irps_owned :: "ptr list \<Rightarrow> monitor \<Rightarrow> driver \<Rightarrow> bool" where
  "irps_owned iq m d \<longleftrightarrow>
    distinct iq \<and> null_ptr \<notin> set iq \<and> PENDING_IRP d \<notin> set iq \<and>
    (\<forall>i. m_irps m i \<noteq> None \<longleftrightarrow> i \<in> set iq \<or> i = PENDING_IRP d \<and> i \<noteq> null_ptr) \<and>
    (\<forall>i n. m_irps m i = Some n \<longrightarrow> unat (OutputBufferLength (irps d i)) \<le> n) \<and>
    (PENDING_IRP d \<noteq> null_ptr \<longrightarrow> queue_list d = [])"

definition no_loans :: "monitor \<Rightarrow> bool" where
  "no_loans m \<longleftrightarrow> m_names m = (\<lambda>_. 0) \<and> m_refs m = (\<lambda>_. 0) \<and> m_strings m = (\<lambda>_. 0)"

text \<open>
  \<open>owns lk bs iq d\<close>: the trace so far is allowed, the spinlock is in state \<open>lk\<close>, and the running
  operation has the blocks \<open>bs\<close> and the IRPs \<open>iq\<close> in hand.
\<close>

definition owns :: "u8 option \<Rightarrow> (ptr \<times> nat) list \<Rightarrow> ptr list \<Rightarrow> driver \<Rightarrow> bool" where
  "owns lk bs iq d \<longleftrightarrow>
    ring_ok d \<and>
    (case mon_of d of None \<Rightarrow> False
     | Some m \<Rightarrow> m_lock m = lk \<and> no_loans m \<and> regs_agree m d \<and>
         blocks_owned bs m d \<and> irps_owned iq m d)"

text \<open>The invariant between operations: nothing in hand.\<close>

definition driver_ok :: "driver \<Rightarrow> bool" where
  "driver_ok d \<longleftrightarrow> owns None [] [] d"

lemma ownsE:
  assumes "owns lk bs iq d"
  obtains m where "ring_ok d" "mon_of d = Some m" "m_lock m = lk" "no_loans m"
    "regs_agree m d" "blocks_owned bs m d" "irps_owned iq m d"
  using assms by (auto simp: owns_def split: option.splits)

lemma ownsI:
  "ring_ok d \<Longrightarrow> mon_of d = Some m \<Longrightarrow> m_lock m = lk \<Longrightarrow> no_loans m \<Longrightarrow> regs_agree m d \<Longrightarrow>
   blocks_owned bs m d \<Longrightarrow> irps_owned iq m d \<Longrightarrow> owns lk bs iq d"
  by (simp add: owns_def)

lemma driver_ok_initial: "driver_ok (initial_driver buf hp ir)"
  unfolding driver_ok_def
  by (rule ownsI [where m = mon0])
    (simp_all add: mon0_def no_loans_def regs_agree_def blocks_owned_def irps_owned_def
      queue_blocks_def, simp_all add: initial_driver_def)

section \<open>Blocks change hands\<close>

lemma queue_blocks_frame:
  "queue_list d' = queue_list d \<Longrightarrow> queue_blocks d' = queue_blocks d"
  by (simp add: queue_blocks_def)

lemma blocks_owned_frame:
  "queue_list d' = queue_list d \<Longrightarrow> m_live m' = m_live m \<Longrightarrow>
   blocks_owned bs m' d' = blocks_owned bs m d"
  by (simp add: blocks_owned_def queue_blocks_def)

lemma map_of_remove_first:
  "distinct (map fst ((k, v) # xs)) \<Longrightarrow> (map_of ((k, v) # xs))(k := None) = map_of xs"
  by (rule ext) (auto simp: map_of_eq_None_iff [THEN iffD2])

text \<open>A block in hand is freed.\<close>

lemma blocks_owned_free:
  assumes "blocks_owned ((p, n) # bs) m d"
    and "queue_list d' = queue_list d" "m_live m' = (m_live m)(p := None)"
  shows "blocks_owned bs m' d'"
  using assms map_of_remove_first [of p n "bs @ queue_blocks d"]
  by (simp add: blocks_owned_def queue_blocks_frame [OF assms(2)])

text \<open>A block in hand goes to the end of the queue.\<close>

lemma blocks_owned_enqueue:
  assumes own: "blocks_owned ((p, unat sz) # bs) m d"
    and q: "queue_list d' = queue_list d @ [\<lparr>data = p, slot_size = sz\<rparr>]" "m_live m' = m_live m"
  shows "blocks_owned bs m' d'"
proof -
  let ?new = "bs @ queue_blocks d @ [(p, unat sz)]" and ?old = "(p, unat sz) # bs @ queue_blocks d"
  have blocks: "bs @ queue_blocks d' = ?new"
    by (simp add: queue_blocks_def q slot_block_def)
  have "distinct (map fst ?old)" using own by (simp add: blocks_owned_def)
  then have dist: "distinct (map fst ?new)" by auto
  have "map_of ?new = map_of ?old"
    using \<open>distinct (map fst ?old)\<close> dist by (intro map_of_inject_set [THEN iffD2]) auto
  with own dist show ?thesis
    unfolding blocks_owned_def blocks by (auto simp: q)
qed

text \<open>The oldest entry leaves the queue: it is now in hand.\<close>

lemma blocks_owned_dequeue:
  assumes own: "blocks_owned bs m d"
    and q: "queue_list d = s # queue_list d'" "m_live m' = m_live m"
  shows "blocks_owned (slot_block s # bs) m' d'"
proof -
  let ?old = "bs @ slot_block s # queue_blocks d'" and ?new = "slot_block s # bs @ queue_blocks d'"
  have blocks: "bs @ queue_blocks d = ?old"
    by (simp add: queue_blocks_def q)
  have "distinct (map fst ?old)" using own by (simp add: blocks_owned_def blocks)
  then have dist: "distinct (map fst ?new)" by auto
  have "map_of ?old = map_of ?new"
    using \<open>distinct (map fst ?old)\<close> dist by (intro map_of_inject_set [THEN iffD2]) auto
  with own dist show ?thesis
    unfolding blocks_owned_def blocks by (auto simp: q)
qed

lemma blocks_owned_live:
  "blocks_owned ((p, n) # bs) m d \<Longrightarrow> m_live m p = Some n"
  by (simp add: blocks_owned_def)

lemma blocks_owned_alloc:
  assumes "blocks_owned bs m d" "p \<noteq> null_ptr" "m_live m p = None"
    and "queue_list d' = queue_list d" "m_live m' = (m_live m)(p := Some n)"
  shows "blocks_owned ((p, n) # bs) m' d'"
proof -
  have "p \<notin> fst ` set (bs @ queue_blocks d)"
    using assms(1,3) by (simp add: blocks_owned_def map_of_eq_None_iff image_Un)
  with assms show ?thesis
    by (auto simp: blocks_owned_def queue_blocks_frame [OF assms(4)])
qed

lemma regs_agree_frame:
  assumes "m_process m' = m_process m" "m_image m' = m_image m" "m_registry m' = m_registry m"
    "m_thread m' = m_thread m" "m_object m' = m_object m" "m_device m' = m_device m"
    "m_symlink m' = m_symlink m"
    "PROCESS_CALLBACK_REGISTERED d' = PROCESS_CALLBACK_REGISTERED d"
    "IMAGE_CALLBACK_REGISTERED d' = IMAGE_CALLBACK_REGISTERED d"
    "REGISTRY_CALLBACK_REGISTERED d' = REGISTRY_CALLBACK_REGISTERED d"
    "REGISTRY_CALLBACK_COOKIE d' = REGISTRY_CALLBACK_COOKIE d"
    "THREAD_CALLBACK_REGISTERED d' = THREAD_CALLBACK_REGISTERED d"
    "OBJECT_CALLBACK_HANDLE d' = OBJECT_CALLBACK_HANDLE d"
    "CONTROL_DEVICE d' = CONTROL_DEVICE d"
  shows "regs_agree m' d' = regs_agree m d"
  using assms by (simp add: regs_agree_def)

text \<open>The parts of the monitor each predicate looks at.\<close>

lemma owned_monitor_updates [simp]:
  "regs_agree (m\<lparr>m_lock := lk\<rparr>) d = regs_agree m d"
  "regs_agree (m\<lparr>m_live := f\<rparr>) d = regs_agree m d"
  "regs_agree (m\<lparr>m_irps := g\<rparr>) d = regs_agree m d"
  "regs_agree (m\<lparr>m_names := c\<rparr>) d = regs_agree m d"
  "no_loans (m\<lparr>m_lock := lk\<rparr>) = no_loans m"
  "no_loans (m\<lparr>m_live := f\<rparr>) = no_loans m"
  "no_loans (m\<lparr>m_irps := g\<rparr>) = no_loans m"
  "blocks_owned bs (m\<lparr>m_lock := lk\<rparr>) d = blocks_owned bs m d"
  "blocks_owned bs (m\<lparr>m_irps := g\<rparr>) d = blocks_owned bs m d"
  "blocks_owned bs (m\<lparr>m_names := c\<rparr>) d = blocks_owned bs m d"
  "irps_owned iq (m\<lparr>m_lock := lk\<rparr>) d = irps_owned iq m d"
  "irps_owned iq (m\<lparr>m_live := f\<rparr>) d = irps_owned iq m d"
  "irps_owned iq (m\<lparr>m_names := c\<rparr>) d = irps_owned iq m d"
  by (simp_all add: regs_agree_def no_loans_def blocks_owned_def irps_owned_def)

section \<open>Steps on the owned state\<close>

text \<open>
  A step that only makes one call and leaves every global alone but \<open>DROP_COUNT\<close>, \<open>TRUNC_COUNT\<close>,
  \<open>OOM_COUNT\<close>, the heap and the contents of the IRPs (not their buffer lengths).
\<close>

definition same_globals :: "driver \<Rightarrow> driver \<Rightarrow> bool" where
  "same_globals d d' \<longleftrightarrow>
    QUEUE_BUF d' = QUEUE_BUF d \<and> QUEUE_HEAD d' = QUEUE_HEAD d \<and> QUEUE_TAIL d' = QUEUE_TAIL d \<and>
    QUEUE_LEN d' = QUEUE_LEN d \<and> PENDING_IRP d' = PENDING_IRP d \<and>
    CONTROL_DEVICE d' = CONTROL_DEVICE d \<and>
    PROCESS_CALLBACK_REGISTERED d' = PROCESS_CALLBACK_REGISTERED d \<and>
    IMAGE_CALLBACK_REGISTERED d' = IMAGE_CALLBACK_REGISTERED d \<and>
    REGISTRY_CALLBACK_REGISTERED d' = REGISTRY_CALLBACK_REGISTERED d \<and>
    REGISTRY_CALLBACK_COOKIE d' = REGISTRY_CALLBACK_COOKIE d \<and>
    THREAD_CALLBACK_REGISTERED d' = THREAD_CALLBACK_REGISTERED d \<and>
    OBJECT_CALLBACK_HANDLE d' = OBJECT_CALLBACK_HANDLE d \<and>
    (\<forall>i. OutputBufferLength (irps d' i) = OutputBufferLength (irps d i))"

lemma same_globalsD:
  assumes "same_globals d d'"
  shows "queue_list d' = queue_list d" "ring_ok d' = ring_ok d" "PENDING_IRP d' = PENDING_IRP d"
    "OutputBufferLength (irps d' i) = OutputBufferLength (irps d i)"
  using assms queue_list_frame [of d' d] ring_ok_frame [of d' d] by (auto simp: same_globals_def)

lemma same_globals_regs: "same_globals d d' \<Longrightarrow> regs_agree m d' = regs_agree m d"
  by (rule regs_agree_frame) (simp_all add: same_globals_def)

lemma same_globals_owned:
  assumes "same_globals d d'"
  shows "blocks_owned bs m d' = blocks_owned bs m d" "irps_owned iq m d' = irps_owned iq m d"
  using same_globalsD [OF assms] by (simp_all add: blocks_owned_def queue_blocks_def irps_owned_def)

lemma owns_same:
  assumes own: "owns lk bs iq d" and same: "same_globals d d'" and mon: "mon_of d' = mon_of d"
  shows "owns lk bs iq d'"
  using own mon
  by (cases "mon_of d") (simp_all add: owns_def same_globalsD(2) [OF same] same_globals_regs [OF same]
      same_globals_owned [OF same])

lemma same_globals_log_call [simp]: "same_globals d (log_call c d)"
  by (simp add: same_globals_def log_call_def)

text \<open>Calls that do not change what is owned.\<close>

lemma owns_call:
  assumes own: "owns lk bs iq d" and same: "same_globals d d'" and tr: "trace d' = trace d @ [c]"
    and ok: "\<And>m. mon_of d = Some m \<Longrightarrow> m_lock m = lk \<Longrightarrow> blocks_owned bs m d \<Longrightarrow> irps_owned iq m d \<Longrightarrow>
      mon_step c m = Some m"
  shows "owns lk bs iq d'"
proof -
  from own obtain m where m: "mon_of d = Some m" "m_lock m = lk" "blocks_owned bs m d" "irps_owned iq m d"
    by (rule ownsE)
  have "mon_of d' = Some m"
    using m(1) ok [OF m] by (simp add: mon_of_def tr mon_run_append)
  then show ?thesis using m(1) by (intro owns_same [OF own same]) simp
qed

lemma owns_acquire:
  assumes "owns None bs iq d"
  shows "owns (Some q) bs iq (log_call (KeAcquireSpinLockRaiseToDpc q) d)"
proof -
  from assms obtain m where m: "ring_ok d" "mon_of d = Some m" "m_lock m = None" "no_loans m"
    "regs_agree m d" "blocks_owned bs m d" "irps_owned iq m d"
    by (rule ownsE)
  let ?d = "log_call (KeAcquireSpinLockRaiseToDpc q) d"
  have same: "same_globals d ?d" by simp
  show ?thesis
    by (rule ownsI [where m = "m\<lparr>m_lock := Some q\<rparr>"])
      (use m in \<open>simp_all add: mon_simps same_globalsD(2) [OF same] same_globals_regs [OF same]
        same_globals_owned [OF same]\<close>)
qed

lemma owns_release:
  assumes "owns (Some q) bs iq d"
  shows "owns None bs iq (log_call (KeReleaseSpinLock q) d)"
proof -
  from assms obtain m where m: "ring_ok d" "mon_of d = Some m" "m_lock m = Some q" "no_loans m"
    "regs_agree m d" "blocks_owned bs m d" "irps_owned iq m d"
    by (rule ownsE)
  let ?d = "log_call (KeReleaseSpinLock q) d"
  have same: "same_globals d ?d" by simp
  show ?thesis
    by (rule ownsI [where m = "m\<lparr>m_lock := None\<rparr>"])
      (use m in \<open>simp_all add: mon_simps same_globalsD(2) [OF same] same_globals_regs [OF same]
        same_globals_owned [OF same]\<close>)
qed

lemma owns_free_pool:
  assumes "owns lk ((p, n) # bs) iq d"
  shows "owns lk bs iq (free_pool p d)"
proof -
  from assms obtain m where m: "ring_ok d" "mon_of d = Some m" "m_lock m = lk" "no_loans m"
    "regs_agree m d" "blocks_owned ((p, n) # bs) m d" "irps_owned iq m d"
    by (rule ownsE)
  let ?d = "free_pool p d" and ?m = "m\<lparr>m_live := (m_live m)(p := None)\<rparr>"
  have same: "same_globals d ?d" by (simp add: free_pool_def)
  have "blocks_owned bs ?m ?d"
    using m(6) same_globalsD(1) [OF same] by (rule blocks_owned_free) simp
  then show ?thesis
    by (intro ownsI [where m = ?m])
      (use m blocks_owned_live [OF m(6)] in \<open>simp_all add: mon_simps same_globalsD [OF same]
        same_globals_regs [OF same] same_globals_owned(2) [OF same]\<close>)
qed

text \<open>Filling a block in hand.\<close>

lemma owns_fills:
  assumes "owns lk ((p, n) # bs) iq d" "fills p n d d'"
  shows "owns lk ((p, n) # bs) iq d'"
proof -
  from assms(1) obtain m where m: "mon_of d = Some m" "blocks_owned ((p, n) # bs) m d"
    by (rule ownsE)
  note f = fillsD [OF assms(2)]
  have "mon_of d' = Some m" using m by (intro f(17)) (auto intro: blocks_owned_live)
  moreover have "same_globals d d'" by (simp add: same_globals_def f)
  ultimately show ?thesis using m by (intro owns_same [OF assms(1)]) simp_all
qed

section \<open>The queue and the parked IRP\<close>

lemma owns_push:
  assumes own: "owns (Some q) ((p, unat sz) # bs) iq d" and none: "PENDING_IRP d = null_ptr"
  shows "owns (Some q) bs iq (snd (queue_push_locked p sz d))"
proof -
  from own obtain m where m: "ring_ok d" "mon_of d = Some m" "m_lock m = Some q" "no_loans m"
    "regs_agree m d" "blocks_owned ((p, unat sz) # bs) m d" "irps_owned iq m d"
    by (rule ownsE)
  let ?d = "snd (queue_push_locked p sz d)" and ?h = "QUEUE_BUF d (QUEUE_HEAD d)"
  have regs: "regs_agree m' ?d" if "regs_agree m' d" for m'
    using that by (simp add: regs_agree_def frame_simps)
  have irps: "irps_owned iq m' ?d" if "m_irps m' = m_irps m" for m'
    using m(7) none by (simp add: irps_owned_def frame_simps that)
  show ?thesis
  proof (cases "QUEUE_LEN d = QUEUE_CAP")
    case False
    have "blocks_owned bs m ?d"
      using m(6) by (rule blocks_owned_enqueue) (simp_all add: push_queue_list [OF m(1)] False)
    then show ?thesis
      using m False regs irps by (intro ownsI [where m = m] push_ring_ok) (simp_all add: mon_simps)
  next
    case True
    define d1 where "d1 = d\<lparr>QUEUE_HEAD := (QUEUE_HEAD d + 1) mod QUEUE_CAP, QUEUE_LEN := QUEUE_LEN d - 1\<rparr>"
    have pos: "0 < QUEUE_LEN d" by (simp add: True)
    have tl: "queue_list d1 = tl (queue_list d)"
      unfolding d1_def by (rule queue_list_tl [OF pos])
    have q: "queue_list d = ?h # queue_list d1"
      using hd_queue_list [of d] m(1) pos length_queue_list [of d]
      by (cases "queue_list d") (auto simp: tl ring_ok_def)
    have own1: "blocks_owned (slot_block ?h # (p, unat sz) # bs) m d1"
      using m(6) q by (rule blocks_owned_dequeue) simp
    let ?m = "m\<lparr>m_live := (m_live m)(data ?h := None)\<rparr>"
    have "blocks_owned ((p, unat sz) # bs) ?m d1"
      using own1 unfolding slot_block_def by (rule blocks_owned_free) simp_all
    then have "blocks_owned bs ?m ?d"
      by (rule blocks_owned_enqueue) (simp_all add: push_queue_list [OF m(1)] True tl)
    moreover have "m_live m (data ?h) = Some (unat (slot_size ?h))"
      using own1 unfolding slot_block_def by (rule blocks_owned_live)
    ultimately show ?thesis
      using m True regs irps
      by (intro ownsI [where m = ?m] push_ring_ok) (simp_all add: mon_simps)
  qed
qed

lemma owns_pop_none:
  assumes own: "owns (Some q) bs iq d" and "fst (queue_pop_locked d) = None"
  shows "owns (Some q) bs iq (snd (queue_pop_locked d))" "queue_list d = []"
proof -
  have len: "QUEUE_LEN d = 0"
    using assms(2) by (simp add: queue_pop_locked_def log_call_def Let_def split: if_splits)
  then show e: "queue_list d = []" by (metis length_0_conv length_queue_list)
  show "owns (Some q) bs iq (snd (queue_pop_locked d))"
    using own by (simp add: pop_empty [OF e]) (rule owns_call, auto simp: log_call_def same_globals_def)
qed

lemma owns_pop_some:
  assumes own: "owns (Some q) bs iq d" and pop: "fst (queue_pop_locked d) = Some s"
  shows "owns (Some q) ((data s, unat (slot_size s)) # bs) iq (snd (queue_pop_locked d))"
    "queue_list d = s # queue_list (snd (queue_pop_locked d))"
proof -
  from own obtain m where m: "ring_ok d" "mon_of d = Some m" "m_lock m = Some q" "no_loans m"
    "regs_agree m d" "blocks_owned bs m d" "irps_owned iq m d"
    by (rule ownsE)
  let ?d = "snd (queue_pop_locked d)"
  show q: "queue_list d = s # queue_list ?d"
    using pop m(1) pop_Cons [of d] by (cases "queue_list d") (auto simp: pop_empty)
  have "blocks_owned (slot_block s # bs) m ?d"
    using m(6) q by (rule blocks_owned_dequeue) simp
  moreover have "irps_owned iq m ?d" using m(7) q by (simp add: irps_owned_def frame_simps)
  moreover have "regs_agree m ?d" using m(5) by (simp add: regs_agree_def frame_simps)
  ultimately show "owns (Some q) ((data s, unat (slot_size s)) # bs) iq ?d"
    using m by (intro ownsI [where m = m] pop_ring_ok) (simp_all add: mon_simps slot_block_def)
qed

lemma owns_take_pending:
  assumes own: "owns lk bs iq d" and i: "PENDING_IRP d = i" "i \<noteq> null_ptr"
  shows "owns lk bs (i # iq) (d\<lparr>PENDING_IRP := null_ptr\<rparr>)"
proof -
  from own obtain m where m: "ring_ok d" "mon_of d = Some m" "m_lock m = lk" "no_loans m"
    "regs_agree m d" "blocks_owned bs m d" "irps_owned iq m d"
    by (rule ownsE)
  let ?d = "d\<lparr>PENDING_IRP := null_ptr\<rparr>"
  have q: "queue_list ?d = queue_list d" by (simp add: queue_list_def)
  have "ring_ok ?d" using m(1) by (simp add: ring_ok_def)
  moreover have "regs_agree m ?d" using m(5) by (simp add: regs_agree_def)
  moreover have "blocks_owned bs m ?d" using m(6) by (simp add: blocks_owned_def queue_blocks_def q)
  moreover have "irps_owned (i # iq) m ?d" using m(7) i by (auto simp: irps_owned_def)
  ultimately show ?thesis using m by (intro ownsI [where m = m]) simp_all
qed

lemma owns_park:
  assumes own: "owns lk bs (i # iq) d" and none: "PENDING_IRP d = null_ptr" and e: "queue_list d = []"
  shows "owns lk bs iq (d\<lparr>PENDING_IRP := i\<rparr>)"
proof -
  from own obtain m where m: "ring_ok d" "mon_of d = Some m" "m_lock m = lk" "no_loans m"
    "regs_agree m d" "blocks_owned bs m d" "irps_owned (i # iq) m d"
    by (rule ownsE)
  let ?d = "d\<lparr>PENDING_IRP := i\<rparr>"
  have q: "queue_list ?d = queue_list d" by (simp add: queue_list_def)
  have "ring_ok ?d" using m(1) by (simp add: ring_ok_def)
  moreover have "regs_agree m ?d" using m(5) by (simp add: regs_agree_def)
  moreover have "blocks_owned bs m ?d" using m(6) by (simp add: blocks_owned_def queue_blocks_def q)
  moreover have "irps_owned iq m ?d" using m(7) none e q by (auto simp: irps_owned_def)
  ultimately show ?thesis using m by (intro ownsI [where m = m]) simp_all
qed

section \<open>IRPs in hand\<close>

text \<open>An IRP the driver may touch: in hand, or parked.\<close>

definition touchable :: "ptr \<Rightarrow> ptr list \<Rightarrow> driver \<Rightarrow> bool" where
  "touchable i iq d \<longleftrightarrow> i \<in> set iq \<or> i = PENDING_IRP d \<and> i \<noteq> null_ptr"

lemma touchable_hd [simp]: "touchable i (i # iq) d"
  by (simp add: touchable_def)

lemma touchable_live:
  "irps_owned iq m d \<Longrightarrow> touchable i iq d \<Longrightarrow>
   \<exists>n. m_irps m i = Some n \<and> unat (OutputBufferLength (irps d i)) \<le> n"
  unfolding irps_owned_def touchable_def by (metis option.exhaust)

lemma owns_irp_access:
  assumes "owns lk bs iq d" "touchable i iq d"
    "same_globals d d'" "trace d' = trace d @ [IrpAccess i]"
  shows "owns lk bs iq d'"
  using assms by (rule_tac owns_call) (auto dest: touchable_live)

lemma same_globals_irp_update:
  "OutputBufferLength r = OutputBufferLength (irps d i) \<Longrightarrow>
   same_globals d (d\<lparr>irps := (irps d)(i := r), trace := t\<rparr>)"
  by (simp add: same_globals_def)

lemma owns_mark_irp_pending:
  assumes "owns lk bs iq d" "touchable i iq d"
  shows "owns lk bs iq (mark_irp_pending i d)"
  using assms
  by (rule owns_irp_access) (simp_all add: mark_irp_pending_def current_stack_location_def
      log_call_def same_globals_def)

lemma owns_complete_irp:
  assumes own: "owns None bs (i # iq) d"
  shows "owns None bs iq (snd (complete_irp i status info d))"
proof -
  let ?r = "(irps d i)\<lparr>Status := status, Information := info\<rparr>"
  let ?d1 = "log_call (IrpAccess i) (d\<lparr>irps := (irps d)(i := ?r)\<rparr>)"
  have "owns None bs (i # iq) ?d1"
    using own by (rule owns_irp_access) (simp_all add: log_call_def same_globals_def)
  then obtain m where m: "ring_ok ?d1" "mon_of ?d1 = Some m" "m_lock m = None" "no_loans m"
    "regs_agree m ?d1" "blocks_owned bs m ?d1" "irps_owned (i # iq) m ?d1"
    by (rule ownsE)
  let ?d = "log_call (IofCompleteRequest i ?r) ?d1" and ?m = "m\<lparr>m_irps := (m_irps m)(i := None)\<rparr>"
  have same: "same_globals ?d1 ?d" by simp
  obtain n where "m_irps m i = Some n" using touchable_live [OF m(7) touchable_hd] by blast
  moreover have "irps_owned iq ?m ?d1" using m(7) by (auto simp: irps_owned_def)
  ultimately have "owns None bs iq ?d"
    by (intro ownsI [where m = ?m])
      (use m in \<open>simp_all add: mon_of_log_call [of _ ?d1] same_globalsD [OF same]
        same_globals_regs [OF same] same_globals_owned [OF same]\<close>)
  moreover have "snd (complete_irp i status info d) = ?d"
    by (simp add: complete_irp_def Let_def log_call_def)
  ultimately show ?thesis by simp
qed

lemma owns_copy_to_system_buffer:
  assumes own: "owns lk ((p, n) # bs) (i # iq) d" and le: "n \<le> unat (OutputBufferLength (irps d i))"
  shows "owns lk ((p, n) # bs) (i # iq) (copy_to_system_buffer i p n d)"
proof -
  let ?b = "log_call (IrpAccess i) d"
  let ?c = "log_call (ReadMem p 0 n) ?b"
  have b: "owns lk ((p, n) # bs) (i # iq) ?b"
    using own by (rule owns_irp_access) (simp_all add: log_call_def same_globals_def)
  then have c: "owns lk ((p, n) # bs) (i # iq) ?c"
    by (rule owns_call) (auto simp: log_call_def same_globals_def dest: blocks_owned_live)
  have le': "n \<le> unat (OutputBufferLength (irps ?c i))" using le by (simp add: log_call_def)
  have "mon_step (WriteSystemBuffer i n) m = Some m" if "irps_owned (i # iq) m ?c" for m
    using touchable_live [OF that touchable_hd] le' by auto
  with c show ?thesis
    by (rule_tac owns_call [where d = ?c]) (auto simp: copy_to_system_buffer_def Let_def log_call_def
        same_globals_def)
qed

lemma owns_bump_drop: "owns lk bs iq d \<Longrightarrow> owns lk bs iq (bump_drop d)"
  by (rule owns_same) (simp_all add: bump_drop_def same_globals_def)

text \<open>The two ends of an event that met a request: it did not fit, or it was copied.\<close>

lemma owns_discard:
  assumes "owns None ((p, n) # bs) (i # iq) d"
  shows "owns None bs iq (snd (complete_irp i status info (bump_drop (free_pool p d))))"
  using assms by (intro owns_complete_irp owns_bump_drop owns_free_pool)

lemma owns_deliver:
  assumes "owns None ((p, unat n) # bs) (i # iq) d" "n \<le> OutputBufferLength (irps d i)"
  shows "owns None bs iq (snd (complete_irp i status info (free_pool p (copy_to_system_buffer i p (unat n) d))))"
  using assms owns_copy_to_system_buffer [of None p "unat n" bs i iq d]
  by (intro owns_complete_irp owns_free_pool) (simp add: word_le_nat_alt)

text \<open>An IRP arrives from the I/O manager, its buffer at least as long as it says.\<close>

lemma owns_irp_arrive:
  assumes own: "owns None bs iq d" and i: "i \<noteq> null_ptr" "i \<notin> set iq" "i \<noteq> PENDING_IRP d"
    and r: "unat (OutputBufferLength r) \<le> len"
  shows "owns None bs (i # iq) (log_call (IrpArrive i len) (d\<lparr>irps := (irps d)(i := r)\<rparr>))"
proof -
  from own obtain m where m: "ring_ok d" "mon_of d = Some m" "m_lock m = None" "no_loans m"
    "regs_agree m d" "blocks_owned bs m d" "irps_owned iq m d"
    by (rule ownsE)
  let ?d = "log_call (IrpArrive i len) (d\<lparr>irps := (irps d)(i := r)\<rparr>)"
  let ?m = "m\<lparr>m_irps := (m_irps m)(i := Some len)\<rparr>"
  have q: "queue_list ?d = queue_list d" by (simp add: queue_list_def log_call_def)
  have "m_irps m i = None" using m(7) i unfolding irps_owned_def by blast
  then have "mon_of ?d = Some ?m" using m i by (simp add: mon_simps)
  moreover have "ring_ok ?d" using m(1) by (simp add: ring_ok_def log_call_def)
  moreover have "regs_agree ?m ?d" using m(5) by (simp add: regs_agree_def log_call_def)
  moreover have "blocks_owned bs ?m ?d" using m(6) by (simp add: blocks_owned_def queue_blocks_def q)
  moreover have "irps_owned (i # iq) ?m ?d"
    using m(7) i r q by (auto simp: irps_owned_def log_call_def)
  ultimately show ?thesis using m by (intro ownsI [where m = ?m]) simp_all
qed

end
