(* ===== verification/Edr_Submit.thy ===== *)
theory Edr_Submit
  imports Edr_Ownership
begin

text \<open>
  The producer side of the queue (\<open>src/src/queue/submit.rs\<close>): \<open>alloc_event\<close> and the three paths of
  \<open>submit_event\<close>. Each path is first put in closed form (the state it leads to and the calls it
  makes), and ownership is then checked on the closed form.
\<close>

section \<open>alloc\_event\<close>

definition OOM_LOG_EVERY :: u32 where "OOM_LOG_EVERY = 256"

text \<open>
  In \<open>OOM_COUNT.fetch_add(1) + 1\<close> the atomic addition wraps; the plain \<open>u32\<close> addition after it wraps too in a
  build without overflow checks, and panics in a build with them when the old value was \<open>u32::MAX\<close>, that
  is when the sum is 0. A panic does not return. The null pointer of that branch is never looked at: the
  routines that call \<open>alloc_event\<close> do nothing more when they get one, and as threads they stop
  (\<open>Edr_Threads\<close>).
\<close>

definition oom_panics :: "kernel \<Rightarrow> driver \<Rightarrow> bool" where
  "oom_panics K d \<longleftrightarrow> overflow_checks K \<and> OOM_COUNT d + 1 = 0"

definition alloc_event :: "kernel \<Rightarrow> u32 \<Rightarrow> driver \<Rightarrow> ptr \<times> driver" where
  "alloc_event K sz d =
    (let p = ret_ExAllocatePool2 K (trace d) POOL_FLAG_NON_PAGED (ucast sz) POOL_TAG;
         contents = pool_contents K (trace d);
         d = log_call (ExAllocatePool2 POOL_FLAG_NON_PAGED (ucast sz) POOL_TAG p) d
     in if p = null_ptr then
          let d = bump_drop d;
              panics = oom_panics K d;
              n = OOM_COUNT d + 1;
              d = d\<lparr>OOM_COUNT := OOM_COUNT d + 1\<rparr>;
              d = (if panics then log_call OverflowPanic d
                   else if n mod OOM_LOG_EVERY = 0 then log_call (DbgPrint ''[WazabiEDR] alloc_event OOM'') d
                   else d)
          in (p, d)
        else (p, d\<lparr>heap := (heap d)(p := contents)\<rparr>))"

section \<open>submit\_event\<close>

definition submit_event :: "kernel \<Rightarrow> ptr \<Rightarrow> u32 \<Rightarrow> driver \<Rightarrow> driver" where
  "submit_event K p sz d =
    (let (guard, d) = SpinLockGuard_acquire K d;
         (pending, d) = take_pending d
     in if pending \<noteq> null_ptr then
          let (stack, d) = current_stack_location pending d;
              outlen = OutputBufferLength stack
          in if sz \<le> outlen then
               let d = copy_to_system_buffer pending p (unat sz) d;
                   d = SpinLockGuard_drop guard d;
                   d = free_pool p d;
                   (_, d) = complete_irp pending STATUS_SUCCESS (ucast sz) d
               in d
             else
               let d = SpinLockGuard_drop guard d;
                   d = free_pool p d;
                   d = bump_drop d;
                   (_, d) = complete_irp pending STATUS_BUFFER_TOO_SMALL (ucast sz) d
               in d
        else
          let (_, d) = queue_push_locked p sz d
          in SpinLockGuard_drop guard d)"

text \<open>The IRP as it is handed back on path 1.\<close>

definition delivered_irp :: "block \<Rightarrow> u32 \<Rightarrow> irp \<Rightarrow> irp" where
  "delivered_irp b sz r =
    r\<lparr>SystemBuffer := write_at 0 (read_at 0 (unat sz) b) (SystemBuffer r),
      Status := STATUS_SUCCESS, Information := ucast sz\<rparr>"

definition rejected_irp :: "u32 \<Rightarrow> u64 \<Rightarrow> irp \<Rightarrow> irp" where
  "rejected_irp status info r = r\<lparr>Status := status, Information := info\<rparr>"

lemma submit_deliver:
  assumes "PENDING_IRP d = i" "i \<noteq> null_ptr" "sz \<le> OutputBufferLength (irps d i)"
    and "q = ret_KeAcquireSpinLockRaiseToDpc K (trace d)"
    and "r = delivered_irp (heap d p) sz (irps d i)"
  shows "submit_event K p sz d =
    d\<lparr>PENDING_IRP := null_ptr, irps := (irps d)(i := r),
      trace := trace d @
        [KeAcquireSpinLockRaiseToDpc q, IrpAccess i, IrpAccess i, ReadMem p 0 (unat sz),
         WriteSystemBuffer i (unat sz), KeReleaseSpinLock q, ExFreePool p, IrpAccess i,
         IofCompleteRequest i r]\<rparr>"
  using assms
  by (simp add: submit_event_def SpinLockGuard_acquire_def SpinLockGuard_drop_def take_pending_def
      irp_op_defs free_pool_def log_call_def Let_def delivered_irp_def)

lemma submit_too_small:
  assumes "PENDING_IRP d = i" "i \<noteq> null_ptr" "\<not> sz \<le> OutputBufferLength (irps d i)"
    and "q = ret_KeAcquireSpinLockRaiseToDpc K (trace d)"
    and "r = rejected_irp STATUS_BUFFER_TOO_SMALL (ucast sz) (irps d i)"
  shows "submit_event K p sz d =
    d\<lparr>DROP_COUNT := DROP_COUNT d + 1, PENDING_IRP := null_ptr, irps := (irps d)(i := r),
      trace := trace d @
        [KeAcquireSpinLockRaiseToDpc q, IrpAccess i, KeReleaseSpinLock q, ExFreePool p, IrpAccess i,
         IofCompleteRequest i r]\<rparr>"
  using assms
  by (simp add: submit_event_def SpinLockGuard_acquire_def SpinLockGuard_drop_def take_pending_def
      irp_op_defs free_pool_def bump_drop_def log_call_def Let_def rejected_irp_def)

lemma take_pending_none: "PENDING_IRP d = null_ptr \<Longrightarrow> take_pending d = (null_ptr, d)"
  by (simp add: take_pending_def)

lemma submit_enqueue:
  assumes "PENDING_IRP d = null_ptr" and "q = ret_KeAcquireSpinLockRaiseToDpc K (trace d)"
  shows "submit_event K p sz d =
    log_call (KeReleaseSpinLock q)
      (snd (queue_push_locked p sz (log_call (KeAcquireSpinLockRaiseToDpc q) d)))"
proof -
  let ?a = "log_call (KeAcquireSpinLockRaiseToDpc q) d"
  have "PENDING_IRP ?a = null_ptr" using assms(1) by (simp add: log_call_def)
  then show ?thesis
    using assms(2) by (simp add: submit_event_def SpinLockGuard_acquire_def SpinLockGuard_drop_def
        take_pending_none split_beta Let_def)
qed

section \<open>Ownership through an allocation and a submission\<close>

lemma same_globals_alloc: "same_globals d (snd (alloc_event K sz d))"
  by (simp add: alloc_event_def Let_def log_call_def bump_drop_def same_globals_def)

text \<open>What a failed allocation leaves in the trace.\<close>

definition oom_calls :: "kernel \<Rightarrow> driver \<Rightarrow> kcall list" where
  "oom_calls K d =
    (if oom_panics K d then [OverflowPanic]
     else if (OOM_COUNT d + 1) mod OOM_LOG_EVERY = 0 then [DbgPrint ''[WazabiEDR] alloc_event OOM'']
     else [])"

lemma trace_alloc_event:
  "trace (snd (alloc_event K sz d)) =
    trace d @ ExAllocatePool2 POOL_FLAG_NON_PAGED (ucast sz) POOL_TAG (fst (alloc_event K sz d)) #
      (if fst (alloc_event K sz d) = null_ptr then oom_calls K d else [])"
  by (simp add: alloc_event_def Let_def log_call_def bump_drop_def oom_calls_def oom_panics_def)

lemma oom_calls_cases: "oom_calls K d \<in> {[], [OverflowPanic], [DbgPrint ''[WazabiEDR] alloc_event OOM'']}"
  by (simp add: oom_calls_def)

lemma mon_run_oom_calls [simp]: "mon_run (oom_calls K d) m = Some m"
  by (simp add: oom_calls_def)

lemma alloc_event_null_owns:
  assumes own: "owns None bs iq d" and null: "fst (alloc_event K sz d) = null_ptr"
  shows "owns None bs iq (snd (alloc_event K sz d))"
proof -
  have "mon_of (snd (alloc_event K sz d)) = mon_of d"
    using null by (cases "mon_of d") (auto simp: mon_of_def trace_alloc_event mon_run_append)
  with own same_globals_alloc show ?thesis by (rule owns_same)
qed

lemma alloc_event_fresh:
  assumes "pool_fresh K" "mon_of d = Some m" "fst (alloc_event K sz d) \<noteq> null_ptr"
  shows "m_live m (fst (alloc_event K sz d)) = None"
proof -
  have eq: "fst (alloc_event K sz d) = ret_ExAllocatePool2 K (trace d) POOL_FLAG_NON_PAGED (ucast sz) POOL_TAG"
    by (simp add: alloc_event_def Let_def)
  have "mon_run (trace d) mon0 = Some m" using assms(2) by (simp only: mon_of_def)
  with assms(1,3) show ?thesis unfolding pool_fresh_def Let_def eq by blast
qed

lemma alloc_event_owns:
  assumes own: "owns None bs iq d" and K: "pool_fresh K"
    and p: "fst (alloc_event K sz d) = p" "p \<noteq> null_ptr"
  shows "owns None ((p, unat sz) # bs) iq (snd (alloc_event K sz d))"
proof -
  from own obtain m where m: "ring_ok d" "mon_of d = Some m" "m_lock m = None" "no_loans m"
    "regs_agree m d" "blocks_owned bs m d" "irps_owned iq m d"
    by (rule ownsE)
  let ?d = "snd (alloc_event K sz d)" and ?m = "m\<lparr>m_live := (m_live m)(p := Some (unat sz))\<rparr>"
  note same = same_globals_alloc [of d K sz]
  have fresh: "m_live m p = None" using alloc_event_fresh [OF K m(2), of sz] p by simp
  have "blocks_owned ((p, unat sz) # bs) ?m ?d"
    using m(6) p(2) fresh same_globalsD(1) [OF same] by (rule blocks_owned_alloc) simp
  moreover have "mon_of ?d = Some ?m"
    using p m(2) fresh by (subst mon_of_def) (simp add: trace_alloc_event mon_run_append mon_of_def)
  ultimately show ?thesis
    by (intro ownsI [where m = ?m])
      (use m in \<open>simp_all add: same_globalsD [OF same] same_globals_regs [OF same]
        same_globals_owned(2) [OF same]\<close>)
qed

lemma submit_answer_owns:
  assumes a: "owns (Some q) ((p, unat sz) # bs) iq a" and i: "i = PENDING_IRP d" "i \<noteq> null_ptr"
    and q: "q = ret_KeAcquireSpinLockRaiseToDpc K (trace d)" and a_def: "a = log_call (KeAcquireSpinLockRaiseToDpc q) d"
  shows "owns None bs iq (submit_event K p sz d)"
proof -
  define c where "c = log_call (IrpAccess i) (a\<lparr>PENDING_IRP := null_ptr\<rparr>)"
  have "owns (Some q) ((p, unat sz) # bs) (i # iq) (a\<lparr>PENDING_IRP := null_ptr\<rparr>)"
    using a by (rule owns_take_pending) (use i in \<open>simp_all add: a_def log_call_def\<close>)
  then have c: "owns (Some q) ((p, unat sz) # bs) (i # iq) c"
    unfolding c_def by (rule owns_irp_access) (simp_all add: log_call_def same_globals_def)
  note defs = submit_event_def SpinLockGuard_acquire_def SpinLockGuard_drop_def take_pending_def
    current_stack_location_def Let_def split_beta log_call_def c_def a_def i q
  show ?thesis
  proof (cases "sz \<le> OutputBufferLength (irps d i)")
    case True
    then have "owns (Some q) ((p, unat sz) # bs) (i # iq) (copy_to_system_buffer i p (unat sz) c)"
      using c by (intro owns_copy_to_system_buffer) (simp_all add: c_def a_def log_call_def word_le_nat_alt)
    then have "owns None bs iq (snd (complete_irp i STATUS_SUCCESS (ucast sz)
        (free_pool p (log_call (KeReleaseSpinLock q) (copy_to_system_buffer i p (unat sz) c)))))"
      by (intro owns_complete_irp owns_free_pool owns_release)
    with True i(2) show ?thesis by (simp add: defs)
  next
    case False
    have "owns None bs iq (snd (complete_irp i STATUS_BUFFER_TOO_SMALL (ucast sz)
        (bump_drop (free_pool p (log_call (KeReleaseSpinLock q) c)))))"
      using owns_release [OF c] by (rule owns_discard)
    with False i(2) show ?thesis by (simp add: defs)
  qed
qed

lemma submit_event_owns:
  assumes own: "owns None ((p, unat sz) # bs) iq d"
  shows "owns None bs iq (submit_event K p sz d)"
proof -
  define q where "q = ret_KeAcquireSpinLockRaiseToDpc K (trace d)"
  define a where "a = log_call (KeAcquireSpinLockRaiseToDpc q) d"
  have a: "owns (Some q) ((p, unat sz) # bs) iq a" unfolding a_def by (rule owns_acquire [OF own])
  have pend: "PENDING_IRP a = PENDING_IRP d" by (simp add: a_def log_call_def)
  show ?thesis
  proof (cases "PENDING_IRP d = null_ptr")
    case True
    then have "owns (Some q) bs iq (snd (queue_push_locked p sz a))"
      using a pend by (intro owns_push) simp_all
    then show ?thesis
      by (simp add: submit_enqueue [OF True q_def] owns_release flip: a_def)
  next
    case False
    show ?thesis by (rule submit_answer_owns [OF a refl False q_def a_def])
  qed
qed

end
