(* ===== verification/Edr_Dispatch.thy ===== *)
theory Edr_Dispatch
  imports Edr_Submit
begin

text \<open>
  The major-function dispatch routines (\<open>src/src/ipc/dispatch.rs\<close>). Each takes an IRP the I/O manager
  has just handed over and returns the status it hands back.
\<close>

section \<open>The routines\<close>

definition dispatch_create_close :: "ptr \<Rightarrow> driver \<Rightarrow> u32 \<times> driver" where
  "dispatch_create_close i d = complete_irp i STATUS_SUCCESS 0 d"

definition dispatch_cleanup :: "ptr \<Rightarrow> driver \<Rightarrow> u32 \<times> driver" where
  "dispatch_cleanup i d =
    (let (pending, d) = take_pending d;
         d = (if pending \<noteq> null_ptr then snd (complete_irp pending STATUS_CANCELLED 0 d) else d)
     in complete_irp i STATUS_SUCCESS 0 d)"

text \<open>\<open>PENDING_IRP.compare_exchange(null, irp)\<close>: whether it stored, and the new state.\<close>

definition park_irp :: "ptr \<Rightarrow> driver \<Rightarrow> bool \<times> driver" where
  "park_irp i d =
    (if PENDING_IRP d = null_ptr then (True, d\<lparr>PENDING_IRP := i\<rparr>) else (False, d))"

definition dispatch_device_control :: "kernel \<Rightarrow> ptr \<Rightarrow> driver \<Rightarrow> u32 \<times> driver" where
  "dispatch_device_control K i d =
    (let (stack, d) = current_stack_location i d;
         ioctl = IoControlCode stack;
         outlen = OutputBufferLength stack
     in if ioctl \<noteq> IOCTL_WEDR_GET_EVENT then complete_irp i STATUS_INVALID_DEVICE_REQUEST 0 d
        else
          let (guard, d) = SpinLockGuard_acquire K d;
              (popped, d) = queue_pop_locked d
          in case popped of
               Some slot \<Rightarrow>
                 let d = SpinLockGuard_drop guard d
                 in if outlen < slot_size slot then
                      let d = free_pool (data slot) d;
                          d = bump_drop d
                      in complete_irp i STATUS_BUFFER_TOO_SMALL (ucast (slot_size slot)) d
                    else
                      let d = copy_to_system_buffer i (data slot) (unat (slot_size slot)) d;
                          d = free_pool (data slot) d
                      in complete_irp i STATUS_SUCCESS (ucast (slot_size slot)) d
             | None \<Rightarrow>
                 let (parked, d) = park_irp i d;
                     d = SpinLockGuard_drop guard d
                 in if \<not> parked then complete_irp i STATUS_UNSUCCESSFUL 0 d
                    else (STATUS_PENDING, mark_irp_pending i d))"

definition dispatch_invalid :: "ptr \<Rightarrow> driver \<Rightarrow> u32 \<times> driver" where
  "dispatch_invalid i d = complete_irp i STATUS_INVALID_DEVICE_REQUEST 0 d"

section \<open>Ownership through a dispatch\<close>

lemma dispatch_create_close_owns:
  "owns None bs (i # iq) d \<Longrightarrow> owns None bs iq (snd (dispatch_create_close i d))"
  by (simp add: dispatch_create_close_def owns_complete_irp)

lemma dispatch_invalid_owns:
  "owns None bs (i # iq) d \<Longrightarrow> owns None bs iq (snd (dispatch_invalid i d))"
  by (simp add: dispatch_invalid_def owns_complete_irp)

lemma cancel_pending_owns:
  assumes "owns None bs iq d" "PENDING_IRP d = i" "i \<noteq> null_ptr"
  shows "owns None bs iq (snd (complete_irp i STATUS_CANCELLED 0 (d\<lparr>PENDING_IRP := null_ptr\<rparr>)))"
  using owns_take_pending [OF assms] by (rule owns_complete_irp)

lemma dispatch_cleanup_owns:
  assumes "owns None bs (i # iq) d"
  shows "owns None bs iq (snd (dispatch_cleanup i d))"
proof (cases "PENDING_IRP d = null_ptr")
  case True
  with assms show ?thesis by (simp add: dispatch_cleanup_def take_pending_none owns_complete_irp)
next
  case False
  with assms cancel_pending_owns [of bs "i # iq" d] show ?thesis
    by (simp add: dispatch_cleanup_def take_pending_def owns_complete_irp)
qed

text \<open>The end of a request that found none.\<close>

lemma owns_park_or_refuse:
  assumes p: "owns (Some q) bs (i # iq) d" "queue_list d = []"
  shows "PENDING_IRP d = null_ptr \<Longrightarrow>
      owns None bs iq (mark_irp_pending i (log_call (KeReleaseSpinLock q) (d\<lparr>PENDING_IRP := i\<rparr>)))"
    and "owns None bs iq (snd (complete_irp i status info (log_call (KeReleaseSpinLock q) d)))"
proof -
  let ?k = "log_call (KeReleaseSpinLock q) (d\<lparr>PENDING_IRP := i\<rparr>)"
  show "owns None bs iq (mark_irp_pending i ?k)" if "PENDING_IRP d = null_ptr"
  proof (rule owns_mark_irp_pending)
    show "owns None bs iq ?k" using owns_park [OF p(1) that p(2)] by (rule owns_release)
    have "i \<noteq> null_ptr" using p(1) by (auto simp: owns_def irps_owned_def split: option.splits)
    then show "touchable i iq ?k" by (simp add: touchable_def log_call_def)
  qed
  show "owns None bs iq (snd (complete_irp i status info (log_call (KeReleaseSpinLock q) d)))"
    using p(1) by (intro owns_complete_irp owns_release)
qed

lemma dispatch_device_control_owns:
  assumes own: "owns None bs (i # iq) d"
  shows "owns None bs iq (snd (dispatch_device_control K i d))"
proof -
  define c where "c = log_call (IrpAccess i) d"
  define q where "q = ret_KeAcquireSpinLockRaiseToDpc K (trace c)"
  define a where "a = log_call (KeAcquireSpinLockRaiseToDpc q) c"
  define p where "p = snd (queue_pop_locked a)"
  define r where "r = log_call (KeReleaseSpinLock q) p"
  note defs = dispatch_device_control_def SpinLockGuard_acquire_def SpinLockGuard_drop_def
    current_stack_location_def Let_def split_beta c_def q_def a_def p_def r_def
  have c: "owns None bs (i # iq) c"
    unfolding c_def using own by (rule owns_irp_access) (simp_all add: log_call_def same_globals_def)
  have a: "owns (Some q) bs (i # iq) a" unfolding a_def by (rule owns_acquire [OF c])
  have irps: "irps r = irps d" by (simp add: r_def p_def a_def c_def log_call_def frame_simps)
  consider (other) "IoControlCode (irps d i) \<noteq> IOCTL_WEDR_GET_EVENT"
    | (hit) slot where "IoControlCode (irps d i) = IOCTL_WEDR_GET_EVENT" "fst (queue_pop_locked a) = Some slot"
    | (miss) "IoControlCode (irps d i) = IOCTL_WEDR_GET_EVENT" "fst (queue_pop_locked a) = None"
    by (cases "fst (queue_pop_locked a)") auto
  then show ?thesis
  proof cases
    case other
    then show ?thesis using owns_complete_irp [OF c] by (simp add: defs)
  next
    case (hit slot)
    have "owns None ((data slot, unat (slot_size slot)) # bs) (i # iq) r"
      unfolding r_def p_def using owns_pop_some(1) [OF a hit(2)] by (rule owns_release)
    from owns_discard [OF this] owns_deliver [OF this] hit irps show ?thesis
      by (cases "OutputBufferLength (irps d i) < slot_size slot") (simp_all add: defs not_less)
  next
    case miss
    note pop = owns_pop_none [OF a miss(2)]
    have "queue_list p = []"
      using pop(2) queue_list_frame [of "log_call QueueAccess a" a] by (simp add: p_def pop_empty log_call_def)
    from owns_park_or_refuse [OF pop(1) [folded p_def] this] miss show ?thesis
      by (cases "PENDING_IRP p = null_ptr") (simp_all add: defs park_irp_def)
  qed
qed

end
