(* ===== verification/Edr_Channel.thy ===== *)
theory Edr_Channel
  imports Edr_Dispatch "HOL-Library.Sublist"
begin

text \<open>
  What the queue, the parked IRP and the dispatch routines promise together, as an abstract machine:
  a channel that holds byte strings in order, at most one waiting request and a loss counter. The
  concrete operations are then shown to simulate it (\<open>submit_refines\<close>, \<open>get_refines\<close>,
  \<open>cleanup_refines\<close>), pointers, locks and ownership being gone on the abstract side. Order and loss accounting are proved on the channel.
\<close>

section \<open>The abstract channel\<close>

text \<open>A completed request: its identity, status, \<open>Information\<close> and the bytes it received.\<close>

type_synonym reply = "ptr \<times> u32 \<times> u64 \<times> u8 list"

record channel =
  ch_queue :: "u8 list list"
  ch_waiting :: "(ptr \<times> u32) option"
  ch_drops :: u32

definition chan_submit :: "u8 list \<Rightarrow> channel \<Rightarrow> channel \<times> reply list" where
  "chan_submit e c =
    (case ch_waiting c of
       Some (i, n) \<Rightarrow>
         if length e \<le> unat n
         then (c\<lparr>ch_waiting := None\<rparr>, [(i, STATUS_SUCCESS, of_nat (length e), e)])
         else (c\<lparr>ch_waiting := None, ch_drops := ch_drops c + 1\<rparr>,
               [(i, STATUS_BUFFER_TOO_SMALL, of_nat (length e), [])])
     | None \<Rightarrow>
         if length (ch_queue c) = QUEUE_CAP
         then (c\<lparr>ch_queue := tl (ch_queue c) @ [e], ch_drops := ch_drops c + 1\<rparr>, [])
         else (c\<lparr>ch_queue := ch_queue c @ [e]\<rparr>, []))"

definition chan_get :: "ptr \<Rightarrow> u32 \<Rightarrow> channel \<Rightarrow> channel \<times> reply list" where
  "chan_get i n c =
    (case ch_queue c of
       e # es \<Rightarrow>
         if unat n < length e
         then (c\<lparr>ch_queue := es, ch_drops := ch_drops c + 1\<rparr>,
               [(i, STATUS_BUFFER_TOO_SMALL, of_nat (length e), [])])
         else (c\<lparr>ch_queue := es\<rparr>, [(i, STATUS_SUCCESS, of_nat (length e), e)])
     | [] \<Rightarrow>
         if ch_waiting c = None then (c\<lparr>ch_waiting := Some (i, n)\<rparr>, [])
         else (c, [(i, STATUS_UNSUCCESSFUL, 0, [])]))"

definition chan_cleanup :: "ptr \<Rightarrow> channel \<Rightarrow> channel \<times> reply list" where
  "chan_cleanup i c =
    (c\<lparr>ch_waiting := None\<rparr>,
     (case ch_waiting c of None \<Rightarrow> [] | Some (j, n) \<Rightarrow> [(j, STATUS_CANCELLED, 0, [])]) @
       [(i, STATUS_SUCCESS, 0, [])])"

section \<open>The driver as a channel\<close>

definition slot_bytes :: "driver \<Rightarrow> slot \<Rightarrow> u8 list" where
  "slot_bytes d s = read_at 0 (unat (slot_size s)) (heap d (data s))"

definition chan_of :: "driver \<Rightarrow> channel" where
  "chan_of d =
    \<lparr>ch_queue = map (slot_bytes d) (queue_list d),
     ch_waiting =
       (if PENDING_IRP d = null_ptr then None
        else Some (PENDING_IRP d, OutputBufferLength (irps d (PENDING_IRP d)))),
     ch_drops = DROP_COUNT d\<rparr>"

text \<open>The I/O manager copies \<open>Information\<close> bytes of the buffer out when the request succeeded.\<close>

definition reply_of :: "ptr \<Rightarrow> irp \<Rightarrow> reply" where
  "reply_of i r =
    (i, Status r, Information r,
     if Status r = STATUS_SUCCESS then read_at 0 (unat (Information r)) (SystemBuffer r) else [])"

definition call_reply :: "kcall \<Rightarrow> reply list" where
  "call_reply c = (case c of IofCompleteRequest i r \<Rightarrow> [reply_of i r] | _ \<Rightarrow> [])"

definition replies :: "history \<Rightarrow> reply list" where
  "replies cs = concat (map call_reply cs)"

lemma replies_append [simp]: "replies (xs @ ys) = replies xs @ replies ys"
  by (simp add: replies_def)

lemma replies_Nil [simp]: "replies [] = []"
  by (simp add: replies_def)

lemma replies_Cons [simp]: "replies (c # cs) = call_reply c @ replies cs"
  by (simp add: replies_def)

section \<open>The simulation\<close>

lemma delivered_reply:
  "reply_of i (delivered_irp b sz r) =
    (i, STATUS_SUCCESS, ucast sz, read_at 0 (unat sz) b)"
  by (simp add: reply_of_def delivered_irp_def)

lemma rejected_reply:
  "status \<noteq> STATUS_SUCCESS \<Longrightarrow> reply_of i (rejected_irp status info r) = (i, status, info, [])"
  by (simp add: reply_of_def rejected_irp_def)

lemma slot_bytes_frame: "heap d' = heap d \<Longrightarrow> slot_bytes d' = slot_bytes d"
  by (rule ext) (simp add: slot_bytes_def)

lemma chan_of_frame:
  assumes "queue_list d' = queue_list d" "heap d' = heap d" "PENDING_IRP d' = PENDING_IRP d"
    "irps d' = irps d" "DROP_COUNT d' = DROP_COUNT d"
  shows "chan_of d' = chan_of d"
  using assms by (simp add: chan_of_def slot_bytes_frame [OF assms(2)])

lemma status_distinct [simp]:
  "STATUS_BUFFER_TOO_SMALL \<noteq> STATUS_SUCCESS" "STATUS_CANCELLED \<noteq> STATUS_SUCCESS"
  "STATUS_UNSUCCESSFUL \<noteq> STATUS_SUCCESS" "STATUS_INVALID_DEVICE_REQUEST \<noteq> STATUS_SUCCESS"
  "STATUS_PENDING \<noteq> STATUS_SUCCESS"
  by (simp_all add: status_defs)

lemma submit_enqueue_refines:
  assumes "ring_ok d" "PENDING_IRP d = null_ptr" and e_def: "e = read_at 0 (unat sz) (heap d p)"
  shows "chan_of (submit_event K p sz d) = fst (chan_submit e (chan_of d)) \<and>
    replies (trace (submit_event K p sz d)) = replies (trace d) @ snd (chan_submit e (chan_of d))"
proof -
  let ?d = "submit_event K p sz d"
  define q where "q = ret_KeAcquireSpinLockRaiseToDpc K (trace d)"
  define a where "a = log_call (KeAcquireSpinLockRaiseToDpc q) d"
  have a: "ring_ok a" "QUEUE_LEN a = QUEUE_LEN d" "trace a = trace d @ [KeAcquireSpinLockRaiseToDpc q]"
    "queue_list a = queue_list d"
    using assms(1) by (simp_all add: a_def ring_ok_def log_call_def)
  have d: "?d = log_call (KeReleaseSpinLock q) (snd (queue_push_locked p sz a))"
    by (simp add: submit_enqueue [OF assms(2) q_def] a_def)
  have heap: "heap ?d = heap d" by (simp add: d log_call_def frame_simps a_def)
  have q: "queue_list ?d = (if QUEUE_LEN d = QUEUE_CAP then tl (queue_list d) else queue_list d)
      @ [\<lparr>data = p, slot_size = sz\<rparr>]"
    by (simp add: d push_queue_list [OF a(1)] a)
  have drop: "DROP_COUNT ?d = DROP_COUNT d + (if QUEUE_LEN d = QUEUE_CAP then 1 else 0)" "PENDING_IRP ?d = null_ptr"
    using assms(2) by (simp_all add: d log_call_def frame_simps a_def)
  have tr: "replies (trace ?d) = replies (trace d)"
    by (simp add: d log_call_def trace_push a call_reply_def)
  show ?thesis
    using assms(2) by (simp add: chan_of_def q drop tr chan_submit_def slot_bytes_frame [OF heap]
        map_tl) (simp add: slot_bytes_def e_def)
qed

lemma submit_answer_refines:
  assumes "PENDING_IRP d \<noteq> null_ptr" and e_def: "e = read_at 0 (unat sz) (heap d p)"
  shows "chan_of (submit_event K p sz d) = fst (chan_submit e (chan_of d)) \<and>
    replies (trace (submit_event K p sz d)) = replies (trace d) @ snd (chan_submit e (chan_of d))"
proof (cases "sz \<le> OutputBufferLength (irps d (PENDING_IRP d))")
  case True
  then show ?thesis
    using assms(1) by (simp add: submit_deliver [OF refl assms(1) True refl refl] chan_of_def chan_submit_def
        slot_bytes_def call_reply_def delivered_reply word_le_nat_alt flip: e_def) (simp add: e_def)
next
  case False
  then show ?thesis
    using assms by (simp add: submit_too_small [OF refl assms(1) False refl refl] chan_of_def chan_submit_def
        slot_bytes_def call_reply_def rejected_reply word_le_nat_alt)
qed

lemma submit_refines:
  assumes "ring_ok d" "e = read_at 0 (unat sz) (heap d p)"
  shows "chan_of (submit_event K p sz d) = fst (chan_submit e (chan_of d))"
    and "replies (trace (submit_event K p sz d)) =
           replies (trace d) @ snd (chan_submit e (chan_of d))"
  using submit_enqueue_refines [OF assms(1) _ assms(2), of K] submit_answer_refines [OF _ assms(2), of K] by blast+

text \<open>A request before the queue is looked at: the stack location has been read and the lock is held.\<close>

definition get_locked :: "kernel \<Rightarrow> ptr \<Rightarrow> driver \<Rightarrow> driver" where
  "get_locked K i d = d\<lparr>trace := trace d @
    [IrpAccess i, KeAcquireSpinLockRaiseToDpc (ret_KeAcquireSpinLockRaiseToDpc K (trace d @ [IrpAccess i]))]\<rparr>"

lemma get_locked_fields [simp]:
  "queue_list (get_locked K i d) = queue_list d" "DROP_COUNT (get_locked K i d) = DROP_COUNT d"
  "PENDING_IRP (get_locked K i d) = PENDING_IRP d" "heap (get_locked K i d) = heap d" "irps (get_locked K i d) = irps d"
  "ring_ok (get_locked K i d) = ring_ok d" "replies (trace (get_locked K i d)) = replies (trace d)"
  by (simp_all add: get_locked_def ring_ok_def call_reply_def)

lemma get_locked_eq:
  "d\<lparr>trace := trace d @ [IrpAccess i,
     KeAcquireSpinLockRaiseToDpc (ret_KeAcquireSpinLockRaiseToDpc K (trace d @ [IrpAccess i]))]\<rparr> = get_locked K i d"
  by (simp add: get_locked_def)

lemmas get_request_defs = dispatch_device_control_def SpinLockGuard_acquire_def SpinLockGuard_drop_def Let_def
  split_beta irp_op_defs free_pool_def bump_drop_def log_call_def get_locked_eq

lemma get_empty_refines:
  assumes "i \<noteq> null_ptr" "i \<noteq> PENDING_IRP d" "IoControlCode (irps d i) = IOCTL_WEDR_GET_EVENT" "queue_list d = []"
    and n_def: "n = OutputBufferLength (irps d i)"
  shows "chan_of (snd (dispatch_device_control K i d)) = fst (chan_get i n (chan_of d)) \<and>
    replies (trace (snd (dispatch_device_control K i d))) = replies (trace d) @ snd (chan_get i n (chan_of d))"
proof -
  have "queue_pop_locked (get_locked K i d) = (None, log_call QueueAccess (get_locked K i d))"
    using assms(4) by (intro pop_empty) simp
  note defs = get_request_defs this park_irp_def chan_of_def chan_get_def call_reply_def
  show ?thesis
    using assms by (cases "PENDING_IRP d = null_ptr") (simp_all add: defs reply_of_def slot_bytes_def)
qed

lemma get_pop_refines:
  assumes ok: "ring_ok d" and i: "i \<noteq> null_ptr" "i \<noteq> PENDING_IRP d"
    and ioctl: "IoControlCode (irps d i) = IOCTL_WEDR_GET_EVENT" and Cons: "queue_list d = s # ss"
    and n_def: "n = OutputBufferLength (irps d i)"
  shows "chan_of (snd (dispatch_device_control K i d)) = fst (chan_get i n (chan_of d)) \<and>
    replies (trace (snd (dispatch_device_control K i d))) = replies (trace d) @ snd (chan_get i n (chan_of d))"
proof -
  define p where "p = snd (queue_pop_locked (get_locked K i d))"
  have pop: "queue_pop_locked (get_locked K i d) = (Some s, p)" and qp: "queue_list p = ss"
    using pop_Cons [of "get_locked K i d" s ss] ok Cons by (simp_all add: p_def prod_eq_iff)
  have p: "heap p = heap d" "irps p = irps d" "PENDING_IRP p = PENDING_IRP d" "DROP_COUNT p = DROP_COUNT d"
    "replies (trace p) = replies (trace d)"
    by (simp_all add: p_def frame_simps trace_pop call_reply_def)
  have hd: "ch_queue (chan_of d) = slot_bytes d s # map (slot_bytes d) ss" by (simp add: chan_of_def Cons)
  have len: "length (slot_bytes d s) = unat (slot_size s)" by (simp add: slot_bytes_def)
  show ?thesis
    using i len
    by (cases "n < slot_size s") (simp_all add: get_request_defs ioctl pop p chan_get_def hd word_less_nat_alt call_reply_def
        reply_of_def n_def, simp_all add: chan_of_def qp p slot_bytes_def)
qed

lemma get_refines:
  assumes "ring_ok d" "i \<noteq> null_ptr" "i \<noteq> PENDING_IRP d"
    and "IoControlCode (irps d i) = IOCTL_WEDR_GET_EVENT" "n = OutputBufferLength (irps d i)"
  shows "chan_of (snd (dispatch_device_control K i d)) = fst (chan_get i n (chan_of d))"
    and "replies (trace (snd (dispatch_device_control K i d))) =
           replies (trace d) @ snd (chan_get i n (chan_of d))"
  using get_empty_refines [OF assms(2-4) _ assms(5), of K] get_pop_refines [OF assms(1-4) _ assms(5), of _ _ K]
  by (cases "queue_list d"; blast)+

lemma cleanup_refines:
  assumes "i \<noteq> PENDING_IRP d"
  shows "chan_of (snd (dispatch_cleanup i d)) = fst (chan_cleanup i (chan_of d))"
    and "replies (trace (snd (dispatch_cleanup i d))) =
           replies (trace d) @ snd (chan_cleanup i (chan_of d))"
  using assms
  by (simp_all add: dispatch_cleanup_def take_pending_def complete_irp_def log_call_def Let_def
      chan_of_def chan_cleanup_def call_reply_def reply_of_def slot_bytes_def)

section \<open>Order and loss on the channel\<close>

text \<open>
  The operations the driver performs on the channel. \<open>Stamp\<close> is \<open>make_header\<close> reading the loss
  counter and resetting it; \<open>Lose\<close> is a failed allocation.
\<close>

datatype chan_op = Submit "u8 list" | Get ptr u32 | Cleanup ptr | Stamp | Lose | Refuse ptr u32

primrec chan_step :: "chan_op \<Rightarrow> channel \<Rightarrow> channel \<times> reply list" where
  "chan_step (Submit e) c = chan_submit e c"
| "chan_step (Get i n) c = chan_get i n c"
| "chan_step (Cleanup i) c = chan_cleanup i c"
| "chan_step Stamp c = (c\<lparr>ch_drops := 0\<rparr>, [])"
| "chan_step Lose c = (c\<lparr>ch_drops := ch_drops c + 1\<rparr>, [])"
| "chan_step (Refuse i status) c = (c, [(i, status, 0, [])])"

fun chan_run :: "chan_op list \<Rightarrow> channel \<Rightarrow> channel \<times> reply list" where
  "chan_run [] c = (c, [])"
| "chan_run (x # xs) c =
     (let (c', rs) = chan_step x c; (c'', rs') = chan_run xs c' in (c'', rs @ rs'))"

primrec submitted :: "chan_op \<Rightarrow> u8 list list" where
  "submitted (Submit e) = [e]"
| "submitted (Get i n) = []"
| "submitted (Cleanup i) = []"
| "submitted Stamp = []"
| "submitted Lose = []"
| "submitted (Refuse i status) = []"

text \<open>The events an agent received, in the order of the completions.\<close>

definition events_of :: "reply list \<Rightarrow> u8 list list" where
  "events_of rs = filter (\<lambda>e. e \<noteq> []) (map (\<lambda>(i, status, info, e). e) rs)"

lemma events_of_simps [simp]:
  "events_of [] = []"
  "events_of (rs @ rs') = events_of rs @ events_of rs'"
  "events_of ((i, status, info, e) # rs) = (if e = [] then [] else [e]) @ events_of rs"
  by (simp_all add: events_of_def)

definition chan_ok :: "channel \<Rightarrow> bool" where
  "chan_ok c \<longleftrightarrow> (ch_waiting c \<noteq> None \<longrightarrow> ch_queue c = []) \<and> length (ch_queue c) \<le> QUEUE_CAP"

lemma chan_step_ok: "chan_ok c \<Longrightarrow> chan_ok (fst (chan_step x c))"
  by (cases x) (auto simp: chan_ok_def chan_submit_def chan_get_def chan_cleanup_def Suc_le_eq
      split: option.splits list.splits)

lemma chan_run_append:
  "chan_run (xs @ ys) c =
    (let (c', rs) = chan_run xs c; (c'', rs') = chan_run ys c' in (c'', rs @ rs'))"
  by (induction xs arbitrary: c) (auto simp: split_beta Let_def)

lemma chan_run_ok: "chan_ok c \<Longrightarrow> chan_ok (fst (chan_run xs c))"
  by (induction xs arbitrary: c) (auto simp: split_beta Let_def chan_step_ok)

lemma subseq_tl_append: "subseq (tl xs @ ys) (xs @ ys)"
  by (cases xs) auto

text \<open>One step delivers at most the oldest event and reorders nothing.\<close>

lemma chan_step_order:
  assumes "chan_ok c"
  shows "subseq (events_of (snd (chan_step x c)) @ ch_queue (fst (chan_step x c)))
                (ch_queue c @ submitted x)"
proof (cases x)
  case (Submit e)
  with assms show ?thesis
    by (auto simp: chan_ok_def chan_submit_def subseq_tl_append split: option.splits)
next
  case (Get i n)
  then show ?thesis by (auto simp: chan_get_def split: list.splits)
next
  case (Cleanup i)
  then show ?thesis by (auto simp: chan_cleanup_def split: option.splits)
qed simp_all

lemma chan_run_order:
  "chan_ok c \<Longrightarrow>
   subseq (events_of (snd (chan_run xs c)) @ ch_queue (fst (chan_run xs c)))
          (ch_queue c @ concat (map submitted xs))"
proof (induction xs arbitrary: c)
  case Nil
  then show ?case by simp
next
  case (Cons x xs)
  let ?c = "fst (chan_step x c)" and ?rs = "snd (chan_step x c)"
  have "subseq (events_of (snd (chan_run xs ?c)) @ ch_queue (fst (chan_run xs ?c)))
      (ch_queue ?c @ concat (map submitted xs))"
    using Cons by (simp add: chan_step_ok)
  then have "subseq (events_of ?rs @ events_of (snd (chan_run xs ?c)) @ ch_queue (fst (chan_run xs ?c)))
      (events_of ?rs @ ch_queue ?c @ concat (map submitted xs))"
    by (simp add: subseq_append')
  also have "subseq \<dots> ((ch_queue c @ submitted x) @ concat (map submitted xs))"
    using chan_step_order [OF Cons.prems, of x]
      list_emb_append_mono [of "(=)" "events_of ?rs @ ch_queue ?c" "ch_queue c @ submitted x"
        "concat (map submitted xs)" "concat (map submitted xs)"]
    by simp
  finally show ?case by (simp add: split_beta Let_def)
qed

lemma set_tl_subset: "set (tl xs) \<subseteq> set xs"
  by (cases xs) auto

text \<open>
  The losses counted along a run: for every operation but \<open>Stamp\<close> (which moves the counter into a
  header) and \<open>Lose\<close> (which counts an event that was never submitted), by how much the counter went up.
\<close>

fun counted :: "chan_op list \<Rightarrow> channel \<Rightarrow> nat" where
  "counted [] c = 0"
| "counted (x # xs) c =
    (if x = Stamp \<or> x = Lose then 0 else unat (ch_drops (fst (chan_step x c)) - ch_drops c)) +
    counted xs (fst (chan_step x c))"

lemma chan_step_conservation:
  assumes "chan_ok c" "[] \<notin> set (ch_queue c @ submitted x)"
  shows "length (ch_queue c) + length (submitted x) =
    length (events_of (snd (chan_step x c))) + length (ch_queue (fst (chan_step x c))) +
      (if x = Stamp \<or> x = Lose then 0 else unat (ch_drops (fst (chan_step x c)) - ch_drops c))"
  using assms
  by (cases x) (auto simp: chan_ok_def chan_submit_def chan_get_def chan_cleanup_def
      Suc_diff_le split: option.splits list.splits)

lemma chan_step_nonempty:
  "[] \<notin> set (ch_queue c @ submitted x) \<Longrightarrow> [] \<notin> set (ch_queue (fst (chan_step x c)))"
  using set_tl_subset [of "ch_queue c"]
  by (cases x) (auto simp: chan_submit_def chan_get_def chan_cleanup_def
      split: option.splits list.splits if_splits)

lemma chan_run_conservation:
  "chan_ok c \<Longrightarrow> [] \<notin> set (ch_queue c @ concat (map submitted xs)) \<Longrightarrow>
   length (ch_queue c) + length (concat (map submitted xs)) =
     length (events_of (snd (chan_run xs c))) + length (ch_queue (fst (chan_run xs c))) + counted xs c"
proof (induction xs arbitrary: c)
  case Nil
  then show ?case by simp
next
  case (Cons x xs)
  let ?c = "fst (chan_step x c)"
  have x: "[] \<notin> set (ch_queue c @ submitted x)" using Cons.prems(2) by simp
  have "[] \<notin> set (ch_queue ?c @ concat (map submitted xs))"
    using chan_step_nonempty [OF x] Cons.prems(2) by simp
  then have "length (ch_queue ?c) + length (concat (map submitted xs)) =
      length (events_of (snd (chan_run xs ?c))) + length (ch_queue (fst (chan_run xs ?c))) + counted xs ?c"
    using Cons.IH Cons.prems(1) by (simp add: chan_step_ok)
  with chan_step_conservation [OF Cons.prems(1) x] show ?case
    by (simp add: split_beta Let_def)
qed

end
