(* ===== verification/Edr_Header.thy ===== *)
theory Edr_Header
  imports Edr_Channel
begin

text \<open>
  The shared header builder (\<open>src/src/callbacks/header.rs\<close>) and the skeleton every callback follows:
  allocate an event, stamp its header, fill its fields, submit it. The locale \<open>event_filler\<close> is the
  interface between that skeleton and a callback: a callback that fills nothing but its own block
  inherits ownership and the simulation of the channel.
\<close>

section \<open>make\_header and alloc\_event\_for\<close>

definition make_header :: "kernel \<Rightarrow> u16 \<Rightarrow> u32 \<Rightarrow> driver \<Rightarrow> event_header \<times> driver" where
  "make_header K ty sz d =
    (let ts = ret_KeQuerySystemTimePrecise K (trace d);
         drops = DROP_COUNT d;
         d = d\<lparr>DROP_COUNT := 0\<rparr>;
         truncs = TRUNC_COUNT d;
         d = d\<lparr>TRUNC_COUNT := 0\<rparr>
     in (\<lparr>version = EVENT_VERSION, htype = ty, timestamp = ts, hsize = sz,
          drop_count = drops, trunc_count = truncs\<rparr>, d))"

text \<open>The type parameter \<open>T\<close> of the code is the layout.\<close>

definition alloc_event_for :: "kernel \<Rightarrow> layout \<Rightarrow> u16 \<Rightarrow> driver \<Rightarrow> ptr \<times> driver" where
  "alloc_event_for K lay ty d =
    (let sz = of_nat (size_of lay);
         (buf, d) = alloc_event K sz d
     in if buf = null_ptr then (null_ptr, d)
        else
          let d = zero_mem buf (unat sz) d;
              (h, d) = make_header K ty sz d;
              d = write_mem buf 0 (header_bytes h) d
          in (buf, d))"

lemma unat_size_of: "size_of lay < 2 ^ 32 \<Longrightarrow> unat (of_nat (size_of lay) :: u32) = size_of lay"
  by (simp add: unat_of_nat)

definition zero_block :: "nat \<Rightarrow> block \<Rightarrow> block" where
  "zero_block n b = (\<lambda>i. if i < n then 0 else b i)"

lemma read_zero_block [simp]:
  "off + n \<le> m \<Longrightarrow> read_at off n (zero_block m b) = replicate n 0"
  by (rule nth_equalityI) (auto simp: zero_block_def)

lemma heap_accesses [simp]:
  "heap (log_call c d) = heap d"
  "heap (bump_trunc d) = heap d"
  "heap (write_mem p off bs d) = (heap d)(p := write_at off bs (heap d p))"
  by (simp_all add: log_call_def bump_trunc_def write_mem_def)

text \<open>The header an event gets: the two counters as they stood when it was allocated.\<close>

definition stamped_header :: "kernel \<Rightarrow> layout \<Rightarrow> u16 \<Rightarrow> driver \<Rightarrow> event_header" where
  "stamped_header K lay ty d =
    (let d1 = snd (alloc_event K (of_nat (size_of lay)) d) in
     \<lparr>version = EVENT_VERSION, htype = ty,
      timestamp = ret_KeQuerySystemTimePrecise K
        (trace d1 @ [WriteMem (fst (alloc_event K (of_nat (size_of lay)) d)) 0
           (unat (of_nat (size_of lay) :: u32))]),
      hsize = of_nat (size_of lay), drop_count = DROP_COUNT d, trunc_count = TRUNC_COUNT d\<rparr>)"

lemma alloc_event_counters:
  "fst (alloc_event K sz d) \<noteq> null_ptr \<Longrightarrow>
   DROP_COUNT (snd (alloc_event K sz d)) = DROP_COUNT d \<and>
   TRUNC_COUNT (snd (alloc_event K sz d)) = TRUNC_COUNT d"
  by (auto simp: alloc_event_def Let_def log_call_def)

lemma alloc_event_for_null:
  "fst (alloc_event K (of_nat (size_of lay)) d) = null_ptr \<Longrightarrow>
   alloc_event_for K lay ty d = alloc_event K (of_nat (size_of lay)) d"
  by (simp add: alloc_event_for_def Let_def split_beta prod_eq_iff)

lemma fst_alloc_event_for:
  "fst (alloc_event_for K lay ty d) = fst (alloc_event K (of_nat (size_of lay)) d)"
  by (simp add: alloc_event_for_def Let_def split_beta)

lemma alloc_event_for_heap:
  assumes p: "fst (alloc_event_for K lay ty d) = p" "p \<noteq> null_ptr" and n: "size_of lay < 2 ^ 32"
  shows "\<exists>b. heap (snd (alloc_event_for K lay ty d)) p =
      write_at 0 (header_bytes (stamped_header K lay ty d)) (zero_block (size_of lay) b)"
    and "q \<noteq> p \<Longrightarrow> heap (snd (alloc_event_for K lay ty d)) q = heap d q"
proof -
  let ?a = "alloc_event K (of_nat (size_of lay)) d"
  have a: "fst ?a = p" using p by (simp add: fst_alloc_event_for)
  then have c: "DROP_COUNT (snd ?a) = DROP_COUNT d" "TRUNC_COUNT (snd ?a) = TRUNC_COUNT d"
    using alloc_event_counters [of K "of_nat (size_of lay)" d] p(2) by simp_all
  have "heap (snd (alloc_event_for K lay ty d)) p =
      write_at 0 (header_bytes (stamped_header K lay ty d))
        (zero_block (size_of lay) (heap (snd ?a) p))"
    using a p(2) c unat_size_of [OF n]
    by (simp add: alloc_event_for_def Let_def split_beta make_header_def zero_mem_def log_call_def
        write_mem_def stamped_header_def zero_block_def)
  then show "\<exists>b. heap (snd (alloc_event_for K lay ty d)) p =
      write_at 0 (header_bytes (stamped_header K lay ty d)) (zero_block (size_of lay) b)"
    by blast
  show "heap (snd (alloc_event_for K lay ty d)) q = heap d q" if "q \<noteq> p"
    using a p(2) that
    by (simp add: alloc_event_for_def Let_def split_beta make_header_def zero_mem_def log_call_def
        write_mem_def) (auto simp: alloc_event_def Let_def log_call_def)
qed

lemma same_globals_trans:
  "same_globals d1 d2 \<Longrightarrow> same_globals d2 d3 \<Longrightarrow> same_globals d1 d3"
  by (simp add: same_globals_def)

lemma same_globals_alloc_event_for: "same_globals d (snd (alloc_event_for K lay ty d))"
proof -
  let ?a = "snd (alloc_event K (of_nat (size_of lay)) d)"
  have "same_globals ?a (snd (alloc_event_for K lay ty d))"
    by (simp add: alloc_event_for_def Let_def split_beta make_header_def zero_mem_def log_call_def
        write_mem_def same_globals_def)
  with same_globals_alloc show ?thesis by (rule same_globals_trans)
qed

lemma alloc_event_for_counters:
  assumes "fst (alloc_event_for K lay ty d) \<noteq> null_ptr"
  shows "DROP_COUNT (snd (alloc_event_for K lay ty d)) = 0"
    "TRUNC_COUNT (snd (alloc_event_for K lay ty d)) = 0"
  using assms by (simp_all add: alloc_event_for_def Let_def split_beta make_header_def zero_mem_def
      log_call_def write_mem_def split: if_splits)

lemma alloc_event_for_owns:
  assumes own: "owns None bs iq d" and K: "pool_fresh K"
    and p: "fst (alloc_event_for K lay ty d) = p" "p \<noteq> null_ptr"
    and n: "size_of lay < 2 ^ 32" "24 \<le> size_of lay"
  shows "owns None ((p, size_of lay) # bs) iq (snd (alloc_event_for K lay ty d))"
proof -
  let ?a = "alloc_event K (of_nat (size_of lay)) d"
  have a: "fst ?a = p" using p by (simp add: fst_alloc_event_for)
  have "owns None ((p, size_of lay) # bs) iq (snd ?a)"
    using alloc_event_owns [OF own K a p(2)] by (simp add: unat_size_of [OF n(1)])
  then have "owns None ((p, size_of lay) # bs) iq (zero_mem p (size_of lay) (snd ?a))"
    by (rule owns_call) (auto simp: zero_mem_def log_call_def same_globals_def dest: blocks_owned_live)
  then have z: "owns None ((p, size_of lay) # bs) iq
      ((zero_mem p (size_of lay) (snd ?a))\<lparr>DROP_COUNT := 0, TRUNC_COUNT := 0\<rparr>)" (is "owns _ _ _ ?z")
    by (rule owns_same) (simp_all add: same_globals_def)
  let ?h = "fst (make_header K ty (of_nat (size_of lay)) (zero_mem p (size_of lay) (snd ?a)))"
  have "owns None ((p, size_of lay) # bs) iq (write_mem p 0 (header_bytes ?h) ?z)"
    using z by (rule owns_fills) (rule fills_write_mem [OF fills_refl], simp add: n)
  then show ?thesis
    using a p(2) unat_size_of [OF n(1)]
    by (simp add: alloc_event_for_def Let_def split_beta make_header_def)
qed

lemma alloc_event_for_null_owns:
  assumes "owns None bs iq d" "fst (alloc_event_for K lay ty d) = null_ptr"
  shows "owns None bs iq (snd (alloc_event_for K lay ty d))"
  using assms alloc_event_null_owns [of bs iq d K "of_nat (size_of lay)"]
  by (simp add: fst_alloc_event_for alloc_event_for_null)

section \<open>The skeleton of a callback\<close>

definition emit_event ::
  "kernel \<Rightarrow> layout \<Rightarrow> EventType \<Rightarrow> (ptr \<Rightarrow> driver \<Rightarrow> driver) \<Rightarrow> driver \<Rightarrow> driver" where
  "emit_event K lay ty fill d =
    (let (evt, d) = alloc_event_for K lay (event_type_u16 ty) d
     in if evt = null_ptr then d
        else submit_event K evt (of_nat (size_of lay)) (fill evt d))"

text \<open>The bytes that go out when the allocation succeeds.\<close>

definition event_block ::
  "kernel \<Rightarrow> layout \<Rightarrow> EventType \<Rightarrow> (ptr \<Rightarrow> driver \<Rightarrow> driver) \<Rightarrow> driver \<Rightarrow> block" where
  "event_block K lay ty fill d =
    (let (evt, d) = alloc_event_for K lay (event_type_u16 ty) d in heap (fill evt d) evt)"

definition emit_ops ::
  "kernel \<Rightarrow> layout \<Rightarrow> EventType \<Rightarrow> (ptr \<Rightarrow> driver \<Rightarrow> driver) \<Rightarrow> driver \<Rightarrow> chan_op list" where
  "emit_ops K lay ty fill d =
    (if fst (alloc_event_for K lay (event_type_u16 ty) d) = null_ptr then [Lose]
     else [Stamp, Submit (read_at 0 (size_of lay) (event_block K lay ty fill d))])"

text \<open>Doing the channel operations \<open>ops\<close> is what the step from \<open>d\<close> to \<open>d'\<close> amounts to.\<close>

definition simulates :: "chan_op list \<Rightarrow> driver \<Rightarrow> driver \<Rightarrow> bool" where
  "simulates ops d d' \<longleftrightarrow>
    chan_of d' = fst (chan_run ops (chan_of d)) \<and>
    replies (trace d') = replies (trace d) @ snd (chan_run ops (chan_of d))"

lemma simulates_refl [simp]: "simulates [] d d"
  by (simp add: simulates_def)

lemma simulates_trans:
  "simulates xs d1 d2 \<Longrightarrow> simulates ys d2 d3 \<Longrightarrow> simulates (xs @ ys) d1 d3"
  by (simp add: simulates_def chan_run_append split_beta Let_def)

lemma slot_bytes_other:
  assumes "\<And>q. q \<noteq> p \<Longrightarrow> heap d' q = heap d q" "p \<notin> data ` set ss"
  shows "map (slot_bytes d') ss = map (slot_bytes d) ss"
proof (rule map_cong [OF refl])
  fix s assume "s \<in> set ss"
  with assms(2) have "data s \<noteq> p" by auto
  then show "slot_bytes d' s = slot_bytes d s" by (simp add: slot_bytes_def assms(1))
qed

lemma replies_fill_calls: "list_all fill_call cs \<Longrightarrow> replies cs = []"
  by (induction cs) (auto simp: fill_call_def call_reply_def split: kcall.splits)

lemma replies_oom_calls [simp]: "replies (oom_calls K d) = []"
  by (simp add: oom_calls_def call_reply_def)

lemma alloc_event_null_simulates:
  assumes "fst (alloc_event K sz d) = null_ptr"
  shows "simulates [Lose] d (snd (alloc_event K sz d))"
proof -
  have "ret_ExAllocatePool2 K (trace d) POOL_FLAG_NON_PAGED (ucast sz) POOL_TAG = null_ptr"
    using assms by (simp add: alloc_event_def Let_def split: if_splits)
  then show ?thesis
    by (simp add: alloc_event_def Let_def simulates_def chan_of_def slot_bytes_def log_call_def
        bump_drop_def call_reply_def)
qed

lemma alloc_event_for_irps: "irps (snd (alloc_event_for K lay ty d)) = irps d"
  by (simp add: alloc_event_for_def alloc_event_def Let_def split_beta make_header_def zero_mem_def
      log_call_def write_mem_def bump_drop_def)

lemma replies_alloc_event_for:
  "replies (trace (snd (alloc_event_for K lay ty d))) = replies (trace d)"
  by (simp add: alloc_event_for_def Let_def split_beta make_header_def zero_mem_def log_call_def
      write_mem_def trace_alloc_event call_reply_def)

text \<open>What loading set up, which nothing but unloading changes.\<close>

definition registrations :: "driver \<Rightarrow> ptr \<times> bool \<times> bool \<times> bool \<times> u64 \<times> bool \<times> ptr" where
  "registrations d =
    (CONTROL_DEVICE d, PROCESS_CALLBACK_REGISTERED d, IMAGE_CALLBACK_REGISTERED d,
     REGISTRY_CALLBACK_REGISTERED d, REGISTRY_CALLBACK_COOKIE d, THREAD_CALLBACK_REGISTERED d,
     OBJECT_CALLBACK_HANDLE d)"

lemma registrations_same: "same_globals d d' \<Longrightarrow> registrations d' = registrations d"
  by (simp add: registrations_def same_globals_def)

lemma registrations_fills: "fills p n d d' \<Longrightarrow> registrations d' = registrations d"
  by (simp add: registrations_def fillsD)

lemma registrations_submit: "registrations (submit_event K p sz d) = registrations d"
proof (cases "PENDING_IRP d = null_ptr")
  case True
  then show ?thesis
    by (simp add: submit_enqueue [OF True refl] registrations_def log_call_def frame_simps)
next
  case False
  then show ?thesis
    by (cases "sz \<le> OutputBufferLength (irps d (PENDING_IRP d))")
      (simp_all add: submit_deliver [OF refl] submit_too_small [OF refl] registrations_def)
qed

locale event_filler =
  fixes lay :: layout
    and valid :: bool
    and fill :: "ptr \<Rightarrow> driver \<Rightarrow> driver"
  assumes size_ok: "size_of lay < 2 ^ 32" "24 \<le> size_of lay"
    and fill_fills: "valid \<Longrightarrow> fills p (size_of lay) d (fill p d)"
begin

lemma emit_owns:
  assumes own: "owns None bs iq d" and K: "pool_fresh K" and v: valid
  shows "owns None bs iq (emit_event K lay ty fill d)"
proof (cases "fst (alloc_event_for K lay (event_type_u16 ty) d) = null_ptr")
  case True
  then show ?thesis using alloc_event_for_null_owns [OF own]
    by (simp add: emit_event_def Let_def split_beta)
next
  case False
  let ?p = "fst (alloc_event_for K lay (event_type_u16 ty) d)"
    and ?d = "snd (alloc_event_for K lay (event_type_u16 ty) d)"
  have "owns None ((?p, size_of lay) # bs) iq (fill ?p ?d)"
    using alloc_event_for_owns [OF own K refl False size_ok] fill_fills [OF v] by (rule owns_fills)
  then have "owns None bs iq (submit_event K ?p (of_nat (size_of lay)) (fill ?p ?d))"
    by (intro submit_event_owns) (simp add: unat_size_of [OF size_ok(1)])
  with False show ?thesis by (simp add: emit_event_def Let_def split_beta)
qed

text \<open>An event that has been allocated and filled: its block is owned, and the channel has seen a stamp.\<close>

lemma filled_event:
  assumes own: "owns None bs iq d" and K: "pool_fresh K" and v: valid
    and p: "p = fst (alloc_event_for K lay (event_type_u16 ty) d)" "p \<noteq> null_ptr"
    and d1: "d1 = snd (alloc_event_for K lay (event_type_u16 ty) d)"
  shows "owns None ((p, size_of lay) # bs) iq (fill p d1)" "simulates [Stamp] d (fill p d1)"
proof -
  have f: "fills p (size_of lay) d1 (fill p d1)" by (rule fill_fills [OF v])
  show own2: "owns None ((p, size_of lay) # bs) iq (fill p d1)"
    using alloc_event_for_owns [OF own K p(1) [symmetric] p(2) size_ok] f unfolding d1 by (rule owns_fills)
  have "same_globals d1 (fill p d1)" by (simp add: same_globals_def fillsD [OF f])
  then have same: "same_globals d (fill p d1)"
    using same_globals_trans [OF same_globals_alloc_event_for] by (simp add: d1)
  have heap: "heap (fill p d1) q = heap d q" if "q \<noteq> p" for q
    using alloc_event_for_heap(2) [OF p(1) [symmetric] p(2) size_ok(1) that] fillsD(16) [OF f that] by (simp add: d1)
  have "p \<notin> data ` set (queue_list (fill p d1))"
    using own2 by (rule ownsE) (auto simp: blocks_owned_def queue_blocks_def slot_block_def image_iff)
  then have slots: "map (slot_bytes (fill p d1)) (queue_list d) = map (slot_bytes d) (queue_list d)"
    using heap same_globalsD(1) [OF same] by (intro slot_bytes_other) simp_all
  obtain cs where "trace (fill p d1) = trace d1 @ cs" "list_all fill_call cs" using f by (rule fills_trace)
  then have trs: "replies (trace (fill p d1)) = replies (trace d)"
    by (simp add: replies_fill_calls replies_alloc_event_for d1)
  have "DROP_COUNT d1 = 0" unfolding d1 using p by (intro alloc_event_for_counters(1)) simp
  then have drops: "DROP_COUNT (fill p d1) = 0" by (simp add: fillsD [OF f])
  have "irps d1 = irps d" unfolding d1 by (rule alloc_event_for_irps)
  then have "irps (fill p d1) = irps d" by (simp add: fillsD [OF f])
  then show "simulates [Stamp] d (fill p d1)"
    by (simp add: simulates_def chan_of_def same_globalsD [OF same] slots trs drops)
qed

lemma emit_simulates:
  assumes own: "owns None bs iq d" and K: "pool_fresh K" and v: valid
  shows "simulates (emit_ops K lay ty fill d) d (emit_event K lay ty fill d)"
proof (cases "fst (alloc_event_for K lay (event_type_u16 ty) d) = null_ptr")
  case True
  then have "simulates [Lose] d (snd (alloc_event_for K lay (event_type_u16 ty) d))"
    using alloc_event_null_simulates [of K "of_nat (size_of lay)" d]
    by (simp add: alloc_event_for_null fst_alloc_event_for)
  with True show ?thesis by (simp add: emit_event_def emit_ops_def Let_def split_beta)
next
  case False
  define p where "p = fst (alloc_event_for K lay (event_type_u16 ty) d)"
  define d2 where "d2 = fill p (snd (alloc_event_for K lay (event_type_u16 ty) d))"
  have p: "p \<noteq> null_ptr" using False by (simp add: p_def)
  note fe = filled_event [OF own K v p_def p refl, folded d2_def]
  define e where "e = read_at 0 (size_of lay) (heap d2 p)"
  have "ring_ok d2" using fe(1) by (rule ownsE)
  then have "simulates [Submit e] d2 (submit_event K p (of_nat (size_of lay)) d2)"
    using submit_refines [of d2 e "of_nat (size_of lay)" p K]
    by (simp add: simulates_def e_def unat_size_of [OF size_ok(1)] split_beta)
  with fe(2) have "simulates [Stamp, Submit e] d (submit_event K p (of_nat (size_of lay)) d2)"
    using simulates_trans by fastforce
  moreover have "emit_ops K lay ty fill d = [Stamp, Submit e]"
    using p by (simp add: emit_ops_def event_block_def split_beta e_def d2_def p_def)
  ultimately show ?thesis
    using p by (simp add: emit_event_def Let_def split_beta d2_def p_def)
qed

lemma emit_registrations: "valid \<Longrightarrow> registrations (emit_event K lay ty fill d) = registrations d"
  using registrations_same [OF same_globals_alloc_event_for [of d K lay "event_type_u16 ty"]]
    registrations_fills [OF fill_fills]
  by (simp add: emit_event_def Let_def split_beta registrations_submit)

text \<open>
  When the pool had a block, the step is one header stamp and one submission; the submitted bytes
  are what \<open>fill\<close> makes of a zeroed block with the stamped header.
\<close>

lemma emit_content:
  assumes own: "owns None bs iq d" and K: "pool_fresh K" and v: valid
    and p: "fst (alloc_event_for K lay (event_type_u16 ty) d) \<noteq> null_ptr"
  obtains p d1 b0 where
    "simulates [Stamp, Submit (read_at 0 (size_of lay) (heap (fill p d1) p))] d
       (emit_event K lay ty fill d)"
    "heap d1 p = write_at 0 (header_bytes (stamped_header K lay (event_type_u16 ty) d))
       (zero_block (size_of lay) b0)"
    "d1 = snd (alloc_event_for K lay (event_type_u16 ty) d)"
    "p = fst (alloc_event_for K lay (event_type_u16 ty) d)"
proof -
  let ?p = "fst (alloc_event_for K lay (event_type_u16 ty) d)"
    and ?d = "snd (alloc_event_for K lay (event_type_u16 ty) d)"
  obtain b0 where "heap ?d ?p =
      write_at 0 (header_bytes (stamped_header K lay (event_type_u16 ty) d))
        (zero_block (size_of lay) b0)"
    using alloc_event_for_heap(1) [OF refl p size_ok(1)] by blast
  moreover have "simulates [Stamp, Submit (read_at 0 (size_of lay) (heap (fill ?p ?d) ?p))] d
      (emit_event K lay ty fill d)"
    using emit_simulates [OF own K v, of ty] p by (simp add: emit_ops_def event_block_def split_beta)
  ultimately show thesis using that by blast
qed

end

section \<open>Reading what was written\<close>

text \<open>
  Reading a field through later writes to other fields. A numeral offset that the layout rules have
  computed is all \<open>simp\<close> needs; these are the facts for the fields no write reached.
\<close>

lemma header_bytes_at [simp]:
  "24 \<le> off \<Longrightarrow> read_at off n (write_at 0 (header_bytes h) b) = read_at off n b"
  by simp

lemma read_header_write_other [simp]:
  "24 \<le> off \<Longrightarrow> read_header (write_at off bs b) = read_header b"
  by (simp add: read_header_def get_u16_def get_u32_def get_u64_def get_field_def layout_simps)

lemmas get_defs = get_u16_def get_u32_def get_u64_def get_units_def get_field_def

text \<open>A string field: the copied code units, then the zeroes the block was cleared to.\<close>

definition padded :: "nat \<Rightarrow> u16 list \<Rightarrow> u16 list" where
  "padded n us = us @ replicate (n - length us) 0"

lemma units_of_bytes_append [simp]:
  "units_of_bytes (bytes_of_units us @ bs) = us @ units_of_bytes bs"
  by (induction us) auto

lemma units_of_bytes_zeroes [simp]: "units_of_bytes (replicate (2 * n) 0) = replicate n 0"
  by (induction n) auto

lemma read_string_field:
  assumes "length us \<le> n" "m = 2 * n" "read_at off m b = replicate m 0"
  shows "units_of_bytes (read_at off m (write_at off (bytes_of_units us) b)) = padded n us"
proof -
  have "m = 2 * length us + (m - 2 * length us)" using assms(1,2) by simp
  then have "replicate m 0 = read_at off (2 * length us) b @
      read_at (off + 2 * length us) (m - 2 * length us) b"
    using assms(3) read_at_split by metis
  then have "drop (2 * length us) (replicate m 0) =
      read_at (off + 2 * length us) (m - 2 * length us) b"
    by (simp add: assms(1,2))
  then have "read_at off m (write_at off (bytes_of_units us) b) =
      bytes_of_units us @ replicate (2 * (n - length us)) 0"
    using assms(1,2) by (simp add: read_write_prefix diff_mult_distrib2)
  then show ?thesis by (simp add: padded_def)
qed

lemma units_of_zero_bytes [simp]:
  "units_of_bytes (replicate (numeral k) 0) = replicate (numeral k div 2) 0"
proof -
  have "units_of_bytes (replicate m 0) = replicate (m div 2) 0" for m
    by (induction m rule: induct_nat_012) simp_all
  then show ?thesis .
qed

section \<open>Writing a field\<close>

text \<open>\<open>ptr::write(addr_of_mut!((*evt).name), v)\<close>.\<close>

definition write_field :: "layout \<Rightarrow> string \<Rightarrow> u8 list \<Rightarrow> ptr \<Rightarrow> driver \<Rightarrow> driver" where
  "write_field lay name bs p d = write_mem p (field_off lay name) bs d"

lemma fills_write_field:
  assumes "fills p n d d'" "n = size_of lay" "name \<in> fst ` set lay" "length bs \<le> field_width lay name"
  shows "fills p n d (write_field lay name bs p d')"
  unfolding write_field_def
  by (rule fills_write_mem [OF assms(1)])
    (use field_inside [OF assms(3)] assms(2,4) in simp)

lemma heap_write_field [simp]:
  "heap (write_field lay name bs p d) = (heap d)(p := write_at (field_off lay name) bs (heap d p))"
  by (simp add: write_field_def)

lemma trace_bump_trunc [simp]: "trace (bump_trunc d) = trace d"
  by (simp add: bump_trunc_def)

lemma trace_log_call [simp]: "trace (log_call c d) = trace d @ [c]"
  by (simp add: log_call_def)

lemma trace_write_field [simp]:
  "trace (write_field lay name bs p d) = trace d @ [WriteMem p (field_off lay name) (length bs)]"
  by (simp add: write_field_def write_mem_def)

end
