(* ===== verification/Edr_Sample.thy ===== *)
theory Edr_Sample
  imports Edr_Header
begin

text \<open>
  A concrete kernel for the witnesses: a pool that numbers its blocks upwards, a clock that counts
  calls, and fixed answers for everything else. It satisfies every assumption the theorems make.
\<close>

section \<open>A pool that never reuses a block\<close>

definition block_bound :: "kcall \<Rightarrow> nat" where
  "block_bound c =
    (case c of ExAllocatePool2 f n t p \<Rightarrow> p
     | SeLocateProcessImageName process status name \<Rightarrow> name
     | SeQueryInformationToken token class status blob \<Rightarrow> blob
     | _ \<Rightarrow> 0)"

definition next_block :: "history \<Rightarrow> ptr" where
  "next_block h = Suc (sum_list (map block_bound h))"

text \<open>The path \<open>\Registry\User\<close> as UTF-16.\<close>

definition sample_key :: "u16 list" where
  "sample_key = [0x5C, 0x52, 0x65, 0x67, 0x69, 0x73, 0x74, 0x72, 0x79, 0x5C, 0x55, 0x73, 0x65, 0x72]"

definition sample_kernel :: kernel where
  "sample_kernel =
    \<lparr>overflow_checks = True, ret_ExAllocatePool2 = (\<lambda>h flags bytes tag. next_block h),
     pool_contents = (\<lambda>h i. 0xAA),
     ret_KeQuerySystemTimePrecise = (\<lambda>h. of_nat (length h)),
     ret_KeAcquireSpinLockRaiseToDpc = (\<lambda>h. 0),
     ret_PsGetCurrentProcessId = (\<lambda>h. 4),
     ret_PsGetProcessId = (\<lambda>h p. of_nat p),
     ret_PsGetProcessExitStatus = (\<lambda>h p. 1),
     ret_CmCallbackGetKeyObjectIDEx = (\<lambda>h cookie object.
       (0, object, \<lparr>Length = 28, Buffer = Some sample_key\<rparr>)),
     ret_IoCreateDevice = (\<lambda>h. (0, 1)),
     ret_IoCreateSymbolicLink = (\<lambda>h. 0),
     ret_PsSetCreateProcessNotifyRoutineEx = (\<lambda>h remove. 0),
     ret_PsSetLoadImageNotifyRoutine = (\<lambda>h. 0),
     ret_CmRegisterCallback = (\<lambda>h. (0, 77)),
     ret_PsSetCreateThreadNotifyRoutine = (\<lambda>h. 0),
     ret_ObRegisterCallbacks = (\<lambda>h. (0, 9)),
     ret_PsLookupProcessByProcessId = (\<lambda>h pid. (0, 5)),
     ret_SeLocateProcessImageName = (\<lambda>h p. (0, next_block h, \<lparr>Length = 4, Buffer = Some [0x5C, 0x61]\<rparr>)),
     ret_IoGetCurrentProcess = (\<lambda>h. 6),
     ret_PsReferencePrimaryToken = (\<lambda>h p. 7),
     ret_SeQueryInformationToken = (\<lambda>h token class. (0, next_block h, 8)),
     ret_RtlConvertSidToUnicodeString = (\<lambda>h sid. (0, 3, \<lparr>Length = 6, Buffer = Some [0x53, 0x2D, 0x31]\<rparr>)),
     ret_RtlSubAuthorityCountSid = (\<lambda>h sid. Some 1),
     ret_RtlSubAuthoritySid = (\<lambda>h sid i. Some 0x3000)\<rparr>"

lemma sample_kernel_simps [simp]:
  "ret_PsGetCurrentProcessId sample_kernel h = 4"
  "ret_PsGetProcessId sample_kernel h p = of_nat p"
  "ret_PsGetProcessExitStatus sample_kernel h p = 1"
  "ret_CmCallbackGetKeyObjectIDEx sample_kernel h cookie object =
    (0, object, \<lparr>Length = 28, Buffer = Some sample_key\<rparr>)"
  by (simp_all add: sample_kernel_def)

text \<open>A pool with nothing to give.\<close>

definition exhausted_kernel :: kernel where
  "exhausted_kernel = sample_kernel\<lparr>ret_ExAllocatePool2 := (\<lambda>h flags bytes tag. null_ptr)\<rparr>"

definition sample_driver :: driver where
  "sample_driver =
    initial_driver (\<lambda>i. \<lparr>data = 0, slot_size = 0\<rparr>) (\<lambda>p i. 0)
      (\<lambda>i. \<lparr>IoControlCode = 0x226000, OutputBufferLength = 0x4000, SystemBuffer = (\<lambda>_. 0),
           Status = 0, Information = 0, Control = 0\<rparr>)"

lemma live_step_bound:
  assumes "mon_step c m = Some m'" "m_live m' p \<noteq> None"
  shows "m_live m p \<noteq> None \<or> p \<le> block_bound c"
  using assms by (cases c) (auto simp: block_bound_def guarded_def split: if_splits option.splits)

lemma live_run_bound:
  assumes "mon_run h m = Some m'" "m_live m' p \<noteq> None"
  shows "m_live m p \<noteq> None \<or> p \<le> sum_list (map block_bound h)"
  using assms
proof (induction h arbitrary: m)
  case Nil
  then show ?case by simp
next
  case (Cons c h)
  then obtain m1 where s: "mon_step c m = Some m1" and r: "mon_run h m1 = Some m'"
    by (auto split: option.splits)
  from Cons.IH [OF r Cons.prems(2)] live_step_bound [OF s] show ?case by fastforce
qed

lemma next_block_fresh: "mon_run h mon0 = Some m \<Longrightarrow> m_live m (next_block h) = None"
proof (rule ccontr)
  assume "mon_run h mon0 = Some m" "m_live m (next_block h) \<noteq> None"
  from live_run_bound [OF this] show False by (simp add: mon0_def next_block_def)
qed

lemma sample_pool_fresh [simp]: "pool_fresh sample_kernel" "pool_fresh exhausted_kernel"
  by (simp_all add: pool_fresh_def Let_def sample_kernel_def exhausted_kernel_def next_block_fresh)

lemma sample_driver_ok [simp]: "driver_ok sample_driver"
  by (simp add: sample_driver_def driver_ok_initial)

lemma sample_alloc [simp]:
  "fst (alloc_event_for sample_kernel lay ty d) \<noteq> null_ptr"
  "fst (alloc_event_for exhausted_kernel lay ty d) = null_ptr"
  by (simp_all add: fst_alloc_event_for alloc_event_def Let_def sample_kernel_def
      exhausted_kernel_def next_block_def)

lemma sample_key_names_valid [simp]: "key_names_valid sample_kernel"
  by (simp add: key_names_valid_def sample_kernel_def us_valid_def sample_key_def)

end
