(* ===== verification/Edr_Thread.thy ===== *)
theory Edr_Thread
  imports Edr_Sample
begin

text \<open>
  Thread notifications (\<open>src/src/callbacks/thread.rs\<close>). A \<open>HANDLE\<close> that carries a process or thread
  id is a \<open>u64\<close>; \<open>as usize as u32\<close> keeps its low 32 bits.
\<close>

section \<open>Operations\<close>

definition emit_thread_create :: "kernel \<Rightarrow> u32 \<Rightarrow> u32 \<Rightarrow> driver \<Rightarrow> driver" where
  "emit_thread_create K pid tid d =
    (let (evt, d) = alloc_event_for K ThreadCreateEvent (event_type_u16 ThreadCreate) d
     in if evt = null_ptr then d
        else
          let creator = ucast (ret_PsGetCurrentProcessId K (trace d));
              d = write_field ThreadCreateEvent ''process_id'' (bytes32 pid) evt d;
              d = write_field ThreadCreateEvent ''thread_id'' (bytes32 tid) evt d;
              d = write_field ThreadCreateEvent ''creating_process_id'' (bytes32 creator) evt d;
              sz = of_nat (size_of ThreadCreateEvent)
          in submit_event K evt sz d)"

definition emit_thread_exit :: "kernel \<Rightarrow> u32 \<Rightarrow> u32 \<Rightarrow> driver \<Rightarrow> driver" where
  "emit_thread_exit K pid tid d =
    (let (evt, d) = alloc_event_for K ThreadExitEvent (event_type_u16 ThreadExit) d
     in if evt = null_ptr then d
        else
          let d = write_field ThreadExitEvent ''process_id'' (bytes32 pid) evt d;
              d = write_field ThreadExitEvent ''thread_id'' (bytes32 tid) evt d;
              sz = of_nat (size_of ThreadExitEvent)
          in submit_event K evt sz d)"

definition thread_notify :: "kernel \<Rightarrow> u64 \<Rightarrow> u64 \<Rightarrow> u8 \<Rightarrow> driver \<Rightarrow> driver" where
  "thread_notify K process_id thread_id create d =
    (let pid = ucast process_id; tid = ucast thread_id
     in if create \<noteq> 0 then emit_thread_create K pid tid d else emit_thread_exit K pid tid d)"

section \<open>As instances of the skeleton\<close>

definition fill_thread_create :: "kernel \<Rightarrow> u32 \<Rightarrow> u32 \<Rightarrow> ptr \<Rightarrow> driver \<Rightarrow> driver" where
  "fill_thread_create K pid tid evt d =
    write_field ThreadCreateEvent ''creating_process_id''
      (bytes32 (ucast (ret_PsGetCurrentProcessId K (trace d)))) evt
      (write_field ThreadCreateEvent ''thread_id'' (bytes32 tid) evt
        (write_field ThreadCreateEvent ''process_id'' (bytes32 pid) evt d))"

definition fill_thread_exit :: "u32 \<Rightarrow> u32 \<Rightarrow> ptr \<Rightarrow> driver \<Rightarrow> driver" where
  "fill_thread_exit pid tid evt d =
    write_field ThreadExitEvent ''thread_id'' (bytes32 tid) evt
      (write_field ThreadExitEvent ''process_id'' (bytes32 pid) evt d)"

lemma emit_thread_create_eq:
  "emit_thread_create K pid tid =
    emit_event K ThreadCreateEvent ThreadCreate (fill_thread_create K pid tid)"
  by (rule ext) (simp add: emit_thread_create_def emit_event_def fill_thread_create_def Let_def split_beta)

lemma emit_thread_exit_eq:
  "emit_thread_exit K pid tid =
    emit_event K ThreadExitEvent ThreadExit (fill_thread_exit pid tid)"
  by (rule ext) (simp add: emit_thread_exit_def emit_event_def fill_thread_exit_def Let_def split_beta)

interpretation thread_create: event_filler ThreadCreateEvent True "fill_thread_create K pid tid"
  for K pid tid
proof unfold_locales
  show "fills p (size_of ThreadCreateEvent) d (fill_thread_create K pid tid p d)" for p d
    unfolding fill_thread_create_def
    by (intro fills_write_field fills_refl refl) (simp_all add: ThreadCreateEvent_def)
qed simp_all

interpretation thread_exit: event_filler ThreadExitEvent True "fill_thread_exit pid tid"
  for pid tid
proof unfold_locales
  show "fills p (size_of ThreadExitEvent) d (fill_thread_exit pid tid p d)" for p d
    unfolding fill_thread_exit_def
    by (intro fills_write_field fills_refl refl) (simp_all add: ThreadExitEvent_def)
qed simp_all

definition thread_ops :: "kernel \<Rightarrow> u64 \<Rightarrow> u64 \<Rightarrow> u8 \<Rightarrow> driver \<Rightarrow> chan_op list" where
  "thread_ops K process_id thread_id create d =
    (if create \<noteq> 0
     then emit_ops K ThreadCreateEvent ThreadCreate
       (fill_thread_create K (ucast process_id) (ucast thread_id)) d
     else emit_ops K ThreadExitEvent ThreadExit
       (fill_thread_exit (ucast process_id) (ucast thread_id)) d)"

lemma thread_notify_owns:
  "owns None bs iq d \<Longrightarrow> pool_fresh K \<Longrightarrow> owns None bs iq (thread_notify K p t c d)"
  by (simp add: thread_notify_def emit_thread_create_eq emit_thread_exit_eq Let_def
      thread_create.emit_owns thread_exit.emit_owns)

lemma thread_notify_simulates:
  "owns None bs iq d \<Longrightarrow> pool_fresh K \<Longrightarrow>
   simulates (thread_ops K p t c d) d (thread_notify K p t c d)"
  by (simp add: thread_notify_def thread_ops_def emit_thread_create_eq emit_thread_exit_eq Let_def
      thread_create.emit_simulates thread_exit.emit_simulates)

section \<open>What a thread notification reports\<close>

lemma thread_create_block:
  assumes "heap d p = write_at 0 (header_bytes h) (zero_block 36 b0)"
  shows "read_header (heap (fill_thread_create K pid tid p d) p) = h"
    "get_u32 ThreadCreateEvent ''process_id'' (heap (fill_thread_create K pid tid p d) p) = pid"
    "get_u32 ThreadCreateEvent ''thread_id'' (heap (fill_thread_create K pid tid p d) p) = tid"
    "get_u32 ThreadCreateEvent ''creating_process_id'' (heap (fill_thread_create K pid tid p d) p) =
      ucast (ret_PsGetCurrentProcessId K (trace d))"
  using assms by (simp_all add: fill_thread_create_def ThreadCreateEvent_def get_defs
      EventHeader_def read_header_write)

lemma thread_exit_block:
  assumes "heap d p = write_at 0 (header_bytes h) (zero_block 32 b0)"
  shows "read_header (heap (fill_thread_exit pid tid p d) p) = h"
    "get_u32 ThreadExitEvent ''process_id'' (heap (fill_thread_exit pid tid p d) p) = pid"
    "get_u32 ThreadExitEvent ''thread_id'' (heap (fill_thread_exit pid tid p d) p) = tid"
  using assms by (simp_all add: fill_thread_exit_def ThreadExitEvent_def get_defs
      EventHeader_def read_header_write)

section \<open>Properties\<close>

text \<open>
  C31. A thread-creation notification that gets a pool block submits one event. Its header is the
  stamped header (schema version, type, time, size and the two counters as they stood), and its
  three fields are the low halves of the process id, the thread id and the id of the process that
  asked for the thread.
\<close>

theorem thread_create_reported:
  assumes "driver_ok d" "pool_fresh K" "create \<noteq> 0"
    and "fst (alloc_event_for K ThreadCreateEvent (event_type_u16 ThreadCreate) d) \<noteq> null_ptr"
  shows "\<exists>b. simulates [Stamp, Submit (read_at 0 36 b)] d (thread_notify K process_id thread_id create d) \<and>
    read_header b = stamped_header K ThreadCreateEvent (event_type_u16 ThreadCreate) d \<and>
    get_u32 ThreadCreateEvent ''process_id'' b = ucast process_id \<and>
    get_u32 ThreadCreateEvent ''thread_id'' b = ucast thread_id \<and>
    get_u32 ThreadCreateEvent ''creating_process_id'' b = ucast (ret_PsGetCurrentProcessId K
      (trace (snd (alloc_event_for K ThreadCreateEvent (event_type_u16 ThreadCreate) d))))"
proof -
  obtain p d1 b0 where
    "simulates [Stamp, Submit (read_at 0 (size_of ThreadCreateEvent)
       (heap (fill_thread_create K (ucast process_id) (ucast thread_id) p d1) p))] d
       (emit_event K ThreadCreateEvent ThreadCreate
         (fill_thread_create K (ucast process_id) (ucast thread_id)) d)"
    and h: "heap d1 p = write_at 0
       (header_bytes (stamped_header K ThreadCreateEvent (event_type_u16 ThreadCreate) d))
       (zero_block (size_of ThreadCreateEvent) b0)"
    and "d1 = snd (alloc_event_for K ThreadCreateEvent (event_type_u16 ThreadCreate) d)"
    by (rule thread_create.emit_content [OF assms(1) [unfolded driver_ok_def] assms(2) TrueI assms(4)])
  with thread_create_block [OF h [unfolded size_of_simps], of K "ucast process_id" "ucast thread_id"] assms(3)
  show ?thesis by (auto simp: thread_notify_def emit_thread_create_eq)
qed

theorem thread_create_reported_witness:
  "\<exists>b. simulates [Stamp, Submit (read_at 0 36 b)] sample_driver (thread_notify sample_kernel 7 9 1 sample_driver) \<and>
    get_u32 ThreadCreateEvent ''process_id'' b = 7 \<and> get_u32 ThreadCreateEvent ''thread_id'' b = 9 \<and>
    get_u32 ThreadCreateEvent ''creating_process_id'' b = 4"
  using thread_create_reported [of sample_driver sample_kernel 1 "7" 9]
  by auto

text \<open>
  C32. A thread-exit notification that gets a pool block submits one event, with the stamped header
  and the low halves of the two ids.
\<close>

theorem thread_exit_reported:
  assumes "driver_ok d" "pool_fresh K"
    and "fst (alloc_event_for K ThreadExitEvent (event_type_u16 ThreadExit) d) \<noteq> null_ptr"
  shows "\<exists>b. simulates [Stamp, Submit (read_at 0 32 b)] d (thread_notify K process_id thread_id 0 d) \<and>
    read_header b = stamped_header K ThreadExitEvent (event_type_u16 ThreadExit) d \<and>
    get_u32 ThreadExitEvent ''process_id'' b = ucast process_id \<and>
    get_u32 ThreadExitEvent ''thread_id'' b = ucast thread_id"
proof -
  obtain p d1 b0 where
    "simulates [Stamp, Submit (read_at 0 (size_of ThreadExitEvent)
       (heap (fill_thread_exit (ucast process_id) (ucast thread_id) p d1) p))] d
       (emit_event K ThreadExitEvent ThreadExit (fill_thread_exit (ucast process_id) (ucast thread_id)) d)"
    and h: "heap d1 p = write_at 0
       (header_bytes (stamped_header K ThreadExitEvent (event_type_u16 ThreadExit) d))
       (zero_block (size_of ThreadExitEvent) b0)"
    by (rule thread_exit.emit_content [OF assms(1) [unfolded driver_ok_def] assms(2) TrueI assms(3)])
  with thread_exit_block [OF h [unfolded size_of_simps], of "ucast process_id" "ucast thread_id"]
  show ?thesis by (auto simp: thread_notify_def emit_thread_exit_eq)
qed

theorem thread_exit_reported_witness:
  "\<exists>b. simulates [Stamp, Submit (read_at 0 32 b)] sample_driver (thread_notify sample_kernel 7 9 0 sample_driver) \<and>
    get_u32 ThreadExitEvent ''process_id'' b = 7 \<and> get_u32 ThreadExitEvent ''thread_id'' b = 9"
  using thread_exit_reported [of sample_driver sample_kernel "7" 9]
  by auto

end
