(* ===== verification/Edr_Strings.thy ===== *)
theory Edr_Strings
  imports Edr_Sample
begin

text \<open>
  What copying a \<open>UNICODE_STRING\<close> into a fixed field of an event amounts to. Three callbacks have
  their own copy of this loop; each is shown to have the effect described here: at most \<open>cap - 1\<close>
  code units go into the field, their number into the length field, and the copy counts as a
  truncation exactly when units were left out.
\<close>

section \<open>The units that go out\<close>

definition us_units :: "unicode_string option \<Rightarrow> u16 list" where
  "us_units src =
    (case src of None \<Rightarrow> []
     | Some s \<Rightarrow> (case Buffer s of None \<Rightarrow> []
        | Some us \<Rightarrow> take (unat (Length s) div 2) us))"

definition copied :: "nat \<Rightarrow> unicode_string option \<Rightarrow> u16 list" where
  "copied cap src = take (cap - 1) (us_units src)"

definition truncated :: "nat \<Rightarrow> unicode_string option \<Rightarrow> bool" where
  "truncated cap src \<longleftrightarrow> cap - 1 < length (us_units src)"

definition skips :: "unicode_string option \<Rightarrow> bool" where
  "skips src \<longleftrightarrow>
    (case src of None \<Rightarrow> True | Some s \<Rightarrow> Buffer s = None \<or> Length s = 0)"

lemma length_copied_le [simp]: "length (copied cap src) \<le> cap - 1"
  by (simp add: copied_def)

lemma copied_skips [simp]: "skips src \<Longrightarrow> copied cap src = []"
  by (auto simp: copied_def us_units_def skips_def split: option.splits)

lemma not_truncated_skips [simp]: "skips src \<Longrightarrow> \<not> truncated cap src"
  by (auto simp: truncated_def us_units_def skips_def split: option.splits)

text \<open>The code's \<open>chars\<close> and \<open>copy\<close>.\<close>

lemma unat_half: "unat ((l :: u16) div 2) = unat l div 2"
  by (simp add: unat_div)

lemma copied_eq:
  assumes "Buffer s = Some us" "us_valid s"
  shows "copied cap (Some s) = take (min (unat (Length s div 2)) (cap - 1)) us"
    and "length (copied cap (Some s)) = min (unat (Length s div 2)) (cap - 1)"
    and "truncated cap (Some s) \<longleftrightarrow> min (unat (Length s div 2)) (cap - 1) < unat (Length s div 2)"
  using assms
  by (auto simp: copied_def truncated_def us_units_def us_valid_def unat_half min.commute)

text \<open>The case in which something is copied, with the code's expressions named.\<close>

lemma copy_cases:
  assumes "pus_valid src"
  obtains (skip) "skips src"
  | (copy) s us where "\<not> skips src" "src = Some s" "Buffer s = Some us" "Length s \<noteq> 0"
      "take (min (unat (Length s div 2)) (cap - 1)) us = copied cap src"
      "min (unat (Length s div 2)) (cap - 1) = length (copied cap src)"
      "length (copied cap src) < unat (Length s div 2) \<longleftrightarrow> truncated cap src"
      "length (copied cap src) \<le> length us"
proof (cases "skips src")
  case True
  then show thesis by (rule skip)
next
  case False
  then obtain s us where s: "src = Some s" "Buffer s = Some us" "Length s \<noteq> 0"
    by (auto simp: skips_def split: option.splits)
  with assms have v: "us_valid s" by (simp add: pus_valid_def)
  have len: "length (copied cap src) \<le> length us"
    using s by (simp add: copied_def us_units_def)
  show thesis
    using copy [OF False s] copied_eq [OF s(2) v, of cap] len s(1) by simp
qed

lemma length_copied_u16:
  assumes "cap \<le> 65536"
  shows "unat (of_nat (length (copied cap src)) :: u16) = length (copied cap src)"
proof -
  have "length (copied cap src) < 65536"
    using length_copied_le [of cap src] assms by (cases "cap = 0") (simp_all add: copied_def)
  then show ?thesis by (simp add: unat_of_nat)
qed

section \<open>Their place in the event\<close>

definition put_string :: "nat \<Rightarrow> nat \<Rightarrow> nat \<Rightarrow> unicode_string option \<Rightarrow> block \<Rightarrow> block" where
  "put_string off loff cap src b =
    (if skips src then b
     else write_at loff (bytes16 (of_nat (length (copied cap src))))
       (write_at off (bytes_of_units (copied cap src)) b))"

lemma read_put_string_other [simp]:
  assumes "k + n \<le> off \<or> off + 2 * cap \<le> k" "k + n \<le> loff \<or> loff + 2 \<le> k"
  shows "read_at k n (put_string off loff cap src b) = read_at k n b"
proof -
  have "2 * length (copied cap src) \<le> 2 * cap"
    using length_copied_le [of cap src] by linarith
  with assms show ?thesis by (auto simp: put_string_def)
qed

lemma read_put_string:
  assumes "m = 2 * cap" "loff + 2 \<le> off \<or> off + m \<le> loff" "read_at off m b = replicate m 0"
  shows "units_of_bytes (read_at off m (put_string off loff cap src b)) = padded cap (copied cap src)"
proof (cases "skips src")
  case True
  then show ?thesis using assms by (simp add: put_string_def padded_def)
next
  case False
  have "length (copied cap src) \<le> cap" using length_copied_le [of cap src] by linarith
  with assms False show ?thesis
    by (auto simp: put_string_def read_string_field)
qed

lemma read_put_string_len:
  assumes "read_at loff 2 b = replicate 2 0"
  shows "(of_nat (le_dec (read_at loff 2 (put_string off loff cap src b))) :: u16) =
    of_nat (length (copied cap src))"
proof (cases "skips src")
  case True
  then show ?thesis using assms by (simp add: put_string_def)
next
  case False
  then show ?thesis by (simp add: put_string_def)
qed

lemma read_header_put_string [simp]:
  "24 \<le> off \<Longrightarrow> 24 \<le> loff \<Longrightarrow> read_header (put_string off loff cap src b) = read_header b"
  by (simp add: put_string_def)

text \<open>
  A consumer that reads the length field gets back the string, whole when it was short enough.
\<close>

lemma take_padded [simp]: "take (length us) (padded n us) = us"
  by (simp add: padded_def)

lemma copied_whole: "\<not> truncated cap src \<Longrightarrow> copied cap src = us_units src"
  by (simp add: copied_def truncated_def)

end
