(* ===== verification/Edr_Process.thy ===== *)
theory Edr_Process
  imports Edr_Strings
begin

text \<open>
  Process notifications (\<open>src/src/callbacks/process.rs\<close>): the two emitters and the entry point. The
  three resolvers that the code keeps but no longer calls are in a theory of their own.
\<close>

section \<open>Operations\<close>

text \<open>The fields of \<open>PS_CREATE_NOTIFY_INFO\<close> the code reads; string pointers may be null.\<close>

record ps_create_notify_info =
  ParentProcessId :: u64
  CreatingUniqueProcess :: u64
  ImageFileName :: "unicode_string option"
  CommandLine :: "unicode_string option"

text \<open>\<open>dst\<close> and \<open>len_dst\<close> are fields of the event \<open>evt\<close> with layout \<open>lay\<close>.\<close>

definition copy_unicode_string_into ::
  "unicode_string option \<Rightarrow> layout \<Rightarrow> string \<Rightarrow> nat \<Rightarrow> string \<Rightarrow> ptr \<Rightarrow> driver \<Rightarrow> driver" where
  "copy_unicode_string_into src lay dst cap len_dst evt d =
    (case src of None \<Rightarrow> d
     | Some s \<Rightarrow>
         (case Buffer s of None \<Rightarrow> d
          | Some units \<Rightarrow>
              if Length s = 0 then d
              else
                let chars = unat (Length s div 2);
                    copy = min chars (cap - 1);
                    d = (if chars > copy then bump_trunc d else d);
                    d = log_call (ReadSource copy (length units)) d;
                    d = write_field lay dst (bytes_of_units (take copy units)) evt d
                in write_field lay len_dst (bytes16 (of_nat copy)) evt d))"

definition emit_process_exit :: "kernel \<Rightarrow> u32 \<Rightarrow> ptr \<Rightarrow> driver \<Rightarrow> driver" where
  "emit_process_exit K pid process d =
    (let (evt, d) = alloc_event_for K ProcessExitEvent (event_type_u16 ProcessExit) d
     in if evt = null_ptr then d
        else
          let d = write_field ProcessExitEvent ''process_id'' (bytes32 pid) evt d;
              exit_code = (if process = null_ptr then 0
                           else ret_PsGetProcessExitStatus K (trace d) process);
              d = write_field ProcessExitEvent ''exit_code'' (bytes32 exit_code) evt d;
              sz = of_nat (size_of ProcessExitEvent)
          in submit_event K evt sz d)"

definition emit_process_create :: "kernel \<Rightarrow> u32 \<Rightarrow> ps_create_notify_info \<Rightarrow> driver \<Rightarrow> driver" where
  "emit_process_create K pid info d =
    (let (evt, d) = alloc_event_for K ProcessCreateEvent (event_type_u16 ProcessCreate) d
     in if evt = null_ptr then d
        else
          let parent = ucast (ParentProcessId info);
              creator = ucast (CreatingUniqueProcess info);
              d = write_field ProcessCreateEvent ''process_id'' (bytes32 pid) evt d;
              d = write_field ProcessCreateEvent ''parent_process_id'' (bytes32 parent) evt d;
              d = write_field ProcessCreateEvent ''creating_process_id'' (bytes32 creator) evt d;
              d = copy_unicode_string_into (ImageFileName info)
                    ProcessCreateEvent ''image_path'' IMAGE_PATH_MAX ''image_path_len'' evt d;
              d = copy_unicode_string_into (CommandLine info)
                    ProcessCreateEvent ''command_line'' COMMAND_LINE_MAX ''command_line_len'' evt d;
              d = write_field ProcessCreateEvent ''integrity_level'' (bytes32 0xFFFFFFFF) evt d;
              sz = of_nat (size_of ProcessCreateEvent)
          in submit_event K evt sz d)"

definition process_notify ::
  "kernel \<Rightarrow> ptr \<Rightarrow> u64 \<Rightarrow> ps_create_notify_info option \<Rightarrow> driver \<Rightarrow> driver" where
  "process_notify K process process_id create_info d =
    (let pid = ucast process_id
     in case create_info of
          None \<Rightarrow> emit_process_exit K pid process d
        | Some info \<Rightarrow> emit_process_create K pid info d)"

section \<open>The string copy\<close>

lemma copy_unicode_string_into_copies:
  assumes "\<not> skips src" "src = Some s" "Buffer s = Some us" "Length s \<noteq> 0"
      "take (min (unat (Length s div 2)) (cap - 1)) us = copied cap src"
      "min (unat (Length s div 2)) (cap - 1) = length (copied cap src)"
      "length (copied cap src) < unat (Length s div 2) \<longleftrightarrow> truncated cap src"
  shows "copy_unicode_string_into src lay dst cap len_dst evt d =
    write_field lay len_dst (bytes16 (of_nat (length (copied cap src)))) evt
      (write_field lay dst (bytes_of_units (copied cap src)) evt
        (log_call (ReadSource (length (copied cap src)) (length us))
          (if truncated cap src then bump_trunc d else d)))"
  unfolding copy_unicode_string_into_def Let_def
  using assms(1,3-) by (simp only: assms(2) option.case if_False)

lemma copy_unicode_string_into_skips:
  "skips src \<Longrightarrow> copy_unicode_string_into src lay dst cap len_dst evt d = d"
  by (auto simp: copy_unicode_string_into_def skips_def split: option.splits)

lemma fills_copy_unicode_string_into:
  assumes "fills p n d d'" "n = size_of lay" "pus_valid src"
    and "dst \<in> fst ` set lay" "2 * (cap - 1) \<le> field_width lay dst"
    and "len_dst \<in> fst ` set lay" "2 \<le> field_width lay len_dst"
  shows "fills p n d (copy_unicode_string_into src lay dst cap len_dst p d')"
  using assms(3)
proof (cases rule: copy_cases [where cap = cap])
  case (copy s us)
  have "length (bytes_of_units (copied cap src)) \<le> field_width lay dst"
    using assms(5) length_copied_le [of cap src] by simp
  with copy assms show ?thesis
    by (auto simp: copy_unicode_string_into_copies
        intro!: fills_write_field fills_read_source fills_bump_trunc)
qed (use assms(1) in \<open>simp add: copy_unicode_string_into_skips\<close>)

lemma heap_copy_unicode_string_into:
  assumes "pus_valid src"
  shows "heap (copy_unicode_string_into src lay dst cap len_dst p d) p =
    put_string (field_off lay dst) (field_off lay len_dst) cap src (heap d p)"
  using assms
proof (cases rule: copy_cases [where cap = cap])
  case (copy s us)
  then show ?thesis
    by (simp add: copy_unicode_string_into_copies put_string_def)
qed (simp add: copy_unicode_string_into_skips put_string_def)

lemma trunc_copy_unicode_string_into:
  assumes "pus_valid src"
  shows "TRUNC_COUNT (copy_unicode_string_into src lay dst cap len_dst p d) =
    TRUNC_COUNT d + (if truncated cap src then 1 else 0)"
  using assms
proof (cases rule: copy_cases [where cap = cap])
  case (copy s us)
  then show ?thesis
    by (simp add: copy_unicode_string_into_copies write_field_def write_mem_def log_call_def
        bump_trunc_def)
qed (simp add: copy_unicode_string_into_skips)

section \<open>As instances of the skeleton\<close>

definition fill_process_exit :: "kernel \<Rightarrow> u32 \<Rightarrow> ptr \<Rightarrow> ptr \<Rightarrow> driver \<Rightarrow> driver" where
  "fill_process_exit K pid process evt d =
    (let d = write_field ProcessExitEvent ''process_id'' (bytes32 pid) evt d;
         exit_code = (if process = null_ptr then 0
                      else ret_PsGetProcessExitStatus K (trace d) process)
     in write_field ProcessExitEvent ''exit_code'' (bytes32 exit_code) evt d)"

definition fill_process_create :: "u32 \<Rightarrow> ps_create_notify_info \<Rightarrow> ptr \<Rightarrow> driver \<Rightarrow> driver" where
  "fill_process_create pid info evt d =
    write_field ProcessCreateEvent ''integrity_level'' (bytes32 0xFFFFFFFF) evt
     (copy_unicode_string_into (CommandLine info)
        ProcessCreateEvent ''command_line'' COMMAND_LINE_MAX ''command_line_len'' evt
      (copy_unicode_string_into (ImageFileName info)
         ProcessCreateEvent ''image_path'' IMAGE_PATH_MAX ''image_path_len'' evt
       (write_field ProcessCreateEvent ''creating_process_id''
          (bytes32 (ucast (CreatingUniqueProcess info))) evt
        (write_field ProcessCreateEvent ''parent_process_id''
           (bytes32 (ucast (ParentProcessId info))) evt
         (write_field ProcessCreateEvent ''process_id'' (bytes32 pid) evt d)))))"

definition create_info_valid :: "ps_create_notify_info \<Rightarrow> bool" where
  "create_info_valid info \<longleftrightarrow> pus_valid (ImageFileName info) \<and> pus_valid (CommandLine info)"

lemma emit_process_exit_eq:
  "emit_process_exit K pid process =
    emit_event K ProcessExitEvent ProcessExit (fill_process_exit K pid process)"
  by (rule ext) (simp add: emit_process_exit_def emit_event_def fill_process_exit_def Let_def split_beta)

lemma emit_process_create_eq:
  "emit_process_create K pid info =
    emit_event K ProcessCreateEvent ProcessCreate (fill_process_create pid info)"
  by (rule ext)
    (simp add: emit_process_create_def emit_event_def fill_process_create_def Let_def split_beta)

interpretation process_exit: event_filler ProcessExitEvent True "fill_process_exit K pid process"
  for K pid process
proof unfold_locales
  show "fills p (size_of ProcessExitEvent) d (fill_process_exit K pid process p d)" for p d
    unfolding fill_process_exit_def Let_def
    by (intro fills_write_field fills_refl refl) (simp_all add: ProcessExitEvent_def)
qed simp_all

interpretation process_create:
  event_filler ProcessCreateEvent "create_info_valid info" "fill_process_create pid info"
  for pid info
proof unfold_locales
  show "fills p (size_of ProcessCreateEvent) d (fill_process_create pid info p d)"
    if "create_info_valid info" for p d
    unfolding fill_process_create_def
    by (intro fills_write_field fills_copy_unicode_string_into fills_refl refl)
      (use that in \<open>simp_all add: create_info_valid_def\<close>,
       simp_all add: ProcessCreateEvent_def max_defs)
qed simp_all

definition process_info_valid :: "ps_create_notify_info option \<Rightarrow> bool" where
  "process_info_valid ci \<longleftrightarrow> (case ci of None \<Rightarrow> True | Some info \<Rightarrow> create_info_valid info)"

definition process_ops ::
  "kernel \<Rightarrow> ptr \<Rightarrow> u64 \<Rightarrow> ps_create_notify_info option \<Rightarrow> driver \<Rightarrow> chan_op list" where
  "process_ops K process process_id ci d =
    (case ci of
       None \<Rightarrow> emit_ops K ProcessExitEvent ProcessExit
         (fill_process_exit K (ucast process_id) process) d
     | Some info \<Rightarrow> emit_ops K ProcessCreateEvent ProcessCreate
         (fill_process_create (ucast process_id) info) d)"

lemma process_notify_owns:
  "owns None bs iq d \<Longrightarrow> pool_fresh K \<Longrightarrow> process_info_valid ci \<Longrightarrow>
   owns None bs iq (process_notify K process pid ci d)"
  by (simp add: process_notify_def process_info_valid_def emit_process_create_eq emit_process_exit_eq
      process_create.emit_owns process_exit.emit_owns split: option.splits)

lemma process_notify_simulates:
  "owns None bs iq d \<Longrightarrow> pool_fresh K \<Longrightarrow> process_info_valid ci \<Longrightarrow>
   simulates (process_ops K process pid ci d) d (process_notify K process pid ci d)"
  by (simp add: process_notify_def process_ops_def process_info_valid_def emit_process_create_eq
      emit_process_exit_eq process_create.emit_simulates process_exit.emit_simulates
      split: option.splits)

section \<open>What a process notification reports\<close>

lemma process_exit_block:
  assumes "heap d p = write_at 0 (header_bytes h) (zero_block 32 b0)"
  shows "read_header (heap (fill_process_exit K pid process p d) p) = h"
    "get_u32 ProcessExitEvent ''process_id'' (heap (fill_process_exit K pid process p d) p) = pid"
    "get_u32 ProcessExitEvent ''exit_code'' (heap (fill_process_exit K pid process p d) p) =
      (if process = null_ptr then 0
       else ret_PsGetProcessExitStatus K (trace d @ [WriteMem p 24 4]) process)"
  using assms by (simp_all add: fill_process_exit_def ProcessExitEvent_def get_defs Let_def
      EventHeader_def read_header_write)

lemma heap_fill_process_create:
  assumes "create_info_valid info"
  shows "heap (fill_process_create pid info p d) p =
    write_at 10668 (bytes32 0xFFFFFFFF)
      (put_string 1062 9254 4096 (CommandLine info)
        (put_string 36 1060 512 (ImageFileName info)
          (write_at 32 (bytes32 (ucast (CreatingUniqueProcess info)))
            (write_at 28 (bytes32 (ucast (ParentProcessId info)))
              (write_at 24 (bytes32 pid) (heap d p))))))"
  using assms
  by (simp add: fill_process_create_def create_info_valid_def heap_copy_unicode_string_into)
    (simp add: ProcessCreateEvent_def EventHeader_def max_defs)

lemma process_create_block:
  assumes "heap d p = write_at 0 (header_bytes h) (zero_block 10672 b0)" "create_info_valid info"
    and b: "b = heap (fill_process_create pid info p d) p"
  shows "read_header b = h"
    "get_u32 ProcessCreateEvent ''process_id'' b = pid"
    "get_u32 ProcessCreateEvent ''parent_process_id'' b = ucast (ParentProcessId info)"
    "get_u32 ProcessCreateEvent ''creating_process_id'' b = ucast (CreatingUniqueProcess info)"
    "get_units ProcessCreateEvent ''image_path'' b =
      padded IMAGE_PATH_MAX (copied IMAGE_PATH_MAX (ImageFileName info))"
    "unat (get_u16 ProcessCreateEvent ''image_path_len'' b) =
      length (copied IMAGE_PATH_MAX (ImageFileName info))"
    "get_units ProcessCreateEvent ''command_line'' b =
      padded COMMAND_LINE_MAX (copied COMMAND_LINE_MAX (CommandLine info))"
    "unat (get_u16 ProcessCreateEvent ''command_line_len'' b) =
      length (copied COMMAND_LINE_MAX (CommandLine info))"
    "get_u16 ProcessCreateEvent ''parent_image_path_len'' b = 0"
    "get_u16 ProcessCreateEvent ''user_sid_len'' b = 0"
    "get_u32 ProcessCreateEvent ''integrity_level'' b = 0xFFFFFFFF"
    "get_units ProcessCreateEvent ''parent_image_path'' b = replicate IMAGE_PATH_MAX 0"
    "get_units ProcessCreateEvent ''user_sid'' b = replicate USER_SID_MAX 0"
proof -
  note b' = b [unfolded heap_fill_process_create [OF assms(2)] assms(1)]
  note defs = ProcessCreateEvent_def EventHeader_def get_defs max_defs b'
  show "read_header b = h"
    "get_u32 ProcessCreateEvent ''process_id'' b = pid"
    "get_u32 ProcessCreateEvent ''parent_process_id'' b = ucast (ParentProcessId info)"
    "get_u32 ProcessCreateEvent ''creating_process_id'' b = ucast (CreatingUniqueProcess info)"
    "get_u16 ProcessCreateEvent ''parent_image_path_len'' b = 0"
    "get_u16 ProcessCreateEvent ''user_sid_len'' b = 0"
    "get_u32 ProcessCreateEvent ''integrity_level'' b = 0xFFFFFFFF"
    by (simp_all add: defs read_header_write)
  show "get_units ProcessCreateEvent ''parent_image_path'' b = replicate IMAGE_PATH_MAX 0"
    "get_units ProcessCreateEvent ''user_sid'' b = replicate USER_SID_MAX 0"
    by (simp_all add: defs)
  show "get_units ProcessCreateEvent ''image_path'' b =
      padded IMAGE_PATH_MAX (copied IMAGE_PATH_MAX (ImageFileName info))"
    "get_units ProcessCreateEvent ''command_line'' b =
      padded COMMAND_LINE_MAX (copied COMMAND_LINE_MAX (CommandLine info))"
    by (simp_all add: defs read_put_string)
  show "unat (get_u16 ProcessCreateEvent ''image_path_len'' b) =
      length (copied IMAGE_PATH_MAX (ImageFileName info))"
    "unat (get_u16 ProcessCreateEvent ''command_line_len'' b) =
      length (copied COMMAND_LINE_MAX (CommandLine info))"
    by (simp_all add: defs read_put_string_len length_copied_u16)
qed

section \<open>Properties\<close>

text \<open>
  C27. A process-creation notification that gets a pool block submits one event with the stamped
  header, the low halves of the three process ids, the image path and the command line (each cut
  off at its capacity less one, zero-padded, with its length). The parent's path and the user's SID, which the
  module's documentation announces as resolved, are all zeroes with length 0, and the integrity level
  is marked as unresolved, whatever the process.
\<close>

theorem process_create_reported:
  assumes "driver_ok d" "pool_fresh K" "create_info_valid info"
    and "fst (alloc_event_for K ProcessCreateEvent (event_type_u16 ProcessCreate) d) \<noteq> null_ptr"
  shows "\<exists>b. simulates [Stamp, Submit (read_at 0 10672 b)] d (process_notify K process process_id (Some info) d) \<and>
    read_header b = stamped_header K ProcessCreateEvent (event_type_u16 ProcessCreate) d \<and>
    get_u32 ProcessCreateEvent ''process_id'' b = ucast process_id \<and>
    get_u32 ProcessCreateEvent ''parent_process_id'' b = ucast (ParentProcessId info) \<and>
    get_u32 ProcessCreateEvent ''creating_process_id'' b = ucast (CreatingUniqueProcess info) \<and>
    get_units ProcessCreateEvent ''image_path'' b =
      padded IMAGE_PATH_MAX (copied IMAGE_PATH_MAX (ImageFileName info)) \<and>
    unat (get_u16 ProcessCreateEvent ''image_path_len'' b) =
      length (copied IMAGE_PATH_MAX (ImageFileName info)) \<and>
    get_units ProcessCreateEvent ''command_line'' b =
      padded COMMAND_LINE_MAX (copied COMMAND_LINE_MAX (CommandLine info)) \<and>
    unat (get_u16 ProcessCreateEvent ''command_line_len'' b) =
      length (copied COMMAND_LINE_MAX (CommandLine info)) \<and>
    get_u16 ProcessCreateEvent ''parent_image_path_len'' b = 0 \<and>
    get_u16 ProcessCreateEvent ''user_sid_len'' b = 0 \<and>
    get_u32 ProcessCreateEvent ''integrity_level'' b = 0xFFFFFFFF \<and>
    get_units ProcessCreateEvent ''parent_image_path'' b = replicate IMAGE_PATH_MAX 0 \<and>
    get_units ProcessCreateEvent ''user_sid'' b = replicate USER_SID_MAX 0"
proof -
  obtain p d1 b0 where s:
    "simulates [Stamp, Submit (read_at 0 (size_of ProcessCreateEvent)
       (heap (fill_process_create (ucast process_id) info p d1) p))] d
       (emit_event K ProcessCreateEvent ProcessCreate (fill_process_create (ucast process_id) info) d)"
    and h: "heap d1 p = write_at 0
       (header_bytes (stamped_header K ProcessCreateEvent (event_type_u16 ProcessCreate) d))
       (zero_block (size_of ProcessCreateEvent) b0)"
    by (rule process_create.emit_content [OF assms(1) [unfolded driver_ok_def] assms(2-4)])
  note c = process_create_block [OF h [unfolded size_of_simps] assms(3) refl, of "ucast process_id"]
  show ?thesis
    using s c by (intro exI [of _ "heap (fill_process_create (ucast process_id) info p d1) p"])
      (simp add: process_notify_def emit_process_create_eq)
qed

theorem process_create_reported_witness:
  "\<exists>b. simulates [Stamp, Submit (read_at 0 10672 b)] sample_driver
      (process_notify sample_kernel 5 7 (Some \<lparr>ParentProcessId = 3, CreatingUniqueProcess = 4,
         ImageFileName = Some \<lparr>Length = 4, Buffer = Some [0x41, 0x42, 0x43]\<rparr>, CommandLine = None\<rparr>) sample_driver) \<and>
    get_u32 ProcessCreateEvent ''parent_process_id'' b = 3 \<and>
    take 3 (get_units ProcessCreateEvent ''image_path'' b) = [0x41, 0x42, 0] \<and>
    unat (get_u16 ProcessCreateEvent ''image_path_len'' b) = 2 \<and>
    unat (get_u16 ProcessCreateEvent ''command_line_len'' b) = 0"
proof -
  let ?i = "\<lparr>ParentProcessId = 3, CreatingUniqueProcess = 4,
    ImageFileName = Some \<lparr>Length = 4, Buffer = Some [0x41, 0x42, 0x43]\<rparr>, CommandLine = None\<rparr>"
  have "create_info_valid ?i"
    by (simp add: create_info_valid_def pus_valid_def us_valid_def)
  from process_create_reported [OF sample_driver_ok sample_pool_fresh(1) this sample_alloc(1), of 5 7]
  show ?thesis
    by (elim exE conjE, intro exI conjI)
      (assumption | simp add: copied_def us_units_def padded_def max_defs)+
qed

text \<open>
  C28. A process-exit notification that gets a pool block submits one event with the stamped header,
  the low half of the process id and the exit status of the process object as read once the id has
  been written, or zero when there is no object.
\<close>

theorem process_exit_reported:
  assumes "driver_ok d" "pool_fresh K"
    and "alloc_event_for K ProcessExitEvent (event_type_u16 ProcessExit) d = (evt, d1)" "evt \<noteq> null_ptr"
  shows "\<exists>b. simulates [Stamp, Submit (read_at 0 32 b)] d (process_notify K process process_id None d) \<and>
    read_header b = stamped_header K ProcessExitEvent (event_type_u16 ProcessExit) d \<and>
    get_u32 ProcessExitEvent ''process_id'' b = ucast process_id \<and>
    get_u32 ProcessExitEvent ''exit_code'' b =
      (if process = null_ptr then 0
       else ret_PsGetProcessExitStatus K (trace d1 @ [WriteMem evt 24 4]) process)"
proof -
  have p: "fst (alloc_event_for K ProcessExitEvent (event_type_u16 ProcessExit) d) \<noteq> null_ptr"
    using assms(3,4) by simp
  obtain p d2 b0 where
    s: "simulates [Stamp, Submit (read_at 0 (size_of ProcessExitEvent)
       (heap (fill_process_exit K (ucast process_id) process p d2) p))] d
       (emit_event K ProcessExitEvent ProcessExit (fill_process_exit K (ucast process_id) process) d)"
    and h: "heap d2 p = write_at 0
       (header_bytes (stamped_header K ProcessExitEvent (event_type_u16 ProcessExit) d))
       (zero_block (size_of ProcessExitEvent) b0)"
    and e: "d2 = snd (alloc_event_for K ProcessExitEvent (event_type_u16 ProcessExit) d)"
      "p = fst (alloc_event_for K ProcessExitEvent (event_type_u16 ProcessExit) d)"
    by (rule process_exit.emit_content [OF assms(1) [unfolded driver_ok_def] assms(2) TrueI p])
  have "p = evt" "d2 = d1" using e assms(3) by simp_all
  with s process_exit_block [OF h [unfolded size_of_simps], of K "ucast process_id" process]
  show ?thesis
    by (intro exI [of _ "heap (fill_process_exit K (ucast process_id) process p d2) p"])
      (simp add: process_notify_def emit_process_exit_eq)
qed

theorem process_exit_reported_witness:
  "\<exists>b. simulates [Stamp, Submit (read_at 0 32 b)] sample_driver (process_notify sample_kernel 5 7 None sample_driver) \<and>
    get_u32 ProcessExitEvent ''process_id'' b = 7 \<and> get_u32 ProcessExitEvent ''exit_code'' b = 1"
  using process_exit_reported [OF _ _ prod.collapse [symmetric], of sample_driver sample_kernel 5 7] by auto

text \<open>
  C29. The bounded string copy of the process callback: it writes the first \<open>cap - 1\<close> units of the
  source at most, so never the last unit of the field, writes their number beside it, counts a
  truncation exactly when the source was longer than that, and touches nothing else.
\<close>

theorem copy_unicode_string_into_correct:
  assumes "pus_valid src" "dst \<in> fst ` set lay" "2 * (cap - 1) \<le> field_width lay dst"
    and "len_dst \<in> fst ` set lay" "2 \<le> field_width lay len_dst"
  shows "fills p (size_of lay) d (copy_unicode_string_into src lay dst cap len_dst p d) \<and>
    heap (copy_unicode_string_into src lay dst cap len_dst p d) p =
      put_string (field_off lay dst) (field_off lay len_dst) cap src (heap d p) \<and>
    length (copied cap src) = min (length (us_units src)) (cap - 1) \<and>
    TRUNC_COUNT (copy_unicode_string_into src lay dst cap len_dst p d) =
      TRUNC_COUNT d + (if cap - 1 < length (us_units src) then 1 else 0)"
  using assms fills_copy_unicode_string_into [OF fills_refl refl assms(1-5)]
  by (simp add: heap_copy_unicode_string_into trunc_copy_unicode_string_into truncated_def copied_def
      min.commute)

theorem copy_unicode_string_into_correct_witness:
  "TRUNC_COUNT (copy_unicode_string_into (Some \<lparr>Length = 1024, Buffer = Some (replicate 512 0x41)\<rparr>)
      ImageLoadEvent ''image_path'' 512 ''image_path_len'' 1 sample_driver) = 1 \<and>
   fills 1 1070 sample_driver (copy_unicode_string_into
      (Some \<lparr>Length = 1024, Buffer = Some (replicate 512 0x41)\<rparr>)
      ImageLoadEvent ''image_path'' 512 ''image_path_len'' 1 sample_driver)"
proof -
  let ?s = "Some \<lparr>Length = 1024, Buffer = Some (replicate 512 0x41)\<rparr>"
  have a: "pus_valid ?s" by (simp add: pus_valid_def us_valid_def)
  have b: "''image_path'' \<in> fst ` set ImageLoadEvent" "2 * (512 - 1) \<le> field_width ImageLoadEvent ''image_path''"
    "''image_path_len'' \<in> fst ` set ImageLoadEvent" "2 \<le> field_width ImageLoadEvent ''image_path_len''"
    by (simp_all add: ImageLoadEvent_def max_defs)
  show ?thesis
    using copy_unicode_string_into_correct [OF a b, of 1 sample_driver]
    by (simp add: us_units_def) (simp add: sample_driver_def initial_driver_def)
qed

end
