(* ===== verification/Edr_Image.thy ===== *)
theory Edr_Image
  imports Edr_Process "HOL-Library.Sublist"
begin

text \<open>
  Image-load notifications (\<open>src/src/callbacks/image.rs\<close>). The copy of the path is written out in
  the emitter, as in the code; it is the same copy as the process callback's, which is what the
  proofs use.
\<close>

section \<open>Operations\<close>

record image_info =
  ImageBase :: u64
  ImageSize :: u64

definition emit_image_load ::
  "kernel \<Rightarrow> u32 \<Rightarrow> unicode_string option \<Rightarrow> image_info option \<Rightarrow> driver \<Rightarrow> driver" where
  "emit_image_load K pid full_image_name image_info d =
    (let (evt, d) = alloc_event_for K ImageLoadEvent (event_type_u16 ImageLoad) d
     in if evt = null_ptr then d
        else
          let d = write_field ImageLoadEvent ''process_id'' (bytes32 pid) evt d;
              d = (case image_info of
                     None \<Rightarrow> d
                   | Some info \<Rightarrow>
                       let d = write_field ImageLoadEvent ''image_base'' (bytes64 (ImageBase info)) evt d
                       in write_field ImageLoadEvent ''image_size'' (bytes64 (ImageSize info)) evt d);
              d = (case full_image_name of
                     None \<Rightarrow> d
                   | Some img \<Rightarrow>
                       (case Buffer img of
                          None \<Rightarrow> d
                        | Some units \<Rightarrow>
                            if Length img > 0 then
                              let chars = unat (Length img div 2);
                                  copy = min chars (IMAGE_PATH_MAX - 1);
                                  d = (if chars > copy then bump_trunc d else d);
                                  d = log_call (ReadSource copy (length units)) d;
                                  d = write_field ImageLoadEvent ''image_path''
                                        (bytes_of_units (take copy units)) evt d
                              in write_field ImageLoadEvent ''image_path_len''
                                   (bytes16 (of_nat copy)) evt d
                            else d));
              sz = of_nat (size_of ImageLoadEvent)
          in submit_event K evt sz d)"

definition image_load_notify ::
  "kernel \<Rightarrow> unicode_string option \<Rightarrow> u64 \<Rightarrow> image_info option \<Rightarrow> driver \<Rightarrow> driver" where
  "image_load_notify K full_image_name process_id image_info d =
    (let pid = ucast process_id in emit_image_load K pid full_image_name image_info d)"

section \<open>As an instance of the skeleton\<close>

definition fill_image_info :: "image_info option \<Rightarrow> ptr \<Rightarrow> driver \<Rightarrow> driver" where
  "fill_image_info info evt d =
    (case info of
       None \<Rightarrow> d
     | Some info \<Rightarrow>
         write_field ImageLoadEvent ''image_size'' (bytes64 (ImageSize info)) evt
           (write_field ImageLoadEvent ''image_base'' (bytes64 (ImageBase info)) evt d))"

definition fill_image_load ::
  "u32 \<Rightarrow> unicode_string option \<Rightarrow> image_info option \<Rightarrow> ptr \<Rightarrow> driver \<Rightarrow> driver" where
  "fill_image_load pid name info evt d =
    copy_unicode_string_into name ImageLoadEvent ''image_path'' IMAGE_PATH_MAX ''image_path_len'' evt
      (fill_image_info info evt (write_field ImageLoadEvent ''process_id'' (bytes32 pid) evt d))"

lemma emit_image_load_eq:
  "emit_image_load K pid name info =
    emit_event K ImageLoadEvent ImageLoad (fill_image_load pid name info)"
proof (rule ext)
  show "emit_image_load K pid name info d =
      emit_event K ImageLoadEvent ImageLoad (fill_image_load pid name info) d" for d
    unfolding emit_image_load_def emit_event_def fill_image_load_def fill_image_info_def
      copy_unicode_string_into_def Let_def split_beta
    by (cases name; cases "Buffer (the name)"; cases info; cases "Length (the name) = 0")
      (simp_all add: word_neq_0_conv)
qed

interpretation image_load: event_filler ImageLoadEvent "pus_valid name" "fill_image_load pid name info"
  for pid name info
proof unfold_locales
  show "fills p (size_of ImageLoadEvent) d (fill_image_load pid name info p d)" if "pus_valid name" for p d
  proof -
    have "fills p (size_of ImageLoadEvent) d
        (fill_image_info info p (write_field ImageLoadEvent ''process_id'' (bytes32 pid) p d))"
      unfolding fill_image_info_def
      by (cases info) (auto simp: ImageLoadEvent_def intro!: fills_write_field)
    then show ?thesis
      unfolding fill_image_load_def
      by (intro fills_copy_unicode_string_into refl)
        (use that in \<open>simp_all add: ImageLoadEvent_def max_defs\<close>)
  qed
qed simp_all

lemma image_load_notify_owns:
  "owns None bs iq d \<Longrightarrow> pool_fresh K \<Longrightarrow> pus_valid name \<Longrightarrow>
   owns None bs iq (image_load_notify K name pid info d)"
  by (simp add: image_load_notify_def emit_image_load_eq image_load.emit_owns)

definition image_ops ::
  "kernel \<Rightarrow> unicode_string option \<Rightarrow> u64 \<Rightarrow> image_info option \<Rightarrow> driver \<Rightarrow> chan_op list" where
  "image_ops K name process_id info d =
    emit_ops K ImageLoadEvent ImageLoad (fill_image_load (ucast process_id) name info) d"

lemma image_load_notify_simulates:
  "owns None bs iq d \<Longrightarrow> pool_fresh K \<Longrightarrow> pus_valid name \<Longrightarrow>
   simulates (image_ops K name pid info d) d (image_load_notify K name pid info d)"
  by (simp add: image_load_notify_def image_ops_def emit_image_load_eq image_load.emit_simulates)

section \<open>What an image-load notification reports\<close>

definition put_image_info :: "image_info option \<Rightarrow> block \<Rightarrow> block" where
  "put_image_info info b =
    (case info of None \<Rightarrow> b
     | Some info \<Rightarrow> write_at 36 (bytes64 (ImageSize info)) (write_at 28 (bytes64 (ImageBase info)) b))"

lemma heap_fill_image_load:
  assumes "pus_valid name"
  shows "heap (fill_image_load pid name info p d) p =
    put_string 44 1068 512 name (put_image_info info (write_at 24 (bytes32 pid) (heap d p)))"
  using assms
  by (cases info)
    (simp_all add: fill_image_load_def fill_image_info_def put_image_info_def
      heap_copy_unicode_string_into, simp_all add: ImageLoadEvent_def EventHeader_def max_defs)

lemma image_load_block:
  assumes "heap d p = write_at 0 (header_bytes h) (zero_block 1070 b0)" "pus_valid name"
    and b: "b = heap (fill_image_load pid name info p d) p"
  shows "read_header b = h"
    "get_u32 ImageLoadEvent ''process_id'' b = pid"
    "get_u64 ImageLoadEvent ''image_base'' b = (case info of None \<Rightarrow> 0 | Some i \<Rightarrow> ImageBase i)"
    "get_u64 ImageLoadEvent ''image_size'' b = (case info of None \<Rightarrow> 0 | Some i \<Rightarrow> ImageSize i)"
    "get_units ImageLoadEvent ''image_path'' b = padded IMAGE_PATH_MAX (copied IMAGE_PATH_MAX name)"
    "unat (get_u16 ImageLoadEvent ''image_path_len'' b) = length (copied IMAGE_PATH_MAX name)"
proof -
  note b' = b [unfolded heap_fill_image_load [OF assms(2)] assms(1)]
  note defs = ImageLoadEvent_def EventHeader_def get_defs max_defs b' put_image_info_def
  show "read_header b = h" "get_u32 ImageLoadEvent ''process_id'' b = pid"
    "get_u64 ImageLoadEvent ''image_base'' b = (case info of None \<Rightarrow> 0 | Some i \<Rightarrow> ImageBase i)"
    "get_u64 ImageLoadEvent ''image_size'' b = (case info of None \<Rightarrow> 0 | Some i \<Rightarrow> ImageSize i)"
    by (cases info; simp add: defs read_header_write)+
  show "get_units ImageLoadEvent ''image_path'' b = padded IMAGE_PATH_MAX (copied IMAGE_PATH_MAX name)"
    by (cases info) (simp_all add: defs read_put_string)
  show "unat (get_u16 ImageLoadEvent ''image_path_len'' b) = length (copied IMAGE_PATH_MAX name)"
    by (cases info) (simp_all add: defs read_put_string_len length_copied_u16)
qed

section \<open>Properties\<close>

text \<open>
  C30. An image-load notification that gets a pool block submits one event with the stamped header,
  the process id, the base and size of the image (zero when there is no image information) and the
  path, cut off at 511 units and zero-padded, with its length.
\<close>

theorem image_load_reported:
  assumes "driver_ok d" "pool_fresh K" "pus_valid name"
    and "fst (alloc_event_for K ImageLoadEvent (event_type_u16 ImageLoad) d) \<noteq> null_ptr"
  shows "\<exists>b. simulates [Stamp, Submit (read_at 0 1070 b)] d (image_load_notify K name process_id info d) \<and>
    read_header b = stamped_header K ImageLoadEvent (event_type_u16 ImageLoad) d \<and>
    get_u32 ImageLoadEvent ''process_id'' b = ucast process_id \<and>
    get_u64 ImageLoadEvent ''image_base'' b = (case info of None \<Rightarrow> 0 | Some i \<Rightarrow> ImageBase i) \<and>
    get_u64 ImageLoadEvent ''image_size'' b = (case info of None \<Rightarrow> 0 | Some i \<Rightarrow> ImageSize i) \<and>
    get_units ImageLoadEvent ''image_path'' b = padded IMAGE_PATH_MAX (copied IMAGE_PATH_MAX name) \<and>
    unat (get_u16 ImageLoadEvent ''image_path_len'' b) = length (copied IMAGE_PATH_MAX name)"
proof -
  obtain p d1 b0 where s:
    "simulates [Stamp, Submit (read_at 0 (size_of ImageLoadEvent)
       (heap (fill_image_load (ucast process_id) name info p d1) p))] d
       (emit_event K ImageLoadEvent ImageLoad (fill_image_load (ucast process_id) name info) d)"
    and h: "heap d1 p = write_at 0
       (header_bytes (stamped_header K ImageLoadEvent (event_type_u16 ImageLoad) d))
       (zero_block (size_of ImageLoadEvent) b0)"
    by (rule image_load.emit_content [OF assms(1) [unfolded driver_ok_def] assms(2-4)])
  note c = image_load_block [OF h [unfolded size_of_simps] assms(3) refl, of "ucast process_id" info]
  show ?thesis
    using s c by (intro exI [of _ "heap (fill_image_load (ucast process_id) name info p d1) p"])
      (simp add: image_load_notify_def emit_image_load_eq)
qed

theorem image_load_reported_witness:
  "\<exists>b. simulates [Stamp, Submit (read_at 0 1070 b)] sample_driver (image_load_notify sample_kernel
      (Some \<lparr>Length = 4, Buffer = Some [0x41, 0x42]\<rparr>) 7 (Some \<lparr>ImageBase = 0x1000, ImageSize = 0x200\<rparr>) sample_driver) \<and>
    get_u64 ImageLoadEvent ''image_base'' b = 0x1000 \<and>
    take 3 (get_units ImageLoadEvent ''image_path'' b) = [0x41, 0x42, 0]"
proof -
  let ?s = "Some \<lparr>Length = 4, Buffer = Some [0x41, 0x42]\<rparr>"
  have "pus_valid ?s" by (simp add: pus_valid_def us_valid_def)
  from image_load_reported [OF sample_driver_ok sample_pool_fresh(1) this sample_alloc(1), of 7
      "Some \<lparr>ImageBase = 0x1000, ImageSize = 0x200\<rparr>"]
  show ?thesis
    by (elim exE conjE, intro exI conjI)
      (assumption | simp add: copied_def us_units_def padded_def max_defs)+
qed

text \<open>
  C40. A path of exactly 511 units and any longer path with the same beginning produce the same path
  and length fields: a consumer cannot tell from the event itself that the path was cut off.
\<close>

theorem truncation_not_visible:
  assumes "pus_valid (Some s)" "pus_valid (Some t)"
    and "length (us_units (Some s)) = IMAGE_PATH_MAX - 1"
    and "prefix (us_units (Some s)) (us_units (Some t))"
  shows "heap (copy_unicode_string_into (Some s) ImageLoadEvent ''image_path'' IMAGE_PATH_MAX ''image_path_len'' p d) p =
    heap (copy_unicode_string_into (Some t) ImageLoadEvent ''image_path'' IMAGE_PATH_MAX ''image_path_len'' p d) p"
proof -
  have c: "copied IMAGE_PATH_MAX (Some s) = copied IMAGE_PATH_MAX (Some t)"
    using assms(3,4) by (auto simp: copied_def prefix_def)
  have "us_units (Some s) \<noteq> []" using assms(3) by (auto simp: IMAGE_PATH_MAX_def)
  moreover have "us_units (Some t) \<noteq> []" using assms(3,4) by (auto simp: IMAGE_PATH_MAX_def)
  ultimately have "\<not> skips (Some s)" "\<not> skips (Some t)"
    by (auto simp: skips_def us_units_def split: option.splits)
  then show ?thesis using assms(1,2) c by (simp add: heap_copy_unicode_string_into put_string_def)
qed

theorem truncation_not_visible_witness:
  "heap (copy_unicode_string_into (Some \<lparr>Length = 1022, Buffer = Some (replicate 511 0x41)\<rparr>)
      ImageLoadEvent ''image_path'' IMAGE_PATH_MAX ''image_path_len'' 1 sample_driver) 1 =
   heap (copy_unicode_string_into (Some \<lparr>Length = 1200, Buffer = Some (replicate 600 0x41)\<rparr>)
      ImageLoadEvent ''image_path'' IMAGE_PATH_MAX ''image_path_len'' 1 sample_driver) 1"
proof (rule truncation_not_visible)
  have "replicate 600 (0x41 :: u16) = replicate 511 0x41 @ replicate 89 0x41"
    unfolding replicate_add [symmetric] by simp
  then show "prefix (us_units (Some \<lparr>Length = 1022, Buffer = Some (replicate 511 0x41)\<rparr>))
      (us_units (Some \<lparr>Length = 1200, Buffer = Some (replicate 600 0x41)\<rparr>))"
    by (simp add: us_units_def)
qed (simp_all add: pus_valid_def us_valid_def us_units_def IMAGE_PATH_MAX_def)

end
