(* ===== verification/Edr_Object.thy ===== *)
theory Edr_Object
  imports Edr_Sample
begin

text \<open>Process-handle notifications (\<open>src/src/callbacks/object.rs\<close>): the filter and the emitter.\<close>

section \<open>Operations\<close>

definition PROCESS_TERMINATE :: u32 where "PROCESS_TERMINATE = 0x0001"
definition PROCESS_CREATE_THREAD :: u32 where "PROCESS_CREATE_THREAD = 0x0002"
definition PROCESS_VM_OPERATION :: u32 where "PROCESS_VM_OPERATION = 0x0008"
definition PROCESS_VM_READ :: u32 where "PROCESS_VM_READ = 0x0010"
definition PROCESS_VM_WRITE :: u32 where "PROCESS_VM_WRITE = 0x0020"
definition PROCESS_DUP_HANDLE :: u32 where "PROCESS_DUP_HANDLE = 0x0040"
definition PROCESS_SUSPEND_RESUME :: u32 where "PROCESS_SUSPEND_RESUME = 0x0800"

definition DANGEROUS_PROCESS_MASK :: u32 where
  "DANGEROUS_PROCESS_MASK =
    PROCESS_TERMINATE OR PROCESS_CREATE_THREAD OR PROCESS_VM_OPERATION OR PROCESS_VM_READ OR
    PROCESS_VM_WRITE OR PROCESS_DUP_HANDLE OR PROCESS_SUSPEND_RESUME"

lemmas mask_defs = DANGEROUS_PROCESS_MASK_def PROCESS_TERMINATE_def PROCESS_CREATE_THREAD_def
  PROCESS_VM_OPERATION_def PROCESS_VM_READ_def PROCESS_VM_WRITE_def PROCESS_DUP_HANDLE_def
  PROCESS_SUSPEND_RESUME_def

definition OB_PREOP_SUCCESS :: u32 where "OB_PREOP_SUCCESS = 0"

text \<open>
  The part of \<open>OB_PRE_OPERATION_INFORMATION\<close> the code reads. \<open>Parameters\<close> points at a union of
  \<open>CreateHandleInformation\<close> and \<open>DuplicateHandleInformation\<close>; both begin with the two masks.
\<close>

record handle_information =
  DesiredAccess :: u32
  OriginalDesiredAccess :: u32

record ob_parameters =
  CreateHandleInformation :: handle_information
  DuplicateHandleInformation :: handle_information

record ob_pre_operation_information =
  Operation :: u32
  KernelHandle :: u32
  Object :: ptr
  Parameters :: "ob_parameters option"

definition emit_handle_access ::
  "kernel \<Rightarrow> u32 \<Rightarrow> u32 \<Rightarrow> u32 \<Rightarrow> u32 \<Rightarrow> HandleAccessOp \<Rightarrow> driver \<Rightarrow> driver" where
  "emit_handle_access K source_pid target_pid desired original op d =
    (let (evt, d) = alloc_event_for K ProcessHandleAccessEvent (event_type_u16 ProcessHandleAccess) d
     in if evt = null_ptr then d
        else
          let d = write_field ProcessHandleAccessEvent ''source_process_id'' (bytes32 source_pid) evt d;
              d = write_field ProcessHandleAccessEvent ''target_process_id'' (bytes32 target_pid) evt d;
              d = write_field ProcessHandleAccessEvent ''desired_access'' (bytes32 desired) evt d;
              d = write_field ProcessHandleAccessEvent ''original_desired_access'' (bytes32 original) evt d;
              d = write_field ProcessHandleAccessEvent ''operation''
                    (bytes16 (handle_access_op_u16 op)) evt d;
              sz = of_nat (size_of ProcessHandleAccessEvent)
          in submit_event K evt sz d)"

definition process_object_notify ::
  "kernel \<Rightarrow> ob_pre_operation_information option \<Rightarrow> driver \<Rightarrow> u32 \<times> driver" where
  "process_object_notify K info d =
    (case info of
       None \<Rightarrow> (OB_PREOP_SUCCESS, d)
     | Some info \<Rightarrow>
         if KernelHandle info \<noteq> 0 then (OB_PREOP_SUCCESS, d)
         else
           let target_pid = (if Object info = null_ptr then 0
                             else ucast (ret_PsGetProcessId K (trace d) (Object info)));
               source_pid = ucast (ret_PsGetCurrentProcessId K (trace d))
           in if target_pid = source_pid then (OB_PREOP_SUCCESS, d)
              else
                case Parameters info of
                  None \<Rightarrow> (OB_PREOP_SUCCESS, d)
                | Some params \<Rightarrow>
                    let (op, desired, original) =
                          (if Operation info = OB_OPERATION_HANDLE_CREATE then
                             let p = CreateHandleInformation params
                             in (Create, DesiredAccess p, OriginalDesiredAccess p)
                           else
                             let p = DuplicateHandleInformation params
                             in (Duplicate, DesiredAccess p, OriginalDesiredAccess p))
                    in if original AND DANGEROUS_PROCESS_MASK = 0 then (OB_PREOP_SUCCESS, d)
                       else
                         let d = emit_handle_access K source_pid target_pid desired original op d
                         in (OB_PREOP_SUCCESS, d))"

section \<open>As an instance of the skeleton\<close>

definition fill_handle_access ::
  "u32 \<Rightarrow> u32 \<Rightarrow> u32 \<Rightarrow> u32 \<Rightarrow> HandleAccessOp \<Rightarrow> ptr \<Rightarrow> driver \<Rightarrow> driver" where
  "fill_handle_access source_pid target_pid desired original op evt d =
    write_field ProcessHandleAccessEvent ''operation'' (bytes16 (handle_access_op_u16 op)) evt
     (write_field ProcessHandleAccessEvent ''original_desired_access'' (bytes32 original) evt
      (write_field ProcessHandleAccessEvent ''desired_access'' (bytes32 desired) evt
       (write_field ProcessHandleAccessEvent ''target_process_id'' (bytes32 target_pid) evt
        (write_field ProcessHandleAccessEvent ''source_process_id'' (bytes32 source_pid) evt d))))"

lemma emit_handle_access_eq:
  "emit_handle_access K s t ds orig op =
    emit_event K ProcessHandleAccessEvent ProcessHandleAccess (fill_handle_access s t ds orig op)"
  by (rule ext)
    (simp add: emit_handle_access_def emit_event_def fill_handle_access_def Let_def split_beta)

interpretation handle_access:
  event_filler ProcessHandleAccessEvent True "fill_handle_access s t ds orig op"
  for s t ds orig op
proof unfold_locales
  show "fills p (size_of ProcessHandleAccessEvent) d (fill_handle_access s t ds orig op p d)" for p d
    unfolding fill_handle_access_def
    by (intro fills_write_field fills_refl refl) (simp_all add: ProcessHandleAccessEvent_def)
qed simp_all

section \<open>The filter\<close>

text \<open>The bit numbers of the seven rights, and a mask that asks for one of them.\<close>

definition dangerous_rights :: "nat list" where
  "dangerous_rights = [0, 1, 3, 4, 5, 6, 11]"

definition asks_dangerous :: "u32 \<Rightarrow> bool" where
  "asks_dangerous m \<longleftrightarrow> list_ex (bit m) dangerous_rights"

text \<open>
  Which notifications are forwarded, and what they carry: a user-mode handle, on another process,
  asked for with at least one dangerous right.
\<close>

definition access_report ::
  "kernel \<Rightarrow> driver \<Rightarrow> ob_pre_operation_information option \<Rightarrow>
   (u32 \<times> u32 \<times> u32 \<times> u32 \<times> HandleAccessOp) option" where
  "access_report K d info =
    (case info of None \<Rightarrow> None
     | Some i \<Rightarrow>
        (case Parameters i of None \<Rightarrow> None
         | Some ps \<Rightarrow>
            let op = (if Operation i = OB_OPERATION_HANDLE_CREATE then Create else Duplicate);
                h = (case op of Create \<Rightarrow> CreateHandleInformation ps
                     | Duplicate \<Rightarrow> DuplicateHandleInformation ps);
                source = ucast (ret_PsGetCurrentProcessId K (trace d));
                target = (if Object i = null_ptr then 0
                          else ucast (ret_PsGetProcessId K (trace d) (Object i)))
            in if KernelHandle i = 0 \<and> source \<noteq> target \<and>
                  asks_dangerous (OriginalDesiredAccess h)
               then Some (source, target, DesiredAccess h, OriginalDesiredAccess h, op)
               else None))"

lemma dangerous_mask_value: "DANGEROUS_PROCESS_MASK = 0x87B"
  by (simp add: mask_defs)

lemma dangerous_mask_bits: "bit DANGEROUS_PROCESS_MASK n \<longleftrightarrow> n \<in> set dangerous_rights"
proof (cases "n < 32")
  case True
  then have "n \<in> set [0..<32]" by simp
  then show ?thesis
    unfolding dangerous_mask_value dangerous_rights_def by (simp add: upt_rec) (elim disjE; simp)
next
  case False
  then have "\<not> bit DANGEROUS_PROCESS_MASK n"
    using bit_imp_le_length [of DANGEROUS_PROCESS_MASK n] by auto
  with False show ?thesis by (auto simp: dangerous_rights_def)
qed

lemma dangerous_iff: "m AND DANGEROUS_PROCESS_MASK = 0 \<longleftrightarrow> \<not> asks_dangerous m"
proof -
  have lt: "n < 32" if "bit m n" for n
    using bit_imp_le_length [OF that] by simp
  have "m AND DANGEROUS_PROCESS_MASK = 0 \<longleftrightarrow> (\<forall>n. \<not> (bit m n \<and> bit DANGEROUS_PROCESS_MASK n))"
    by (auto simp: bit_eq_iff bit_and_iff dest: lt)
  then show ?thesis
    by (auto simp: asks_dangerous_def list_ex_iff dangerous_mask_bits)
qed

lemma process_object_notify_eq:
  "process_object_notify K info d =
    (OB_PREOP_SUCCESS,
     case access_report K d info of None \<Rightarrow> d
     | Some (s, t, ds, orig, op) \<Rightarrow> emit_handle_access K s t ds orig op d)"
proof (cases info)
  case None
  then show ?thesis by (simp add: process_object_notify_def access_report_def)
next
  case (Some i)
  show ?thesis
  proof (cases "Parameters i")
    case None
    then show ?thesis using Some by (simp add: process_object_notify_def access_report_def Let_def)
  next
    case (Some ps)
    then show ?thesis using \<open>info = Some i\<close>
      by (simp add: process_object_notify_def access_report_def Let_def dangerous_iff)
  qed
qed

text \<open>
  The checks of \<open>process_object_notify\<close> up to the call of \<open>emit_handle_access\<close>, with the arguments of that
  call: what a thread does before it allocates.
\<close>

definition object_gate ::
  "kernel \<Rightarrow> driver \<Rightarrow> ob_pre_operation_information option \<Rightarrow>
   (u32 \<times> u32 \<times> u32 \<times> u32 \<times> HandleAccessOp) option" where
  "object_gate K d info =
    (case info of
       None \<Rightarrow> None
     | Some info \<Rightarrow>
         if KernelHandle info \<noteq> 0 then None
         else
           let target_pid = (if Object info = null_ptr then 0
                             else ucast (ret_PsGetProcessId K (trace d) (Object info)));
               source_pid = ucast (ret_PsGetCurrentProcessId K (trace d))
           in if target_pid = source_pid then None
              else
                case Parameters info of
                  None \<Rightarrow> None
                | Some params \<Rightarrow>
                    let (op, desired, original) =
                          (if Operation info = OB_OPERATION_HANDLE_CREATE then
                             let p = CreateHandleInformation params
                             in (Create, DesiredAccess p, OriginalDesiredAccess p)
                           else
                             let p = DuplicateHandleInformation params
                             in (Duplicate, DesiredAccess p, OriginalDesiredAccess p))
                    in if original AND DANGEROUS_PROCESS_MASK = 0 then None
                       else Some (source_pid, target_pid, desired, original, op))"

lemma object_gate_report: "object_gate K d info = access_report K d info"
proof (cases info)
  case None
  then show ?thesis by (simp add: object_gate_def access_report_def)
next
  case (Some i)
  then show ?thesis
    by (cases "Parameters i") (auto simp: object_gate_def access_report_def Let_def dangerous_iff)
qed

definition object_ops ::
  "kernel \<Rightarrow> ob_pre_operation_information option \<Rightarrow> driver \<Rightarrow> chan_op list" where
  "object_ops K info d =
    (case access_report K d info of None \<Rightarrow> []
     | Some (s, t, ds, orig, op) \<Rightarrow>
         emit_ops K ProcessHandleAccessEvent ProcessHandleAccess (fill_handle_access s t ds orig op) d)"

lemma process_object_notify_owns:
  "owns None bs iq d \<Longrightarrow> pool_fresh K \<Longrightarrow> owns None bs iq (snd (process_object_notify K info d))"
  by (simp add: process_object_notify_eq emit_handle_access_eq handle_access.emit_owns
      split: option.splits)

lemma process_object_notify_simulates:
  "owns None bs iq d \<Longrightarrow> pool_fresh K \<Longrightarrow>
   simulates (object_ops K info d) d (snd (process_object_notify K info d))"
  by (simp add: process_object_notify_eq object_ops_def emit_handle_access_eq
      handle_access.emit_simulates split: option.splits)

section \<open>What a handle notification reports\<close>

lemma handle_access_block:
  assumes "heap d p = write_at 0 (header_bytes h) (zero_block 42 b0)"
    and b: "b = heap (fill_handle_access s t ds orig op p d) p"
  shows "read_header b = h"
    "get_u32 ProcessHandleAccessEvent ''source_process_id'' b = s"
    "get_u32 ProcessHandleAccessEvent ''target_process_id'' b = t"
    "get_u32 ProcessHandleAccessEvent ''desired_access'' b = ds"
    "get_u32 ProcessHandleAccessEvent ''original_desired_access'' b = orig"
    "get_u16 ProcessHandleAccessEvent ''operation'' b = handle_access_op_u16 op"
  using assms(1) unfolding b
  by (simp_all add: fill_handle_access_def ProcessHandleAccessEvent_def get_defs EventHeader_def
      read_header_write)

section \<open>Properties\<close>

text \<open>
  C33. The object callback allows every operation, and forwards exactly the requests for a user-mode
  handle to another process that ask for one of the seven dangerous rights; for everything else it
  leaves the whole driver state, the trace included, as it was.
\<close>

theorem process_object_notify_filter:
  "process_object_notify K info d =
    (OB_PREOP_SUCCESS,
     case access_report K d info of None \<Rightarrow> d
     | Some (source, target, desired, original, op) \<Rightarrow>
         emit_handle_access K source target desired original op d)"
  by (rule process_object_notify_eq)

text \<open>
  C34. A forwarded request that gets a pool block submits one event with the stamped header, the two
  process ids, both access masks and the operation.
\<close>

theorem handle_access_reported:
  assumes "driver_ok d" "pool_fresh K"
    and "access_report K d info = Some (source, target, desired, original, op)"
    and "fst (alloc_event_for K ProcessHandleAccessEvent (event_type_u16 ProcessHandleAccess) d) \<noteq> null_ptr"
  shows "\<exists>b. simulates [Stamp, Submit (read_at 0 42 b)] d (snd (process_object_notify K info d)) \<and>
    read_header b = stamped_header K ProcessHandleAccessEvent (event_type_u16 ProcessHandleAccess) d \<and>
    get_u32 ProcessHandleAccessEvent ''source_process_id'' b = source \<and>
    get_u32 ProcessHandleAccessEvent ''target_process_id'' b = target \<and>
    get_u32 ProcessHandleAccessEvent ''desired_access'' b = desired \<and>
    get_u32 ProcessHandleAccessEvent ''original_desired_access'' b = original \<and>
    get_u16 ProcessHandleAccessEvent ''operation'' b = handle_access_op_u16 op"
proof -
  obtain p d1 b0 where s:
    "simulates [Stamp, Submit (read_at 0 (size_of ProcessHandleAccessEvent)
       (heap (fill_handle_access source target desired original op p d1) p))] d
       (emit_event K ProcessHandleAccessEvent ProcessHandleAccess
         (fill_handle_access source target desired original op) d)"
    and h: "heap d1 p = write_at 0
       (header_bytes (stamped_header K ProcessHandleAccessEvent (event_type_u16 ProcessHandleAccess) d))
       (zero_block (size_of ProcessHandleAccessEvent) b0)"
    by (rule handle_access.emit_content [OF assms(1) [unfolded driver_ok_def] assms(2) TrueI assms(4)])
  note c = handle_access_block [OF h [unfolded size_of_simps] refl, of source target desired original op]
  show ?thesis
    using s c by (intro exI [of _ "heap (fill_handle_access source target desired original op p d1) p"])
      (simp add: process_object_notify_eq assms(3) emit_handle_access_eq)
qed

theorem handle_access_reported_witness:
  "\<exists>b. simulates [Stamp, Submit (read_at 0 42 b)] sample_driver (snd (process_object_notify sample_kernel
      (Some \<lparr>Operation = 1, KernelHandle = 0, Object = 9, Parameters = Some
        \<lparr>CreateHandleInformation = \<lparr>DesiredAccess = 0, OriginalDesiredAccess = 0x10\<rparr>,
         DuplicateHandleInformation = \<lparr>DesiredAccess = 0, OriginalDesiredAccess = 0\<rparr>\<rparr>\<rparr>) sample_driver)) \<and>
    get_u32 ProcessHandleAccessEvent ''source_process_id'' b = 4 \<and>
    get_u32 ProcessHandleAccessEvent ''target_process_id'' b = 9 \<and>
    get_u32 ProcessHandleAccessEvent ''desired_access'' b = 0 \<and>
    get_u32 ProcessHandleAccessEvent ''original_desired_access'' b = 0x10"
proof -
  let ?i = "Some \<lparr>Operation = 1, KernelHandle = 0, Object = 9, Parameters = Some
        \<lparr>CreateHandleInformation = \<lparr>DesiredAccess = 0, OriginalDesiredAccess = 0x10\<rparr>,
         DuplicateHandleInformation = \<lparr>DesiredAccess = 0, OriginalDesiredAccess = 0\<rparr>\<rparr>\<rparr>"
  have "access_report sample_kernel sample_driver ?i = Some (4, 9, 0, 0x10, Create)"
    by (simp add: access_report_def OB_OPERATION_HANDLE_CREATE_def Let_def asks_dangerous_def
        dangerous_rights_def)
  from handle_access_reported [OF sample_driver_ok sample_pool_fresh(1) this sample_alloc(1)]
  show ?thesis by blast
qed

text \<open>
  Any operation other than a handle creation is reported as a duplication, also one that is
  neither, with the masks read through the duplication member of the union.
\<close>

lemma unknown_operation_rendered:
  assumes "KernelHandle i = 0" "Parameters i = Some ps" "Operation i \<noteq> OB_OPERATION_HANDLE_CREATE"
    and "asks_dangerous (OriginalDesiredAccess (DuplicateHandleInformation ps))" "Object i = null_ptr"
    and "ucast (ret_PsGetCurrentProcessId K (trace d)) \<noteq> (0 :: u32)"
  shows "snd (process_object_notify K (Some i) d) =
    emit_handle_access K (ucast (ret_PsGetCurrentProcessId K (trace d))) 0
      (DesiredAccess (DuplicateHandleInformation ps))
      (OriginalDesiredAccess (DuplicateHandleInformation ps)) Duplicate d"
  using assms by (simp add: process_object_notify_eq access_report_def Let_def)

end
