(* ===== verification/Edr_Registry.thy ===== *)
theory Edr_Registry
  imports Edr_Strings "HOL-Library.Sublist"
begin

text \<open>
  Registry notifications (\<open>src/src/callbacks/registry.rs\<close>): the watch list and its prefix test, the
  resolution of a key object to its path, the five emitters and the entry point.
\<close>

section \<open>The watch list\<close>

text \<open>\<open>nt_path [''A'', ''B'']\<close> is the byte string \<open>\A\B\<close>.\<close>

definition nt_path :: "string list \<Rightarrow> u8 list" where
  "nt_path cs = concat (map (\<lambda>c. 0x5C # map of_char c) cs)"

definition CRITICAL_REGISTRY_PREFIXES :: "u8 list list" where
  "CRITICAL_REGISTRY_PREFIXES =
    [nt_path [''REGISTRY'', ''MACHINE'', ''SYSTEM'', ''CurrentControlSet'', ''Services''],
     nt_path [''REGISTRY'', ''MACHINE'', ''SOFTWARE'', ''Microsoft'', ''Windows'',
       ''CurrentVersion'', ''Run''],
     nt_path [''REGISTRY'', ''MACHINE'', ''SOFTWARE'', ''Microsoft'', ''Windows'',
       ''CurrentVersion'', ''RunOnce''],
     nt_path [''REGISTRY'', ''MACHINE'', ''SOFTWARE'', ''Wow6432Node'', ''Microsoft'', ''Windows'',
       ''CurrentVersion'', ''Run''],
     nt_path [''REGISTRY'', ''MACHINE'', ''SOFTWARE'', ''Wow6432Node'', ''Microsoft'', ''Windows'',
       ''CurrentVersion'', ''RunOnce''],
     nt_path [''REGISTRY'', ''MACHINE'', ''SOFTWARE'', ''Microsoft'', ''Windows NT'',
       ''CurrentVersion'', ''Image File Execution Options''],
     nt_path [''REGISTRY'', ''MACHINE'', ''SOFTWARE'', ''Microsoft'', ''Windows NT'',
       ''CurrentVersion'', ''Winlogon''],
     nt_path [''REGISTRY'', ''MACHINE'', ''SYSTEM'', ''CurrentControlSet'', ''Control'', ''SafeBoot''],
     nt_path [''REGISTRY'', ''MACHINE'', ''SYSTEM'', ''CurrentControlSet'', ''Control'', ''Lsa''],
     nt_path [''REGISTRY'', ''MACHINE'', ''SOFTWARE'', ''Policies'', ''Microsoft'', ''Windows Defender''],
     nt_path [''REGISTRY'', ''MACHINE'', ''SOFTWARE'', ''Microsoft'', ''Windows Defender''],
     nt_path [''REGISTRY'', ''USER'']]"

definition is_ascii_lowercase :: "u8 \<Rightarrow> bool" where
  "is_ascii_lowercase b \<longleftrightarrow> 0x61 \<le> b \<and> b \<le> 0x7A"

text \<open>The \<open>while\<close> loop, with its index. It is entered with \<open>prefix.len() <= key.len()\<close>.\<close>

function prefix_loop :: "u16 list \<Rightarrow> u8 list \<Rightarrow> nat \<Rightarrow> bool" where
  "prefix_loop key pre i =
    (if i < length pre then
       let k = key ! i
       in if k > 0x7F then False
          else
            let kb = ucast k :: u8;
                ku = (if is_ascii_lowercase kb then kb - 0x20 else kb);
                pb = pre ! i;
                pu = (if is_ascii_lowercase pb then pb - 0x20 else pb)
            in if ku \<noteq> pu then False else prefix_loop key pre (i + 1)
     else True)"
  by pat_completeness auto

termination prefix_loop
  by (relation "measure (\<lambda>(key, pre, i). length pre - i)") auto

declare prefix_loop.simps [simp del]

definition key_has_ascii_prefix_ci :: "u16 list \<Rightarrow> u8 list \<Rightarrow> bool" where
  "key_has_ascii_prefix_ci key pre =
    (if length key < length pre then False else prefix_loop key pre 0)"

primrec prefixes_loop :: "u16 list \<Rightarrow> u8 list list \<Rightarrow> bool" where
  "prefixes_loop key [] = False"
| "prefixes_loop key (pre # pres) =
    (if key_has_ascii_prefix_ci key pre then True else prefixes_loop key pres)"

definition is_interesting_path :: "u16 list \<Rightarrow> bool" where
  "is_interesting_path key = prefixes_loop key CRITICAL_REGISTRY_PREFIXES"

definition is_interesting_unicode_string :: "unicode_string option \<Rightarrow> driver \<Rightarrow> bool \<times> driver" where
  "is_interesting_unicode_string s d =
    (case s of None \<Rightarrow> (False, d)
     | Some s \<Rightarrow>
        (case Buffer s of None \<Rightarrow> (False, d)
         | Some units \<Rightarrow>
            if Length s = 0 then (False, d)
            else
              let chars = unat (Length s div 2);
                  d = log_call (ReadSource chars (length units)) d;
                  slice = take chars units
              in (is_interesting_path slice, d)))"

section \<open>Resolving a key\<close>

text \<open>The destination of a copy: a buffer on the stack, or a field of an event.\<close>

datatype copy_dst = Local | Field layout string ptr

definition write_units :: "copy_dst \<Rightarrow> u16 list \<Rightarrow> driver \<Rightarrow> driver" where
  "write_units dst us d =
    (case dst of Local \<Rightarrow> d
     | Field lay name evt \<Rightarrow> write_field lay name (bytes_of_units us) evt d)"

text \<open>Returns the number of units, and the units put at the destination.\<close>

definition copy_unicode_into ::
  "unicode_string option \<Rightarrow> copy_dst \<Rightarrow> nat \<Rightarrow> driver \<Rightarrow> nat \<times> u16 list \<times> driver" where
  "copy_unicode_into src dst mx d =
    (case src of None \<Rightarrow> (0, [], d)
     | Some s \<Rightarrow>
        (case Buffer s of None \<Rightarrow> (0, [], d)
         | Some units \<Rightarrow>
            if Length s = 0 then (0, [], d)
            else
              let chars = unat (Length s div 2);
                  copy = min chars (mx - 1);
                  d = (if chars > copy then bump_trunc d else d);
                  d = log_call (ReadSource copy (length units)) d;
                  d = write_units dst (take copy units) d
              in (copy, take copy units, d)))"

definition write_key_path_from_object ::
  "kernel \<Rightarrow> ptr \<Rightarrow> copy_dst \<Rightarrow> nat \<Rightarrow> driver \<Rightarrow> nat \<times> u16 list \<times> driver" where
  "write_key_path_from_object K object dst mx d =
    (if object = null_ptr then (0, [], d)
     else
       let cookie = REGISTRY_CALLBACK_COOKIE d;
           (status, name, s) = ret_CmCallbackGetKeyObjectIDEx K (trace d) cookie object;
           d = log_call (CmCallbackGetKeyObjectIDEx cookie object status name) d
       in if nt_error status \<or> name = null_ptr then (0, [], d)
          else
            let (written, us, d) = copy_unicode_into (Some s) dst mx d;
                d = log_call (CmCallbackReleaseKeyObjectIDEx name) d
            in (written, us, d))"

text \<open>\<open>&buf[..len]\<close> panics when \<open>len\<close> is beyond the end of the array.\<close>

definition resolve_and_gate_object ::
  "kernel \<Rightarrow> ptr \<Rightarrow> driver \<Rightarrow> (u16 list \<times> nat) option \<times> driver" where
  "resolve_and_gate_object K object d =
    (let buf = replicate REGISTRY_KEY_PATH_MAX 0;
         (len, us, d) = write_key_path_from_object K object Local REGISTRY_KEY_PATH_MAX d;
         buf = us @ drop (length us) buf
     in if len = 0 then (None, d)
        else if len > length buf then (None, log_call Panic d)
        else if \<not> is_interesting_path (take len buf) then (None, d)
        else (Some (buf, len), d))"

section \<open>The emitters\<close>

definition fill_registry_common :: "kernel \<Rightarrow> ptr \<Rightarrow> RegistryOp \<Rightarrow> driver \<Rightarrow> driver" where
  "fill_registry_common K evt op d =
    (let pid = ucast (ret_PsGetCurrentProcessId K (trace d));
         d = write_field RegistryEvent ''process_id'' (bytes32 pid) evt d
     in write_field RegistryEvent ''operation'' (bytes16 (registry_op_u16 op)) evt d)"

definition write_resolved_key_path :: "ptr \<Rightarrow> u16 list \<Rightarrow> nat \<Rightarrow> driver \<Rightarrow> driver" where
  "write_resolved_key_path evt src len d =
    (let d = log_call (ReadSource len (length src)) d;
         d = write_field RegistryEvent ''key_path'' (bytes_of_units (take len src)) evt d
     in write_field RegistryEvent ''key_path_len'' (bytes16 (of_nat len)) evt d)"

text \<open>The members of the notification structures the code reads.\<close>

record reg_set_value =
  sv_Object :: ptr
  sv_ValueName :: "unicode_string option"
  sv_Type :: u32
  sv_DataSize :: u32
  sv_Data :: "u8 list option"

record reg_delete_value =
  dv_Object :: ptr
  dv_ValueName :: "unicode_string option"

record reg_delete_key =
  dk_Object :: ptr

record reg_rename_key =
  rk_Object :: ptr

record reg_create_key =
  ck_CompleteName :: "unicode_string option"

definition emit_set_value :: "kernel \<Rightarrow> reg_set_value option \<Rightarrow> driver \<Rightarrow> driver" where
  "emit_set_value K info d =
    (case info of None \<Rightarrow> d
     | Some info \<Rightarrow>
        (case resolve_and_gate_object K (sv_Object info) d of
           (None, d) \<Rightarrow> d
         | (Some (key_local, key_len), d) \<Rightarrow>
             let (evt, d) = alloc_event_for K RegistryEvent (event_type_u16 RegistryModify) d
             in if evt = null_ptr then d
                else
                  let d = fill_registry_common K evt SetValue d;
                      d = write_field RegistryEvent ''value_type'' (bytes32 (sv_Type info)) evt d;
                      d = write_field RegistryEvent ''data_size'' (bytes32 (sv_DataSize info)) evt d;
                      d = write_resolved_key_path evt key_local key_len d;
                      (val_len, _, d) = copy_unicode_into (sv_ValueName info)
                        (Field RegistryEvent ''value_name'' evt) REGISTRY_VALUE_NAME_MAX d;
                      d = write_field RegistryEvent ''value_name_len'' (bytes16 (of_nat val_len)) evt d;
                      d = (case sv_Data info of None \<Rightarrow> d
                           | Some bytes \<Rightarrow>
                               if sv_DataSize info > 0 then
                                 let data_len = min (unat (sv_DataSize info)) REGISTRY_DATA_PREVIEW_MAX;
                                     d = (if unat (sv_DataSize info) > data_len then bump_trunc d else d);
                                     d = log_call (ReadSource data_len (length bytes)) d;
                                     d = write_field RegistryEvent ''data_preview''
                                           (take data_len bytes) evt d
                                 in write_field RegistryEvent ''data_preview_len''
                                      (bytes16 (of_nat data_len)) evt d
                               else d);
                      sz = of_nat (size_of RegistryEvent)
                  in submit_event K evt sz d))"

definition emit_delete_value :: "kernel \<Rightarrow> reg_delete_value option \<Rightarrow> driver \<Rightarrow> driver" where
  "emit_delete_value K info d =
    (case info of None \<Rightarrow> d
     | Some info \<Rightarrow>
        (case resolve_and_gate_object K (dv_Object info) d of
           (None, d) \<Rightarrow> d
         | (Some (key_local, key_len), d) \<Rightarrow>
             let (evt, d) = alloc_event_for K RegistryEvent (event_type_u16 RegistryModify) d
             in if evt = null_ptr then d
                else
                  let d = fill_registry_common K evt DeleteValue d;
                      d = write_resolved_key_path evt key_local key_len d;
                      (val_len, _, d) = copy_unicode_into (dv_ValueName info)
                        (Field RegistryEvent ''value_name'' evt) REGISTRY_VALUE_NAME_MAX d;
                      d = write_field RegistryEvent ''value_name_len'' (bytes16 (of_nat val_len)) evt d;
                      sz = of_nat (size_of RegistryEvent)
                  in submit_event K evt sz d))"

definition emit_delete_key :: "kernel \<Rightarrow> reg_delete_key option \<Rightarrow> driver \<Rightarrow> driver" where
  "emit_delete_key K info d =
    (case info of None \<Rightarrow> d
     | Some info \<Rightarrow>
        (case resolve_and_gate_object K (dk_Object info) d of
           (None, d) \<Rightarrow> d
         | (Some (key_local, key_len), d) \<Rightarrow>
             let (evt, d) = alloc_event_for K RegistryEvent (event_type_u16 RegistryModify) d
             in if evt = null_ptr then d
                else
                  let d = fill_registry_common K evt DeleteKey d;
                      d = write_resolved_key_path evt key_local key_len d;
                      sz = of_nat (size_of RegistryEvent)
                  in submit_event K evt sz d))"

definition emit_rename_key :: "kernel \<Rightarrow> reg_rename_key option \<Rightarrow> driver \<Rightarrow> driver" where
  "emit_rename_key K info d =
    (case info of None \<Rightarrow> d
     | Some info \<Rightarrow>
        (case resolve_and_gate_object K (rk_Object info) d of
           (None, d) \<Rightarrow> d
         | (Some (key_local, key_len), d) \<Rightarrow>
             let (evt, d) = alloc_event_for K RegistryEvent (event_type_u16 RegistryModify) d
             in if evt = null_ptr then d
                else
                  let d = fill_registry_common K evt RenameKey d;
                      d = write_resolved_key_path evt key_local key_len d;
                      sz = of_nat (size_of RegistryEvent)
                  in submit_event K evt sz d))"

definition emit_create_key :: "kernel \<Rightarrow> reg_create_key option \<Rightarrow> driver \<Rightarrow> driver" where
  "emit_create_key K info d =
    (case info of None \<Rightarrow> d
     | Some info \<Rightarrow>
        let (interesting, d) = is_interesting_unicode_string (ck_CompleteName info) d
        in if \<not> interesting then d
           else
             let (evt, d) = alloc_event_for K RegistryEvent (event_type_u16 RegistryModify) d
             in if evt = null_ptr then d
                else
                  let d = fill_registry_common K evt CreateKey d;
                      (key_len, _, d) = copy_unicode_into (ck_CompleteName info)
                        (Field RegistryEvent ''key_path'' evt) REGISTRY_KEY_PATH_MAX d;
                      d = write_field RegistryEvent ''key_path_len'' (bytes16 (of_nat key_len)) evt d;
                      sz = of_nat (size_of RegistryEvent)
                  in submit_event K evt sz d)"

section \<open>The entry point\<close>

text \<open>\<open>REG_NOTIFY_CLASS\<close> values of the public Windows ABI.\<close>

definition RegNtPreDeleteKey :: u32 where "RegNtPreDeleteKey = 0"
definition RegNtPreSetValueKey :: u32 where "RegNtPreSetValueKey = 1"
definition RegNtPreDeleteValueKey :: u32 where "RegNtPreDeleteValueKey = 2"
definition RegNtPreRenameKey :: u32 where "RegNtPreRenameKey = 4"
definition RegNtPreCreateKeyEx :: u32 where "RegNtPreCreateKeyEx = 26"

lemmas reg_class_defs = RegNtPreDeleteKey_def RegNtPreSetValueKey_def RegNtPreDeleteValueKey_def
  RegNtPreRenameKey_def RegNtPreCreateKeyEx_def

text \<open>
  \<open>Argument2\<close> is an untyped pointer; the value says what it really points at. Reading it at another
  type than that is a misuse.
\<close>

datatype reg_argument =
    NullArg
  | SetValueArg reg_set_value
  | DeleteValueArg reg_delete_value
  | DeleteKeyArg reg_delete_key
  | RenameKeyArg reg_rename_key
  | CreateKeyArg reg_create_key
  | OtherArg

definition registry_notify :: "kernel \<Rightarrow> u64 \<Rightarrow> reg_argument \<Rightarrow> driver \<Rightarrow> u32 \<times> driver" where
  "registry_notify K argument1 argument2 d =
    (let class = ucast argument1;
         d = (if class = RegNtPreSetValueKey then
                (case argument2 of NullArg \<Rightarrow> emit_set_value K None d
                 | SetValueArg info \<Rightarrow> emit_set_value K (Some info) d
                 | _ \<Rightarrow> log_call InvalidCast d)
              else if class = RegNtPreDeleteValueKey then
                (case argument2 of NullArg \<Rightarrow> emit_delete_value K None d
                 | DeleteValueArg info \<Rightarrow> emit_delete_value K (Some info) d
                 | _ \<Rightarrow> log_call InvalidCast d)
              else if class = RegNtPreDeleteKey then
                (case argument2 of NullArg \<Rightarrow> emit_delete_key K None d
                 | DeleteKeyArg info \<Rightarrow> emit_delete_key K (Some info) d
                 | _ \<Rightarrow> log_call InvalidCast d)
              else if class = RegNtPreRenameKey then
                (case argument2 of NullArg \<Rightarrow> emit_rename_key K None d
                 | RenameKeyArg info \<Rightarrow> emit_rename_key K (Some info) d
                 | _ \<Rightarrow> log_call InvalidCast d)
              else if class = RegNtPreCreateKeyEx then
                (case argument2 of NullArg \<Rightarrow> emit_create_key K None d
                 | CreateKeyArg info \<Rightarrow> emit_create_key K (Some info) d
                 | _ \<Rightarrow> log_call InvalidCast d)
              else d)
     in (STATUS_SUCCESS, d))"

end
