(* ===== verification/Edr_Registry_Gate.thy ===== *)
theory Edr_Registry_Gate
  imports Edr_Registry
begin

text \<open>
  The path gate of the registry callback: the byte-wise loop is a case-insensitive prefix test, the
  whole gate is a test against the watch list, cutting the path off at the buffer size does not
  change its answer, and a path the resolver produced is always within the buffer.
\<close>

section \<open>Case folding\<close>

definition upper8 :: "u8 \<Rightarrow> u8" where
  "upper8 b = (if is_ascii_lowercase b then b - 0x20 else b)"

definition upper16 :: "u16 \<Rightarrow> u16" where
  "upper16 u = (if 0x61 \<le> u \<and> u \<le> 0x7A then u - 0x20 else u)"

text \<open>The comparison the loop makes at one position.\<close>

definition same_letter :: "u16 \<Rightarrow> u8 \<Rightarrow> bool" where
  "same_letter k b \<longleftrightarrow> \<not> k > 0x7F \<and> upper8 (ucast k) = upper8 b"

lemma unat_ucast_8_16: "unat (ucast (b :: u8) :: u16) = unat b"
  using unsigned_less [of b, where ?'a = nat]
  by (simp add: unsigned_ucast_eq take_bit_nat_eq_self_iff)

lemma unat_ucast_16_8: "unat k < 256 \<Longrightarrow> unat (ucast (k :: u16) :: u8) = unat k"
  by (simp add: unsigned_ucast_eq take_bit_nat_eq_self_iff)

lemma unat_upper8: "unat (upper8 b) = (if 97 \<le> unat b \<and> unat b \<le> 122 then unat b - 32 else unat b)"
  by (auto simp: upper8_def is_ascii_lowercase_def word_le_nat_alt unat_sub)

lemma unat_upper16: "unat (upper16 u) = (if 97 \<le> unat u \<and> unat u \<le> 122 then unat u - 32 else unat u)"
  by (auto simp: upper16_def word_le_nat_alt unat_sub)

lemma same_letter_iff:
  assumes "b \<le> 0x7F"
  shows "same_letter k b \<longleftrightarrow> upper16 k = upper16 (ucast b)"
proof (cases "unat k \<le> 127")
  case True
  then have "same_letter k b \<longleftrightarrow> upper8 (ucast k) = upper8 b"
    by (simp add: same_letter_def word_less_nat_alt)
  also have "\<dots> \<longleftrightarrow> unat (upper8 (ucast k)) = unat (upper8 b)"
    by (simp add: word_unat_eq_iff)
  also have "\<dots> \<longleftrightarrow> unat (upper16 k) = unat (upper16 (ucast b))"
    using True by (simp add: unat_upper8 unat_upper16 unat_ucast_8_16 unat_ucast_16_8)
  finally show ?thesis by (simp add: word_unat_eq_iff)
next
  case False
  then have "\<not> same_letter k b" by (simp add: same_letter_def word_less_nat_alt)
  moreover have "unat (upper16 k) \<noteq> unat (upper16 (ucast b))"
    using False assms by (auto simp: unat_upper16 unat_ucast_8_16 word_le_nat_alt)
  ultimately show ?thesis by auto
qed

section \<open>The prefix test\<close>

lemma prefix_loop_step:
  "prefix_loop key pre i \<longleftrightarrow>
    i < length pre \<longrightarrow> same_letter (key ! i) (pre ! i) \<and> prefix_loop key pre (i + 1)"
  by (subst prefix_loop.simps) (simp add: Let_def same_letter_def upper8_def)

lemma prefix_loop_all:
  "prefix_loop key pre i \<longleftrightarrow> (\<forall>j. i \<le> j \<longrightarrow> j < length pre \<longrightarrow> same_letter (key ! j) (pre ! j))"
proof (induction "length pre - i" arbitrary: i)
  case 0
  then show ?case by (subst prefix_loop_step) auto
next
  case (Suc n)
  have "i < length pre" using Suc.hyps(2) by simp
  then have "prefix_loop key pre i \<longleftrightarrow> same_letter (key ! i) (pre ! i) \<and> prefix_loop key pre (i + 1)"
    by (subst prefix_loop_step) simp
  also have "\<dots> \<longleftrightarrow> same_letter (key ! i) (pre ! i) \<and>
      (\<forall>j. i + 1 \<le> j \<longrightarrow> j < length pre \<longrightarrow> same_letter (key ! j) (pre ! j))"
    using Suc.hyps by simp
  also have "\<dots> \<longleftrightarrow> (\<forall>j. i \<le> j \<longrightarrow> j < length pre \<longrightarrow> same_letter (key ! j) (pre ! j))"
    using \<open>i < length pre\<close> by (metis Suc_eq_plus1 Suc_leD Suc_leI le_neq_implies_less order_refl)
  finally show ?case .
qed

definition ascii :: "u8 list \<Rightarrow> bool" where
  "ascii = list_all (\<lambda>b. b \<le> 0x7F)"

definition folded :: "u8 list \<Rightarrow> u16 list" where
  "folded pre = map (\<lambda>b. upper16 (ucast b)) pre"

lemma prefix_iff_take: "prefix xs ys \<longleftrightarrow> length xs \<le> length ys \<and> take (length xs) ys = xs"
  by (metis append_eq_conv_conj prefix_def prefix_length_le take_is_prefix)

lemma key_has_ascii_prefix_ci_iff:
  assumes "ascii pre"
  shows "key_has_ascii_prefix_ci key pre \<longleftrightarrow> prefix (folded pre) (map upper16 key)"
proof (cases "length pre \<le> length key")
  case False
  then have "\<not> prefix (folded pre) (map upper16 key)"
    using prefix_length_le [of "folded pre" "map upper16 key"] by (auto simp: folded_def)
  with False show ?thesis by (simp add: key_has_ascii_prefix_ci_def)
next
  case True
  then have "key_has_ascii_prefix_ci key pre \<longleftrightarrow>
      (\<forall>j < length pre. same_letter (key ! j) (pre ! j))"
    by (simp add: key_has_ascii_prefix_ci_def prefix_loop_all)
  also have "\<dots> \<longleftrightarrow> (\<forall>j < length pre. upper16 (key ! j) = upper16 (ucast (pre ! j)))"
    using assms by (auto simp: ascii_def list_all_length same_letter_iff)
  also have "\<dots> \<longleftrightarrow> take (length pre) (map upper16 key) = folded pre"
    using True by (auto simp: list_eq_iff_nth_eq folded_def)
  finally show ?thesis using True by (simp add: prefix_iff_take folded_def)
qed

text \<open>Only the first \<open>length pre\<close> units of the path matter.\<close>

lemma key_has_ascii_prefix_ci_take:
  assumes "ascii pre" "length pre \<le> n"
  shows "key_has_ascii_prefix_ci (take n key) pre = key_has_ascii_prefix_ci key pre"
  using assms
  by (simp add: key_has_ascii_prefix_ci_iff prefix_iff_take take_map min_def folded_def)

section \<open>The watch list\<close>

lemma prefixes_loop_iff: "prefixes_loop key ps \<longleftrightarrow> (\<exists>p \<in> set ps. key_has_ascii_prefix_ci key p)"
  by (induction ps) auto

lemma critical_prefixes_ascii: "list_all ascii CRITICAL_REGISTRY_PREFIXES"
  by (simp add: CRITICAL_REGISTRY_PREFIXES_def nt_path_def ascii_def of_char_def)

lemma critical_prefixes_short: "list_all (\<lambda>p. length p \<le> 511) CRITICAL_REGISTRY_PREFIXES"
  by (simp add: CRITICAL_REGISTRY_PREFIXES_def nt_path_def)

lemma is_interesting_path_iff:
  "is_interesting_path key \<longleftrightarrow>
    (\<exists>p \<in> set CRITICAL_REGISTRY_PREFIXES. prefix (folded p) (map upper16 key))"
  unfolding is_interesting_path_def prefixes_loop_iff
  using critical_prefixes_ascii by (auto simp: list_all_iff key_has_ascii_prefix_ci_iff)

lemma is_interesting_path_take:
  "511 \<le> n \<Longrightarrow> is_interesting_path (take n key) = is_interesting_path key"
  unfolding is_interesting_path_def prefixes_loop_iff
proof (rule bex_cong [OF refl])
  fix p assume "p \<in> set CRITICAL_REGISTRY_PREFIXES" "511 \<le> n"
  then have "ascii p" "length p \<le> n"
    using critical_prefixes_ascii critical_prefixes_short by (auto simp: list_all_iff)
  then show "key_has_ascii_prefix_ci (take n key) p = key_has_ascii_prefix_ci key p"
    by (rule key_has_ascii_prefix_ci_take)
qed

lemma interesting_nonempty: "is_interesting_path key \<Longrightarrow> key \<noteq> []"
  by (auto simp: is_interesting_path_iff folded_def CRITICAL_REGISTRY_PREFIXES_def nt_path_def)

section \<open>Copies and resolution in closed form\<close>

lemma copy_unicode_into_skips: "skips src \<Longrightarrow> copy_unicode_into src dst mx d = (0, [], d)"
  by (auto simp: copy_unicode_into_def skips_def split: option.splits)

lemma copy_unicode_into_copies:
  assumes "\<not> skips src" "src = Some s" "Buffer s = Some us" "Length s \<noteq> 0"
      "take (min (unat (Length s div 2)) (mx - 1)) us = copied mx src"
      "min (unat (Length s div 2)) (mx - 1) = length (copied mx src)"
      "length (copied mx src) < unat (Length s div 2) \<longleftrightarrow> truncated mx src"
  shows "copy_unicode_into src dst mx d =
    (length (copied mx src), copied mx src,
     write_units dst (copied mx src)
      (log_call (ReadSource (length (copied mx src)) (length us))
        (if truncated mx src then bump_trunc d else d)))"
  unfolding copy_unicode_into_def Let_def
  using assms(1,3-) by (simp only: assms(2) option.case if_False)

lemma copy_unicode_into_result:
  assumes "pus_valid src"
  shows "fst (copy_unicode_into src dst mx d) = length (copied mx src)"
    "fst (snd (copy_unicode_into src dst mx d)) = copied mx src"
  using assms
  by (cases rule: copy_cases [where cap = mx]; simp add: copy_unicode_into_skips copy_unicode_into_copies)+

lemma same_globals_bump_trunc [simp]: "same_globals d (bump_trunc d)"
  by (simp add: same_globals_def bump_trunc_def)

text \<open>
  Resolving a name changes nothing but the trace and the truncation counter: the name is released
  again, and its units end up in the caller's buffer.
\<close>

definition gate_call :: "kcall \<Rightarrow> bool" where
  "gate_call c =
    (case c of CmCallbackGetKeyObjectIDEx cookie object status name \<Rightarrow> True
     | CmCallbackReleaseKeyObjectIDEx name \<Rightarrow> True | ReadSource n avail \<Rightarrow> True | _ \<Rightarrow> False)"

definition quiet :: "driver \<Rightarrow> driver \<Rightarrow> bool" where
  "quiet d d' \<longleftrightarrow> same_globals d d' \<and> heap d' = heap d \<and> irps d' = irps d \<and>
    DROP_COUNT d' = DROP_COUNT d \<and>
    (\<exists>cs. trace d' = trace d @ cs \<and> list_all gate_call cs \<and> (\<forall>m. mon_run cs m = Some m))"

lemma quiet_calls:
  assumes "quiet d d'"
  obtains cs where "trace d' = trace d @ cs" "list_all gate_call cs" "\<And>m. mon_run cs m = Some m"
  using assms by (auto simp: quiet_def)

lemma replies_gate_calls: "list_all gate_call cs \<Longrightarrow> replies cs = []"
  by (induction cs) (auto simp: gate_call_def call_reply_def split: kcall.splits)

lemma quietD:
  assumes "quiet d d'"
  shows "same_globals d d'" "heap d' = heap d" "irps d' = irps d" "DROP_COUNT d' = DROP_COUNT d"
    "replies (trace d') = replies (trace d)" "mon_of d' = mon_of d"
proof -
  obtain cs where cs: "trace d' = trace d @ cs" "list_all gate_call cs" "\<And>m. mon_run cs m = Some m"
    using quiet_calls [OF assms] by blast
  show "replies (trace d') = replies (trace d)" by (simp add: cs(1) replies_gate_calls [OF cs(2)])
  show "mon_of d' = mon_of d" using cs(3) by (simp add: mon_of_def cs(1) mon_run_append split: option.split)
qed (use assms in \<open>simp_all add: quiet_def\<close>)

lemma quiet_trace:
  assumes "same_globals d d'" "heap d' = heap d" "irps d' = irps d" "DROP_COUNT d' = DROP_COUNT d"
    and "trace d' = trace d @ cs" "list_all gate_call cs" "\<And>m. mon_run cs m = Some m"
  shows "quiet d d'"
  using assms by (auto simp: quiet_def)

lemma quiet_refl [simp]: "quiet d d"
  by (simp add: quiet_def same_globals_def)

lemma quiet_owns: "quiet d d' \<Longrightarrow> owns lk bs iq d \<Longrightarrow> owns lk bs iq d'"
  by (rule owns_same) (simp_all add: quietD)

lemma quiet_simulates: "quiet d d' \<Longrightarrow> simulates [] d d'"
  using same_globalsD [OF quietD(1), of d d']
  by (simp add: quietD simulates_def chan_of_def slot_bytes_def)

text \<open>The name an object resolves to, and \<open>None\<close> where the resolution fails.\<close>

definition key_name :: "kernel \<Rightarrow> ptr \<Rightarrow> driver \<Rightarrow> unicode_string option" where
  "key_name K object d =
    (case ret_CmCallbackGetKeyObjectIDEx K (trace d) (REGISTRY_CALLBACK_COOKIE d) object of
       (status, name, s) \<Rightarrow>
         if object = null_ptr \<or> nt_error status \<or> name = null_ptr then None else Some s)"

lemma get_release_neutral:
  assumes "\<not> nt_error status" "name \<noteq> null_ptr" "n \<le> avail"
  shows "mon_run [CmCallbackGetKeyObjectIDEx cookie object status name, ReadSource n avail,
      CmCallbackReleaseKeyObjectIDEx name] m = Some m"
    and "mon_run [CmCallbackGetKeyObjectIDEx cookie object status name,
      CmCallbackReleaseKeyObjectIDEx name] m = Some m"
  using assms by simp_all

text \<open>A name that was obtained, copied and released.\<close>

lemma copied_name_quiet:
  assumes v: "pus_valid (Some s)" and ok: "\<not> nt_error status" "name \<noteq> null_ptr"
    and g: "g = log_call (CmCallbackGetKeyObjectIDEx cookie object status name) d"
    and d': "d' = log_call (CmCallbackReleaseKeyObjectIDEx name) (snd (snd (copy_unicode_into (Some s) Local mx g)))"
  shows "quiet d d'" "TRUNC_COUNT d' = TRUNC_COUNT d + (if truncated mx (Some s) then 1 else 0)"
proof -
  let ?get = "CmCallbackGetKeyObjectIDEx cookie object status name" and ?rel = "CmCallbackReleaseKeyObjectIDEx name"
  from v have "quiet d d' \<and> TRUNC_COUNT d' = TRUNC_COUNT d + (if truncated mx (Some s) then 1 else 0)"
  proof (cases rule: copy_cases [where cap = mx])
    case skip
    then show ?thesis
      using d' g ok get_release_neutral(2) [of status name 0 0]
      by (auto simp: copy_unicode_into_skips log_call_def same_globals_def gate_call_def intro!: quiet_trace)
  next
    case (copy s' us')
    let ?r = "ReadSource (length (copied mx (Some s))) (length us')"
    have c: "snd (snd (copy_unicode_into (Some s) Local mx g)) =
        log_call ?r (if truncated mx (Some s) then bump_trunc g else g)"
      using copy by (simp add: copy_unicode_into_copies write_units_def)
    have "mon_run [?get, ?r, ?rel] m = Some m" for m
      using ok copy(8) by (intro get_release_neutral(1)) simp_all
    then have "quiet d d'" unfolding d' c
      by (intro quiet_trace [where cs = "[?get, ?r, ?rel]"])
        (simp_all add: g log_call_def bump_trunc_def same_globals_def gate_call_def)
    then show ?thesis unfolding d' c by (simp add: g log_call_def bump_trunc_def)
  qed
  then show "quiet d d'" "TRUNC_COUNT d' = TRUNC_COUNT d + (if truncated mx (Some s) then 1 else 0)" by simp_all
qed

text \<open>What \<open>write_key_path_from_object\<close> does with the stack buffer as its destination.\<close>

lemma write_key_path_from_object_spec:
  assumes K: "key_names_valid K"
    and r: "write_key_path_from_object K object Local mx d = (n, us, d')"
  shows "us = copied mx (key_name K object d)" "n = length us" "quiet d d'"
    and "TRUNC_COUNT d' = TRUNC_COUNT d + (if truncated mx (key_name K object d) then 1 else 0)"
proof -
  obtain status name s where ret: "ret_CmCallbackGetKeyObjectIDEx K (trace d)
      (REGISTRY_CALLBACK_COOKIE d) object = (status, name, s)" by (rule prod_cases3)
  have v: "pus_valid (Some s)" 
    using K [unfolded key_names_valid_def, rule_format, of "trace d" "REGISTRY_CALLBACK_COOKIE d" object]
    by (simp add: ret pus_valid_def)
  let ?g = "log_call (CmCallbackGetKeyObjectIDEx (REGISTRY_CALLBACK_COOKIE d) object status name) d"
  have skip [simp]: "copied mx None = []" "\<not> truncated mx None"
    by (simp_all add: copied_def us_units_def truncated_def)
  have "us = copied mx (key_name K object d) \<and> n = length us \<and> quiet d d' \<and>
      TRUNC_COUNT d' = TRUNC_COUNT d + (if truncated mx (key_name K object d) then 1 else 0)"
  proof (cases "object = null_ptr \<or> nt_error status \<or> name = null_ptr")
    case True
    show ?thesis
    proof (cases "object = null_ptr")
      case True
      with r have "(n, us, d') = (0, [], d)" by (simp add: write_key_path_from_object_def)
      then show ?thesis using True by (simp add: key_name_def ret)
    next
      case False
      with True have q: "quiet d ?g"
        by (intro quiet_trace [where cs = "[CmCallbackGetKeyObjectIDEx (REGISTRY_CALLBACK_COOKIE d) object status name]"])
          (auto simp: log_call_def same_globals_def gate_call_def)
      from False True r have "(n, us, d') = (0, [], ?g)"
        by (auto simp: write_key_path_from_object_def ret Let_def)
      then show ?thesis using True q by (simp add: key_name_def ret) (simp add: log_call_def)
    qed
  next
    case False
    then have name: "key_name K object d = Some s" by (simp add: key_name_def ret)
    let ?c = "copy_unicode_into (Some s) Local mx ?g"
    have d': "us = copied mx (Some s)" "n = length (copied mx (Some s))"
      "d' = log_call (CmCallbackReleaseKeyObjectIDEx name) (snd (snd ?c))"
      using False r copy_unicode_into_result [OF v, of Local mx ?g]
      by (auto simp: write_key_path_from_object_def ret Let_def split_beta)
    note copied_name_quiet [OF v _ _ refl d'(3)]
    then show ?thesis using d' name False by simp
  qed
  then show "us = copied mx (key_name K object d)" "n = length us" "quiet d d'"
    "TRUNC_COUNT d' = TRUNC_COUNT d + (if truncated mx (key_name K object d) then 1 else 0)"
    by simp_all
qed

text \<open>The whole gate: the decision depends on the full path, and what is handed on is its first 511 units.\<close>

lemma resolve_and_gate_object_spec:
  assumes K: "key_names_valid K" and r: "resolve_and_gate_object K object d = (res, d')"
  shows "res = (if is_interesting_path (us_units (key_name K object d))
       then Some (padded 512 (copied 512 (key_name K object d)), length (copied 512 (key_name K object d)))
       else None)"
    and "quiet d d'"
    and "TRUNC_COUNT d' = TRUNC_COUNT d + (if truncated 512 (key_name K object d) then 1 else 0)"
proof -
  obtain n us d1 where w: "write_key_path_from_object K object Local 512 d = (n, us, d1)"
    by (rule prod_cases3)
  note s = write_key_path_from_object_spec [OF K w]
  have len: "length us \<le> 511" using s(1) length_copied_le [of 512] by simp
  have "is_interesting_path us = is_interesting_path (us_units (key_name K object d))"
    using s(1) by (simp add: copied_def is_interesting_path_take)
  moreover have "is_interesting_path us \<Longrightarrow> n \<noteq> 0"
    using interesting_nonempty [of us] s(2) by auto
  moreover have "us @ drop (length us) (replicate 512 0) = padded 512 us"
    by (simp add: padded_def)
  ultimately have "(res, d') =
      (if is_interesting_path (us_units (key_name K object d)) then Some (padded 512 us, length us)
       else None, d1)"
    using r w s(2) len
    by (auto simp: resolve_and_gate_object_def REGISTRY_KEY_PATH_MAX_def padded_def Let_def
        split: if_splits)
  then show "res = (if is_interesting_path (us_units (key_name K object d))
       then Some (padded 512 (copied 512 (key_name K object d)), length (copied 512 (key_name K object d)))
       else None)" "quiet d d'"
    "TRUNC_COUNT d' = TRUNC_COUNT d + (if truncated 512 (key_name K object d) then 1 else 0)"
    using s by simp_all
qed

lemma is_interesting_unicode_string_spec:
  assumes "pus_valid s" "is_interesting_unicode_string s d = (r, d')"
  shows "r = is_interesting_path (us_units s)" "quiet d d'" "TRUNC_COUNT d' = TRUNC_COUNT d"
proof -
  have no: "\<not> is_interesting_path []" using interesting_nonempty by blast
  have "r = is_interesting_path (us_units s) \<and> quiet d d' \<and> TRUNC_COUNT d' = TRUNC_COUNT d"
    using assms(1)
  proof (cases rule: copy_cases [where cap = 0])
    case skip
    then show ?thesis using assms(2) no
      by (auto simp: is_interesting_unicode_string_def skips_def us_units_def split: option.splits)
  next
    case (copy u us)
    then have v: "unat (Length u) div 2 \<le> length us" using assms(1) by (simp add: pus_valid_def us_valid_def)
    have "r = is_interesting_path (us_units s)"
      "d' = log_call (ReadSource (unat (Length u) div 2) (length us)) d"
      using assms(2) copy by (auto simp: is_interesting_unicode_string_def us_units_def unat_half Let_def)
    moreover have "quiet d (log_call (ReadSource (unat (Length u) div 2) (length us)) d)"
      using v by (auto simp: log_call_def same_globals_def gate_call_def intro!: quiet_trace)
    ultimately show ?thesis by (simp add: log_call_def)
  qed
  then show "r = is_interesting_path (us_units s)" "quiet d d'" "TRUNC_COUNT d' = TRUNC_COUNT d"
    by simp_all
qed

section \<open>Properties\<close>

text \<open>
  C26. The gate forwards a path exactly when one of the twelve watched prefixes, upper-cased, is a
  prefix of it, upper-cased; cutting the path off at 511 units or more does not change the answer.
\<close>

theorem is_interesting_path_correct:
  "(is_interesting_path key \<longleftrightarrow>
     list_ex (\<lambda>p. prefix (folded p) (map upper16 key)) CRITICAL_REGISTRY_PREFIXES) \<and>
   is_interesting_path (take (REGISTRY_KEY_PATH_MAX - 1 + n) key) = is_interesting_path key"
  using is_interesting_path_iff [of key] is_interesting_path_take [of "REGISTRY_KEY_PATH_MAX - 1 + n" key]
  by (simp add: list_ex_iff REGISTRY_KEY_PATH_MAX_def)

text \<open>
  The watch list names \<open>CurrentControlSet\<close>, which in the registry is a link: a service key under
  the control set it resolves to is not watched, while a key that merely begins with the same letters
  as a watched one is.
\<close>

lemma control_set_alias_not_watched:
  "is_interesting_path (map ucast (nt_path [''REGISTRY'', ''MACHINE'', ''SYSTEM'', ''ControlSet001'', ''Services'', ''x''])) = False \<and>
   is_interesting_path (map ucast (nt_path [''REGISTRY'', ''MACHINE'', ''SYSTEM'', ''CurrentControlSet'', ''ServicesBackup'']))"
  by (simp add: is_interesting_path_iff CRITICAL_REGISTRY_PREFIXES_def nt_path_def folded_def
      of_char_def upper16_def)

end
