(* ===== verification/Edr_Registry_Emit.thy ===== *)
theory Edr_Registry_Emit
  imports Edr_Registry_Gate
begin

text \<open>
  The registry emitters as a gate followed by an instance of the event skeleton: what they own, what
  they do to the channel, and what the events they submit contain.
\<close>

section \<open>The pieces of an event\<close>

lemma fills_registry_common:
  assumes "fills p n d d'" "n = size_of RegistryEvent"
  shows "fills p n d (fill_registry_common K p op d')"
  unfolding fill_registry_common_def Let_def
  by (intro fills_write_field assms) (simp_all add: RegistryEvent_def)

lemma fills_write_resolved_key_path:
  assumes "fills p n d d'" "n = size_of RegistryEvent" "len \<le> length src" "len \<le> 512"
  shows "fills p n d (write_resolved_key_path p src len d')"
  unfolding write_resolved_key_path_def Let_def
  by (intro fills_write_field fills_read_source assms)
    (use assms in \<open>simp_all add: RegistryEvent_def max_defs\<close>)

lemma fills_copy_unicode_into:
  assumes f: "fills p n d d'" "n = size_of lay" and "pus_valid src"
    and dst: "dst \<in> fst ` set lay" "2 * (mx - 1) \<le> field_width lay dst"
  shows "fills p n d (snd (snd (copy_unicode_into src (Field lay dst p) mx d')))"
  using assms(3)
proof (cases rule: copy_cases [where cap = mx])
  case (copy s us)
  have "length (bytes_of_units (copied mx src)) \<le> field_width lay dst"
    using dst(2) length_copied_le [of mx src] by simp
  with copy f dst show ?thesis
    by (auto simp: copy_unicode_into_copies write_units_def
        intro!: fills_write_field fills_read_source fills_bump_trunc)
qed (use f in \<open>simp add: copy_unicode_into_skips\<close>)

definition put_units :: "nat \<Rightarrow> nat \<Rightarrow> u16 list \<Rightarrow> block \<Rightarrow> block" where
  "put_units off loff us b =
    write_at loff (bytes16 (of_nat (length us))) (write_at off (bytes_of_units us) b)"

lemma heap_copy_unicode_into:
  assumes "pus_valid src"
  shows "heap (snd (snd (copy_unicode_into src (Field lay dst p) mx d))) p =
    write_at (field_off lay dst) (bytes_of_units (copied mx src)) (heap d p)"
  using assms
  by (cases rule: copy_cases [where cap = mx])
    (simp_all add: copy_unicode_into_skips copy_unicode_into_copies write_units_def)

lemma trace_copy_unicode_into:
  "heap (snd (snd (copy_unicode_into src Local mx d))) = heap d"
  by (auto simp: copy_unicode_into_def write_units_def Let_def split: option.splits)

lemma read_put_units_other [simp]:
  assumes "k + n \<le> off \<or> off + 2 * length us \<le> k" "k + n \<le> loff \<or> loff + 2 \<le> k"
  shows "read_at k n (put_units off loff us b) = read_at k n b"
  using assms by (auto simp: put_units_def)

lemma read_put_units:
  assumes "length us \<le> cap" "m = 2 * cap" "loff + 2 \<le> off \<or> off + m \<le> loff"
    "read_at off m b = replicate m 0"
  shows "units_of_bytes (read_at off m (put_units off loff us b)) = padded cap us"
  using assms by (auto simp: put_units_def read_string_field)

lemma read_put_units_len [simp]:
  "(of_nat (le_dec (read_at loff 2 (put_units off loff us b))) :: u16) = of_nat (length us)"
  by (simp add: put_units_def)

lemma read_header_put_units [simp]:
  "24 \<le> off \<Longrightarrow> 24 \<le> loff \<Longrightarrow> read_header (put_units off loff us b) = read_header b"
  by (simp add: put_units_def)

section \<open>The fillers\<close>

definition fill_data_preview :: "reg_set_value \<Rightarrow> ptr \<Rightarrow> driver \<Rightarrow> driver" where
  "fill_data_preview info evt d =
    (case sv_Data info of None \<Rightarrow> d
     | Some bytes \<Rightarrow>
         if sv_DataSize info > 0 then
           let data_len = min (unat (sv_DataSize info)) REGISTRY_DATA_PREVIEW_MAX;
               d = (if unat (sv_DataSize info) > data_len then bump_trunc d else d);
               d = log_call (ReadSource data_len (length bytes)) d;
               d = write_field RegistryEvent ''data_preview'' (take data_len bytes) evt d
           in write_field RegistryEvent ''data_preview_len'' (bytes16 (of_nat data_len)) evt d
         else d)"

definition fill_set_value :: "kernel \<Rightarrow> reg_set_value \<Rightarrow> u16 list \<Rightarrow> nat \<Rightarrow> ptr \<Rightarrow> driver \<Rightarrow> driver" where
  "fill_set_value K info key_local key_len evt d =
    (let d = fill_registry_common K evt SetValue d;
         d = write_field RegistryEvent ''value_type'' (bytes32 (sv_Type info)) evt d;
         d = write_field RegistryEvent ''data_size'' (bytes32 (sv_DataSize info)) evt d;
         d = write_resolved_key_path evt key_local key_len d;
         (val_len, _, d) = copy_unicode_into (sv_ValueName info)
           (Field RegistryEvent ''value_name'' evt) REGISTRY_VALUE_NAME_MAX d;
         d = write_field RegistryEvent ''value_name_len'' (bytes16 (of_nat val_len)) evt d
     in fill_data_preview info evt d)"

definition fill_delete_value ::
  "kernel \<Rightarrow> reg_delete_value \<Rightarrow> u16 list \<Rightarrow> nat \<Rightarrow> ptr \<Rightarrow> driver \<Rightarrow> driver" where
  "fill_delete_value K info key_local key_len evt d =
    (let d = fill_registry_common K evt DeleteValue d;
         d = write_resolved_key_path evt key_local key_len d;
         (val_len, _, d) = copy_unicode_into (dv_ValueName info)
           (Field RegistryEvent ''value_name'' evt) REGISTRY_VALUE_NAME_MAX d
     in write_field RegistryEvent ''value_name_len'' (bytes16 (of_nat val_len)) evt d)"

definition fill_key_op :: "kernel \<Rightarrow> RegistryOp \<Rightarrow> u16 list \<Rightarrow> nat \<Rightarrow> ptr \<Rightarrow> driver \<Rightarrow> driver" where
  "fill_key_op K op key_local key_len evt d =
    write_resolved_key_path evt key_local key_len (fill_registry_common K evt op d)"

definition fill_create_key :: "kernel \<Rightarrow> reg_create_key \<Rightarrow> ptr \<Rightarrow> driver \<Rightarrow> driver" where
  "fill_create_key K info evt d =
    (let d = fill_registry_common K evt CreateKey d;
         (key_len, _, d) = copy_unicode_into (ck_CompleteName info)
           (Field RegistryEvent ''key_path'' evt) REGISTRY_KEY_PATH_MAX d
     in write_field RegistryEvent ''key_path_len'' (bytes16 (of_nat key_len)) evt d)"

definition path_fits :: "u16 list \<Rightarrow> nat \<Rightarrow> bool" where
  "path_fits buf len \<longleftrightarrow> length buf = 512 \<and> len \<le> 511"

definition set_value_valid :: "reg_set_value \<Rightarrow> bool" where
  "set_value_valid info \<longleftrightarrow> pus_valid (sv_ValueName info) \<and>
    (case sv_Data info of None \<Rightarrow> True | Some bytes \<Rightarrow> unat (sv_DataSize info) \<le> length bytes)"

lemma fills_data_preview:
  assumes "fills p n d d'" "n = size_of RegistryEvent" "set_value_valid info"
  shows "fills p n d (fill_data_preview info p d')"
  using assms
  by (auto simp: fill_data_preview_def Let_def set_value_valid_def RegistryEvent_def max_defs
      split: option.splits intro!: fills_write_field fills_read_source fills_bump_trunc)

interpretation set_value:
  event_filler RegistryEvent "path_fits buf len \<and> set_value_valid info" "fill_set_value K info buf len"
  for K info buf len
proof unfold_locales
  show "fills p (size_of RegistryEvent) d (fill_set_value K info buf len p d)"
    if v: "path_fits buf len \<and> set_value_valid info" for p d
    unfolding fill_set_value_def Let_def split_beta
    by (intro fills_data_preview fills_write_field fills_copy_unicode_into
        fills_write_resolved_key_path fills_registry_common fills_refl refl)
      (use v in \<open>simp_all add: path_fits_def\<close>,
       simp_all add: RegistryEvent_def max_defs set_value_valid_def)
qed simp_all

interpretation delete_value:
  event_filler RegistryEvent "path_fits buf len \<and> pus_valid (dv_ValueName info)"
    "fill_delete_value K info buf len"
  for K info buf len
proof unfold_locales
  show "fills p (size_of RegistryEvent) d (fill_delete_value K info buf len p d)"
    if "path_fits buf len \<and> pus_valid (dv_ValueName info)" for p d
    unfolding fill_delete_value_def Let_def split_beta
    by (intro fills_write_field fills_copy_unicode_into fills_write_resolved_key_path
        fills_registry_common fills_refl refl)
      (use that in \<open>simp_all add: path_fits_def\<close>, simp_all add: RegistryEvent_def max_defs)
qed simp_all

interpretation key_op: event_filler RegistryEvent "path_fits buf len" "fill_key_op K op buf len"
  for K op buf len
proof unfold_locales
  show "fills p (size_of RegistryEvent) d (fill_key_op K op buf len p d)" if "path_fits buf len" for p d
    unfolding fill_key_op_def
    by (intro fills_write_resolved_key_path fills_registry_common fills_refl refl)
      (use that in \<open>simp_all add: path_fits_def\<close>)
qed simp_all

interpretation create_key:
  event_filler RegistryEvent "pus_valid (ck_CompleteName info)" "fill_create_key K info"
  for K info
proof unfold_locales
  show "fills p (size_of RegistryEvent) d (fill_create_key K info p d)"
    if "pus_valid (ck_CompleteName info)" for p d
    unfolding fill_create_key_def Let_def split_beta
    by (intro fills_write_field fills_copy_unicode_into fills_registry_common fills_refl refl)
      (use that in \<open>simp_all add: RegistryEvent_def max_defs\<close>)
qed simp_all

section \<open>The gate and the skeleton together\<close>

definition gated ::
  "kernel \<Rightarrow> ptr \<Rightarrow> (u16 list \<Rightarrow> nat \<Rightarrow> ptr \<Rightarrow> driver \<Rightarrow> driver) \<Rightarrow> driver \<Rightarrow>
   (ptr \<Rightarrow> driver \<Rightarrow> driver) option \<times> driver" where
  "gated K object fill d =
    (case resolve_and_gate_object K object d of (r, d) \<Rightarrow> (map_option (\<lambda>(buf, len). fill buf len) r, d))"

definition emit_planned :: "kernel \<Rightarrow> (ptr \<Rightarrow> driver \<Rightarrow> driver) option \<times> driver \<Rightarrow> driver" where
  "emit_planned K pl =
    (case pl of (None, d) \<Rightarrow> d | (Some f, d) \<Rightarrow> emit_event K RegistryEvent RegistryModify f d)"

text \<open>How an event is going to be filled, if there is one, and the state after the gate.\<close>

definition registry_plan ::
  "kernel \<Rightarrow> reg_argument \<Rightarrow> driver \<Rightarrow> (ptr \<Rightarrow> driver \<Rightarrow> driver) option \<times> driver" where
  "registry_plan K arg d =
    (case arg of
       SetValueArg i \<Rightarrow> gated K (sv_Object i) (fill_set_value K i) d
     | DeleteValueArg i \<Rightarrow> gated K (dv_Object i) (fill_delete_value K i) d
     | DeleteKeyArg i \<Rightarrow> gated K (dk_Object i) (fill_key_op K DeleteKey) d
     | RenameKeyArg i \<Rightarrow> gated K (rk_Object i) (fill_key_op K RenameKey) d
     | CreateKeyArg i \<Rightarrow>
         (case is_interesting_unicode_string (ck_CompleteName i) d of
            (r, d) \<Rightarrow> (if r then Some (fill_create_key K i) else None, d))
     | _ \<Rightarrow> (None, d))"

text \<open>
  The documented pairing of notification class and structure, with well-formed strings and as many
  bytes of data as announced.
\<close>

definition reg_arg_valid :: "u64 \<Rightarrow> reg_argument \<Rightarrow> bool" where
  "reg_arg_valid argument1 arg =
    (let class = ucast argument1 in
     case arg of
       NullArg \<Rightarrow> True
     | SetValueArg i \<Rightarrow> class = RegNtPreSetValueKey \<and> set_value_valid i
     | DeleteValueArg i \<Rightarrow> class = RegNtPreDeleteValueKey \<and> pus_valid (dv_ValueName i)
     | DeleteKeyArg i \<Rightarrow> class = RegNtPreDeleteKey
     | RenameKeyArg i \<Rightarrow> class = RegNtPreRenameKey
     | CreateKeyArg i \<Rightarrow> class = RegNtPreCreateKeyEx \<and> pus_valid (ck_CompleteName i)
     | OtherArg \<Rightarrow> class \<notin> {RegNtPreSetValueKey, RegNtPreDeleteValueKey, RegNtPreDeleteKey,
                          RegNtPreRenameKey, RegNtPreCreateKeyEx})"

lemma emit_set_value_eq:
  "emit_set_value K (Some i) d = emit_planned K (gated K (sv_Object i) (fill_set_value K i) d)"
  by (cases "resolve_and_gate_object K (sv_Object i) d"; cases "fst (resolve_and_gate_object K (sv_Object i) d)")
    (simp_all add: emit_set_value_def emit_planned_def gated_def emit_event_def fill_set_value_def
      fill_data_preview_def Let_def split_beta)

lemma emit_delete_value_eq:
  "emit_delete_value K (Some i) d = emit_planned K (gated K (dv_Object i) (fill_delete_value K i) d)"
  by (cases "resolve_and_gate_object K (dv_Object i) d"; cases "fst (resolve_and_gate_object K (dv_Object i) d)")
    (simp_all add: emit_delete_value_def emit_planned_def gated_def emit_event_def fill_delete_value_def
      Let_def split_beta)

lemma emit_delete_key_eq:
  "emit_delete_key K (Some i) d = emit_planned K (gated K (dk_Object i) (fill_key_op K DeleteKey) d)"
  by (cases "resolve_and_gate_object K (dk_Object i) d"; cases "fst (resolve_and_gate_object K (dk_Object i) d)")
    (simp_all add: emit_delete_key_def emit_planned_def gated_def emit_event_def fill_key_op_def
      Let_def split_beta)

lemma emit_rename_key_eq:
  "emit_rename_key K (Some i) d = emit_planned K (gated K (rk_Object i) (fill_key_op K RenameKey) d)"
  by (cases "resolve_and_gate_object K (rk_Object i) d"; cases "fst (resolve_and_gate_object K (rk_Object i) d)")
    (simp_all add: emit_rename_key_def emit_planned_def gated_def emit_event_def fill_key_op_def
      Let_def split_beta)

lemma emit_create_key_eq:
  "emit_create_key K (Some i) d = emit_planned K (registry_plan K (CreateKeyArg i) d)"
  by (simp add: emit_create_key_def emit_planned_def registry_plan_def emit_event_def fill_create_key_def
      Let_def split_beta)

lemma emit_null [simp]:
  "emit_set_value K None d = d" "emit_delete_value K None d = d" "emit_delete_key K None d = d"
  "emit_rename_key K None d = d" "emit_create_key K None d = d"
  by (simp_all add: emit_set_value_def emit_delete_value_def emit_delete_key_def emit_rename_key_def
      emit_create_key_def)

lemma registry_notify_eq:
  assumes "reg_arg_valid argument1 arg"
  shows "registry_notify K argument1 arg d = (STATUS_SUCCESS, emit_planned K (registry_plan K arg d))"
proof (cases arg)
  case NullArg
  then show ?thesis by (simp add: registry_notify_def Let_def registry_plan_def emit_planned_def)
next
  case OtherArg
  then show ?thesis using assms
    by (simp add: registry_notify_def Let_def registry_plan_def emit_planned_def reg_arg_valid_def)
next
  case (CreateKeyArg i)
  then show ?thesis using assms
    by (simp add: registry_notify_def Let_def emit_create_key_eq reg_arg_valid_def reg_class_defs)
qed (use assms in \<open>simp_all add: registry_notify_def Let_def emit_set_value_eq emit_delete_value_eq
  emit_delete_key_eq emit_rename_key_eq reg_arg_valid_def reg_class_defs registry_plan_def\<close>)

section \<open>What the plan is\<close>

text \<open>The full path a notification is about.\<close>

definition reg_path :: "kernel \<Rightarrow> reg_argument \<Rightarrow> driver \<Rightarrow> unicode_string option" where
  "reg_path K arg d =
    (case arg of
       SetValueArg i \<Rightarrow> key_name K (sv_Object i) d
     | DeleteValueArg i \<Rightarrow> key_name K (dv_Object i) d
     | DeleteKeyArg i \<Rightarrow> key_name K (dk_Object i) d
     | RenameKeyArg i \<Rightarrow> key_name K (rk_Object i) d
     | CreateKeyArg i \<Rightarrow> ck_CompleteName i
     | _ \<Rightarrow> None)"

definition planned_fill ::
  "kernel \<Rightarrow> reg_argument \<Rightarrow> u16 list \<Rightarrow> nat \<Rightarrow> ptr \<Rightarrow> driver \<Rightarrow> driver" where
  "planned_fill K arg buf len =
    (case arg of
       SetValueArg i \<Rightarrow> fill_set_value K i buf len
     | DeleteValueArg i \<Rightarrow> fill_delete_value K i buf len
     | DeleteKeyArg i \<Rightarrow> fill_key_op K DeleteKey buf len
     | RenameKeyArg i \<Rightarrow> fill_key_op K RenameKey buf len
     | CreateKeyArg i \<Rightarrow> fill_create_key K i
     | _ \<Rightarrow> (\<lambda>evt d. d))"

lemma gated_spec:
  assumes "key_names_valid K" "gated K object fill d = (pl, d')"
  shows "pl = (if is_interesting_path (us_units (key_name K object d))
      then Some (fill (padded 512 (copied 512 (key_name K object d)))
                   (length (copied 512 (key_name K object d)))) else None)"
    and "quiet d d'"
proof -
  obtain r where r: "resolve_and_gate_object K object d = (r, d')" "pl = map_option (\<lambda>(buf, len). fill buf len) r"
    using assms(2) by (auto simp: gated_def split: prod.splits)
  note s = resolve_and_gate_object_spec [OF assms(1) r(1)]
  show "pl = (if is_interesting_path (us_units (key_name K object d))
      then Some (fill (padded 512 (copied 512 (key_name K object d)))
                   (length (copied 512 (key_name K object d)))) else None)" "quiet d d'"
    using s(1,2) r(2) by simp_all
qed

lemma registry_plan_spec:
  assumes K: "key_names_valid K" and v: "reg_arg_valid argument1 arg"
    and pl: "registry_plan K arg d = (pl, d')"
  shows "quiet d d'"
    and "pl = (if is_interesting_path (us_units (reg_path K arg d))
      then Some (planned_fill K arg (padded 512 (copied 512 (reg_path K arg d)))
                   (length (copied 512 (reg_path K arg d)))) else None)"
proof -
  have no: "\<not> is_interesting_path (us_units None)"
    using interesting_nonempty by (auto simp: us_units_def)
  have "quiet d d' \<and> pl = (if is_interesting_path (us_units (reg_path K arg d))
      then Some (planned_fill K arg (padded 512 (copied 512 (reg_path K arg d)))
                   (length (copied 512 (reg_path K arg d)))) else None)"
  proof (cases arg)
    case (CreateKeyArg i)
    then have "pus_valid (ck_CompleteName i)" using v by (simp add: reg_arg_valid_def)
    then show ?thesis
      using pl is_interesting_unicode_string_spec [of "ck_CompleteName i" d]
      by (auto simp: CreateKeyArg registry_plan_def reg_path_def planned_fill_def split: prod.splits)
  next
    case (SetValueArg i)
    then show ?thesis using pl gated_spec [OF K, of "sv_Object i" "fill_set_value K i" d pl d']
      by (simp add: registry_plan_def reg_path_def planned_fill_def)
  next
    case (DeleteValueArg i)
    then show ?thesis using pl gated_spec [OF K, of "dv_Object i" "fill_delete_value K i" d pl d']
      by (simp add: registry_plan_def reg_path_def planned_fill_def)
  next
    case (DeleteKeyArg i)
    then show ?thesis using pl gated_spec [OF K, of "dk_Object i" "fill_key_op K DeleteKey" d pl d']
      by (simp add: registry_plan_def reg_path_def planned_fill_def)
  next
    case (RenameKeyArg i)
    then show ?thesis using pl gated_spec [OF K, of "rk_Object i" "fill_key_op K RenameKey" d pl d']
      by (simp add: registry_plan_def reg_path_def planned_fill_def)
  qed (use pl no in \<open>simp_all add: registry_plan_def reg_path_def planned_fill_def\<close>)
  then show "quiet d d'" "pl = (if is_interesting_path (us_units (reg_path K arg d))
      then Some (planned_fill K arg (padded 512 (copied 512 (reg_path K arg d)))
                   (length (copied 512 (reg_path K arg d)))) else None)" by simp_all
qed

lemma path_fits_copied: "path_fits (padded 512 (copied 512 s)) (length (copied 512 s))"
  using length_copied_le [of 512 s] by (simp add: path_fits_def padded_def)

lemma planned_filler:
  assumes "reg_arg_valid argument1 arg" "path_fits buf len"
  shows "event_filler RegistryEvent True (planned_fill K arg buf len)"
proof unfold_locales
  show "fills p (size_of RegistryEvent) d (planned_fill K arg buf len p d)" for p d
    using assms set_value.fill_fills delete_value.fill_fills key_op.fill_fills create_key.fill_fills
    by (cases arg) (auto simp: planned_fill_def reg_arg_valid_def)
qed simp_all

section \<open>Ownership and simulation\<close>

definition registry_ops :: "kernel \<Rightarrow> reg_argument \<Rightarrow> driver \<Rightarrow> chan_op list" where
  "registry_ops K arg d =
    (case registry_plan K arg d of
       (None, d) \<Rightarrow> []
     | (Some f, d) \<Rightarrow> emit_ops K RegistryEvent RegistryModify f d)"

lemma registry_notify_correct:
  assumes own: "owns None bs iq d" and K: "pool_fresh K" "key_names_valid K"
    and v: "reg_arg_valid argument1 arg"
  shows "owns None bs iq (snd (registry_notify K argument1 arg d))"
    and "simulates (registry_ops K arg d) d (snd (registry_notify K argument1 arg d))"
proof -
  obtain pl d1 where pl: "registry_plan K arg d = (pl, d1)" by (cases "registry_plan K arg d")
  note s = registry_plan_spec [OF K(2) v pl]
  have own1: "owns None bs iq d1" using s(1) own by (rule quiet_owns)
  have sim1: "simulates [] d d1" using s(1) by (rule quiet_simulates)
  show "owns None bs iq (snd (registry_notify K argument1 arg d))"
  proof (cases pl)
    case None
    then show ?thesis using own1 pl by (simp add: registry_notify_eq [OF v] emit_planned_def)
  next
    case (Some f)
    then have "event_filler RegistryEvent True f"
      using s(2) planned_filler [OF v path_fits_copied] by (auto split: if_splits)
    then show ?thesis using event_filler.emit_owns [OF _ own1 K(1)] pl Some
      by (simp add: registry_notify_eq [OF v] emit_planned_def)
  qed
  show "simulates (registry_ops K arg d) d (snd (registry_notify K argument1 arg d))"
  proof (cases pl)
    case None
    then show ?thesis using sim1 pl
      by (simp add: registry_notify_eq [OF v] emit_planned_def registry_ops_def)
  next
    case (Some f)
    then have "event_filler RegistryEvent True f"
      using s(2) planned_filler [OF v path_fits_copied] by (auto split: if_splits)
    from event_filler.emit_simulates [OF this own1 K(1), of RegistryModify]
    show ?thesis using simulates_trans [OF sim1] pl Some
      by (simp add: registry_notify_eq [OF v] emit_planned_def registry_ops_def)
  qed
qed

end
