(* ===== verification/Edr_Registry_Content.thy ===== *)
theory Edr_Registry_Content
  imports Edr_Registry_Emit
begin

text \<open>What a registry event contains, field by field, for each of the five operations.\<close>

section \<open>The block after each piece\<close>

lemma heap_registry_common:
  "heap (fill_registry_common K p op d) p =
    write_at 28 (bytes16 (registry_op_u16 op))
      (write_at 24 (bytes32 (ucast (ret_PsGetCurrentProcessId K (trace d)))) (heap d p))"
  by (simp add: fill_registry_common_def Let_def RegistryEvent_def EventHeader_def)

lemma heap_write_resolved_key_path:
  "heap (write_resolved_key_path p (padded 512 us) (length us) d) p = put_units 38 1062 us (heap d p)"
  by (simp add: write_resolved_key_path_def Let_def put_units_def)
    (simp add: RegistryEvent_def EventHeader_def max_defs)

text \<open>A copy into a field followed by its length.\<close>

lemma heap_copy_with_len:
  assumes "pus_valid src"
  shows "heap (write_field RegistryEvent len_name
      (bytes16 (of_nat (fst (copy_unicode_into src (Field RegistryEvent dst p) mx d)))) p
      (snd (snd (copy_unicode_into src (Field RegistryEvent dst p) mx d)))) p =
    put_units (field_off RegistryEvent dst) (field_off RegistryEvent len_name) (copied mx src) (heap d p)"
  using assms by (simp add: heap_copy_unicode_into copy_unicode_into_result put_units_def)

definition preview :: "reg_set_value \<Rightarrow> u8 list" where
  "preview info =
    (case sv_Data info of None \<Rightarrow> [] | Some bytes \<Rightarrow> take (min (unat (sv_DataSize info)) 256) bytes)"

definition put_preview :: "reg_set_value \<Rightarrow> block \<Rightarrow> block" where
  "put_preview info b =
    (if sv_Data info = None \<or> sv_DataSize info = 0 then b
     else write_at 1578 (bytes16 (of_nat (length (preview info)))) (write_at 1322 (preview info) b))"

lemma length_preview: "length (preview info) \<le> 256"
  by (auto simp: preview_def split: option.splits)

lemma length_preview_valid:
  "set_value_valid info \<Longrightarrow> sv_Data info = Some bytes \<Longrightarrow>
   length (preview info) = min (unat (sv_DataSize info)) 256"
  by (auto simp: preview_def set_value_valid_def)

lemma heap_data_preview:
  assumes "set_value_valid info"
  shows "heap (fill_data_preview info p d) p = put_preview info (heap d p)"
proof (cases "sv_Data info")
  case None
  then show ?thesis by (simp add: fill_data_preview_def put_preview_def)
next
  case (Some bytes)
  note len = length_preview_valid [OF assms Some]
  have "preview info = take (min (unat (sv_DataSize info)) 256) bytes"
    using Some by (simp add: preview_def)
  then show ?thesis using Some len
    by (auto simp: fill_data_preview_def put_preview_def Let_def word_neq_0_conv)
      (simp_all add: RegistryEvent_def EventHeader_def max_defs)
qed

lemma read_put_preview_other [simp]:
  "k + n \<le> 1322 \<Longrightarrow> read_at k n (put_preview info b) = read_at k n b"
  by (simp add: put_preview_def)

lemma read_header_put_preview [simp]: "read_header (put_preview info b) = read_header b"
  by (simp add: put_preview_def)

lemma read_put_preview:
  assumes "read_at 1322 256 b = replicate 256 0" "read_at 1578 2 b = replicate 2 0"
    and "set_value_valid info"
  shows "read_at 1322 256 (put_preview info b) = preview info @ replicate (256 - length (preview info)) 0"
    and "unat (of_nat (le_dec (read_at 1578 2 (put_preview info b))) :: u16) = length (preview info)"
proof -
  have e: "preview info = []" if "sv_Data info = None \<or> sv_DataSize info = 0"
    using that by (auto simp: preview_def split: option.splits)
  have u: "unat (of_nat (length (preview info)) :: u16) = length (preview info)"
    using length_preview [of info] by (simp add: unat_of_nat)
  show "read_at 1322 256 (put_preview info b) = preview info @ replicate (256 - length (preview info)) 0"
  proof (cases "sv_Data info = None \<or> sv_DataSize info = 0")
    case True
    then show ?thesis using e assms(1) by (simp add: put_preview_def)
  next
    case False
    let ?n = "length (preview info)"
    have "256 = ?n + (256 - ?n)" using length_preview [of info] by simp
    then have "replicate 256 0 = read_at 1322 ?n b @ read_at (1322 + ?n) (256 - ?n) b"
      using assms(1) read_at_split by metis
    then have "drop ?n (replicate 256 0) = read_at (1322 + ?n) (256 - ?n) b" by simp
    then show ?thesis using False length_preview [of info]
      by (auto simp: put_preview_def read_write_prefix)
  qed
  show "unat (of_nat (le_dec (read_at 1578 2 (put_preview info b))) :: u16) = length (preview info)"
  proof (cases "sv_Data info = None \<or> sv_DataSize info = 0")
    case True
    then show ?thesis using e assms(2) by (simp add: put_preview_def)
  next
    case False
    then show ?thesis using u by (auto simp: put_preview_def)
  qed
qed

section \<open>The five kinds of event\<close>

definition arg_op :: "reg_argument \<Rightarrow> RegistryOp" where
  "arg_op arg =
    (case arg of SetValueArg i \<Rightarrow> SetValue | DeleteValueArg i \<Rightarrow> DeleteValue
     | DeleteKeyArg i \<Rightarrow> DeleteKey | RenameKeyArg i \<Rightarrow> RenameKey | _ \<Rightarrow> CreateKey)"

definition arg_value_name :: "reg_argument \<Rightarrow> unicode_string option" where
  "arg_value_name arg =
    (case arg of SetValueArg i \<Rightarrow> sv_ValueName i | DeleteValueArg i \<Rightarrow> dv_ValueName i | _ \<Rightarrow> None)"

definition set_value_fields :: "reg_argument \<Rightarrow> block \<Rightarrow> block" where
  "set_value_fields arg b =
    (case arg of
       SetValueArg i \<Rightarrow> write_at 34 (bytes32 (sv_DataSize i)) (write_at 30 (bytes32 (sv_Type i)) b)
     | _ \<Rightarrow> b)"

definition value_name_field :: "reg_argument \<Rightarrow> block \<Rightarrow> block" where
  "value_name_field arg b =
    (case arg of
       SetValueArg i \<Rightarrow> put_units 1064 1320 (copied 128 (sv_ValueName i)) b
     | DeleteValueArg i \<Rightarrow> put_units 1064 1320 (copied 128 (dv_ValueName i)) b
     | _ \<Rightarrow> b)"

definition preview_field :: "reg_argument \<Rightarrow> block \<Rightarrow> block" where
  "preview_field arg b = (case arg of SetValueArg i \<Rightarrow> put_preview i b | _ \<Rightarrow> b)"

definition has_info :: "reg_argument \<Rightarrow> bool" where
  "has_info arg \<longleftrightarrow> arg \<noteq> NullArg \<and> arg \<noteq> OtherArg"

lemma heap_planned_fill:
  assumes v: "reg_arg_valid argument1 arg" "has_info arg"
    and us: "us = copied 512 (reg_path K arg d0)"
  shows "heap (planned_fill K arg (padded 512 us) (length us) p d) p =
    preview_field arg (value_name_field arg (put_units 38 1062 us (set_value_fields arg
      (write_at 28 (bytes16 (registry_op_u16 (arg_op arg)))
        (write_at 24 (bytes32 (ucast (ret_PsGetCurrentProcessId K (trace d)))) (heap d p))))))"
proof -
  have offs: "field_off RegistryEvent ''value_name'' = 1064" "field_off RegistryEvent ''value_name_len'' = 1320"
    "field_off RegistryEvent ''key_path'' = 38" "field_off RegistryEvent ''key_path_len'' = 1062"
    "field_off RegistryEvent ''value_type'' = 30" "field_off RegistryEvent ''data_size'' = 34"
    by (simp_all add: RegistryEvent_def EventHeader_def max_defs)
  note maxes = REGISTRY_VALUE_NAME_MAX_def REGISTRY_KEY_PATH_MAX_def
  note fields = arg_op_def set_value_fields_def value_name_field_def preview_field_def
  show ?thesis
  proof (cases arg)
    case (SetValueArg i)
    then have "set_value_valid i" "pus_valid (sv_ValueName i)"
      using v(1) by (simp_all add: reg_arg_valid_def set_value_valid_def)
    then show ?thesis
      by (simp add: SetValueArg planned_fill_def fill_set_value_def Let_def split_beta fields
          heap_data_preview heap_copy_with_len heap_write_resolved_key_path heap_registry_common offs
          maxes del: heap_write_field)
        (simp add: offs heap_registry_common)
  next
    case (DeleteValueArg i)
    then have "pus_valid (dv_ValueName i)" using v(1) by (simp add: reg_arg_valid_def)
    then show ?thesis
      by (simp add: DeleteValueArg planned_fill_def fill_delete_value_def Let_def split_beta fields
          heap_copy_with_len heap_write_resolved_key_path heap_registry_common offs maxes
          del: heap_write_field)
  next
    case (CreateKeyArg i)
    then have "pus_valid (ck_CompleteName i)" using v(1) by (simp add: reg_arg_valid_def)
    then show ?thesis
      by (simp add: CreateKeyArg planned_fill_def fill_create_key_def Let_def split_beta fields us
          reg_path_def heap_copy_with_len heap_registry_common offs maxes del: heap_write_field)
  qed (use v(2) in \<open>simp_all add: has_info_def planned_fill_def fill_key_op_def fields
      heap_write_resolved_key_path heap_registry_common\<close>)
qed

lemma read_registry_fields_other [simp]:
  "k + n \<le> 30 \<or> 38 \<le> k \<Longrightarrow> read_at k n (set_value_fields arg b) = read_at k n b"
  "k + n \<le> 1064 \<or> 1322 \<le> k \<Longrightarrow> read_at k n (value_name_field arg b) = read_at k n b"
  "k + n \<le> 1322 \<Longrightarrow> read_at k n (preview_field arg b) = read_at k n b"
  "read_header (set_value_fields arg b) = read_header b"
  "read_header (value_name_field arg b) = read_header b"
  "read_header (preview_field arg b) = read_header b"
proof -
  have l: "2 * length (copied 128 s) \<le> 256" for s
    using length_copied_le [of 128 s] by simp
  show "k + n \<le> 1064 \<or> 1322 \<le> k \<Longrightarrow> read_at k n (value_name_field arg b) = read_at k n b"
    by (cases arg; use l [of "arg_value_name arg"] in
        \<open>auto simp: value_name_field_def arg_value_name_def intro!: read_put_units_other\<close>)
qed (auto simp: set_value_fields_def value_name_field_def preview_field_def split: reg_argument.split)

lemma registry_block:
  assumes h: "heap d p = write_at 0 (header_bytes h) (zero_block 1580 b0)"
    and v: "reg_arg_valid argument1 arg" "has_info arg"
    and us: "us = copied 512 (reg_path K arg d0)"
    and b: "b = heap (planned_fill K arg (padded 512 us) (length us) p d) p"
  shows "read_header b = h"
    "get_u32 RegistryEvent ''process_id'' b = ucast (ret_PsGetCurrentProcessId K (trace d))"
    "get_u16 RegistryEvent ''operation'' b = registry_op_u16 (arg_op arg)"
    "get_units RegistryEvent ''key_path'' b = padded REGISTRY_KEY_PATH_MAX us"
    "unat (get_u16 RegistryEvent ''key_path_len'' b) = length us"
    "get_units RegistryEvent ''value_name'' b = padded REGISTRY_VALUE_NAME_MAX (copied 128 (arg_value_name arg))"
    "unat (get_u16 RegistryEvent ''value_name_len'' b) = length (copied 128 (arg_value_name arg))"
proof -
  have l: "2 * length us \<le> 1024" "length us \<le> 512"
    using length_copied_le [of 512 "reg_path K arg d0"] by (simp_all add: us)
  have v128: "length (copied 128 s) \<le> 128" for s
    using length_copied_le [of 128 s] by linarith
  have copied_none: "copied n None = []" and padded_none: "padded n [] = replicate n 0" for n
    by (simp_all add: copied_def us_units_def padded_def)
  note b' = b [unfolded heap_planned_fill [OF v us] h]
  note defs = RegistryEvent_def EventHeader_def get_defs max_defs b'
  show "read_header b = h" by (simp add: b' read_header_write)
  show "get_u32 RegistryEvent ''process_id'' b = ucast (ret_PsGetCurrentProcessId K (trace d))"
    "get_u16 RegistryEvent ''operation'' b = registry_op_u16 (arg_op arg)"
    by (simp_all add: defs)
  show "get_units RegistryEvent ''key_path'' b = padded REGISTRY_KEY_PATH_MAX us"
    using l by (simp add: defs read_put_units)
  show "unat (get_u16 RegistryEvent ''key_path_len'' b) = length us"
    using length_copied_u16 [of 512 "reg_path K arg d0"] by (simp add: defs us)
  define c where "c = put_units 38 1062 us (set_value_fields arg
      (write_at 28 (bytes16 (registry_op_u16 (arg_op arg)))
        (write_at 24 (bytes32 (ucast (ret_PsGetCurrentProcessId K (trace d))))
          (write_at 0 (header_bytes h) (zero_block 1580 b0)))))"
  have z: "read_at 1064 256 c = replicate 256 0" "read_at 1320 2 c = replicate 2 0"
    using l by (simp_all add: c_def)
  have "units_of_bytes (read_at 1064 256 (value_name_field arg c)) = padded 128 (copied 128 (arg_value_name arg))"
    using v128 z
    by (cases arg) (simp_all add: value_name_field_def arg_value_name_def read_put_units copied_none
        padded_none)
  then show "get_units RegistryEvent ''value_name'' b =
      padded REGISTRY_VALUE_NAME_MAX (copied 128 (arg_value_name arg))"
    by (simp add: defs flip: c_def)
  have "unat (of_nat (le_dec (read_at 1320 2 (value_name_field arg c))) :: u16) =
      length (copied 128 (arg_value_name arg))"
    using z length_copied_u16 [of 128 "arg_value_name arg"]
    by (cases arg) (simp_all add: value_name_field_def arg_value_name_def copied_none)
  then show "unat (get_u16 RegistryEvent ''value_name_len'' b) = length (copied 128 (arg_value_name arg))"
    by (simp add: defs flip: c_def)
qed

text \<open>The fields only a value being set has.\<close>

lemma set_value_block:
  assumes h: "heap d p = write_at 0 (header_bytes h) (zero_block 1580 b0)"
    and arg: "arg = SetValueArg i" and v: "reg_arg_valid argument1 arg"
    and us: "us = copied 512 (reg_path K arg d0)"
    and b: "b = heap (planned_fill K arg (padded 512 us) (length us) p d) p"
  shows "get_u32 RegistryEvent ''value_type'' b = sv_Type i"
    "get_u32 RegistryEvent ''data_size'' b = sv_DataSize i"
    "get_field RegistryEvent ''data_preview'' b = preview i @ replicate (256 - length (preview i)) 0"
    "unat (get_u16 RegistryEvent ''data_preview_len'' b) = length (preview i)"
proof -
  have l: "2 * length us \<le> 1024"
    using length_copied_le [of 512 "reg_path K arg d0"] by (simp add: us)
  have i: "has_info arg" "set_value_valid i"
    using v by (simp_all add: arg has_info_def reg_arg_valid_def)
  note b' = b [unfolded heap_planned_fill [OF v i(1) us] h]
  note defs = RegistryEvent_def EventHeader_def get_defs max_defs b'
  show "get_u32 RegistryEvent ''value_type'' b = sv_Type i"
    "get_u32 RegistryEvent ''data_size'' b = sv_DataSize i"
    by (simp_all add: defs arg set_value_fields_def)
  define c where "c = value_name_field arg (put_units 38 1062 us (set_value_fields arg
      (write_at 28 (bytes16 (registry_op_u16 (arg_op arg)))
        (write_at 24 (bytes32 (ucast (ret_PsGetCurrentProcessId K (trace d))))
          (write_at 0 (header_bytes h) (zero_block 1580 b0))))))"
  have z: "read_at 1322 256 c = replicate 256 0" "read_at 1578 2 c = replicate 2 0"
    using l by (simp_all add: c_def)
  have "b = put_preview i c" by (simp add: b' c_def preview_field_def arg)
  then show "get_field RegistryEvent ''data_preview'' b = preview i @ replicate (256 - length (preview i)) 0"
    "unat (get_u16 RegistryEvent ''data_preview_len'' b) = length (preview i)"
    using read_put_preview [OF z i(2)]
    by (simp_all add: get_defs RegistryEvent_def EventHeader_def max_defs)
qed

section \<open>The submission\<close>

lemma registry_submits:
  assumes ok: "driver_ok d" and K: "pool_fresh K" "key_names_valid K"
    and v: "reg_arg_valid argument1 arg" and i: "is_interesting_path (us_units (reg_path K arg d))"
    and d1: "d1 = snd (registry_plan K arg d)"
    and p: "fst (alloc_event_for K RegistryEvent (event_type_u16 RegistryModify) d1) \<noteq> null_ptr"
  obtains p d2 b0 where
    "simulates [Stamp, Submit (read_at 0 1580
       (heap (planned_fill K arg (padded 512 (copied 512 (reg_path K arg d)))
          (length (copied 512 (reg_path K arg d))) p d2) p))] d (snd (registry_notify K argument1 arg d))"
    "heap d2 p = write_at 0
       (header_bytes (stamped_header K RegistryEvent (event_type_u16 RegistryModify) d1)) (zero_block 1580 b0)"
    "d2 = snd (alloc_event_for K RegistryEvent (event_type_u16 RegistryModify) d1)"
proof -
  let ?f = "planned_fill K arg (padded 512 (copied 512 (reg_path K arg d))) (length (copied 512 (reg_path K arg d)))"
  have pl: "registry_plan K arg d = (Some ?f, d1)" and q: "quiet d d1"
    using registry_plan_spec [OF K(2) v, of d "fst (registry_plan K arg d)" d1] i d1
    by (auto simp: prod_eq_iff)
  have "owns None [] [] d1" using q ok unfolding driver_ok_def by (rule quiet_owns)
  from event_filler.emit_content [OF planned_filler [OF v path_fits_copied] this K(1) TrueI p]
  obtain p d2 b0 where "simulates [Stamp, Submit (read_at 0 (size_of RegistryEvent) (heap (?f p d2) p))] d1
      (emit_event K RegistryEvent RegistryModify ?f d1)"
    "heap d2 p = write_at 0
       (header_bytes (stamped_header K RegistryEvent (event_type_u16 RegistryModify) d1))
       (zero_block (size_of RegistryEvent) b0)"
    "d2 = snd (alloc_event_for K RegistryEvent (event_type_u16 RegistryModify) d1)" .
  then show thesis
    using that [of p d2 b0] simulates_trans [OF quiet_simulates [OF q]] pl
    by (simp add: registry_notify_eq [OF v] emit_planned_def)
qed

lemma not_interesting_relative:
  assumes "u \<noteq> 0x5C"
  shows "\<not> is_interesting_path (u # us)"
proof -
  have "upper16 u \<noteq> 0x5C"
    using assms by (auto simp: word_unat_eq_iff unat_upper16)
  then have "upper16 u \<noteq> upper16 0x5C" by (simp add: upper16_def)
  then show ?thesis
    by (simp add: is_interesting_path_iff CRITICAL_REGISTRY_PREFIXES_def nt_path_def folded_def)
qed

section \<open>Properties\<close>

text \<open>
  The registry callback lets every operation through: whatever the class and the argument, it
  returns success.
\<close>

lemma registry_notify_never_blocks:
  "fst (registry_notify K argument1 arg d) = STATUS_SUCCESS"
  by (simp add: registry_notify_def Let_def)

text \<open>
  C24. An operation on a path outside the watch list leaves no mark: the queue, the parked request, the
  counter of losses, pool memory and the monitor are as before, and no request was answered. Every
  name obtained from the configuration manager was released.
\<close>

theorem registry_unwatched_ignored:
  assumes "key_names_valid K" "reg_arg_valid argument1 arg"
    and "\<not> is_interesting_path (us_units (reg_path K arg d))" "mon_of d \<noteq> None"
  shows "chan_of (snd (registry_notify K argument1 arg d)) = chan_of d \<and>
    replies (trace (snd (registry_notify K argument1 arg d))) = replies (trace d) \<and>
    heap (snd (registry_notify K argument1 arg d)) = heap d \<and>
    mon_of (snd (registry_notify K argument1 arg d)) = mon_of d"
proof -
  obtain pl d1 where pl: "registry_plan K arg d = (pl, d1)" by (cases "registry_plan K arg d")
  note s = registry_plan_spec [OF assms(1,2) pl]
  have "snd (registry_notify K argument1 arg d) = d1"
    using s(2) assms(3) pl by (simp add: registry_notify_eq [OF assms(2)] emit_planned_def)
  then show ?thesis using s(1) quiet_simulates [OF s(1)] assms(4) by (simp add: quietD simulates_def)
qed

theorem registry_unwatched_ignored_witness:
  "heap (snd (registry_notify sample_kernel 26
      (CreateKeyArg \<lparr>ck_CompleteName = Some \<lparr>Length = 2, Buffer = Some [0x41]\<rparr>\<rparr>) sample_driver)) = heap sample_driver"
proof -
  let ?a = "CreateKeyArg \<lparr>ck_CompleteName = Some \<lparr>Length = 2, Buffer = Some [0x41]\<rparr>\<rparr>"
  have v: "reg_arg_valid 26 ?a"
    by (simp add: reg_arg_valid_def reg_class_defs pus_valid_def us_valid_def)
  have n: "\<not> is_interesting_path (us_units (reg_path sample_kernel ?a sample_driver))"
    by (simp add: reg_path_def us_units_def is_interesting_path_iff CRITICAL_REGISTRY_PREFIXES_def
        nt_path_def folded_def of_char_def upper16_def)
  show ?thesis
    using registry_unwatched_ignored [OF sample_key_names_valid v n] by (simp add: sample_driver_def)
qed

text \<open>
  C22. An operation on a watched path that gets a pool block submits one event: the header stamped
  after the path was resolved, the current process, the operation, the path cut off at 511 units
  and zero-padded with its length, and for the two operations on values the value's name.
\<close>

theorem registry_reported:
  assumes "driver_ok d" "pool_fresh K" "key_names_valid K" "reg_arg_valid argument1 arg" "has_info arg"
    and "is_interesting_path (us_units (reg_path K arg d))"
    and "d1 = snd (registry_plan K arg d)"
    and "fst (alloc_event_for K RegistryEvent (event_type_u16 RegistryModify) d1) \<noteq> null_ptr"
  shows "\<exists>b. simulates [Stamp, Submit (read_at 0 1580 b)] d (snd (registry_notify K argument1 arg d)) \<and>
    read_header b = stamped_header K RegistryEvent (event_type_u16 RegistryModify) d1 \<and>
    get_u32 RegistryEvent ''process_id'' b = ucast (ret_PsGetCurrentProcessId K
      (trace (snd (alloc_event_for K RegistryEvent (event_type_u16 RegistryModify) d1)))) \<and>
    get_u16 RegistryEvent ''operation'' b = registry_op_u16 (arg_op arg) \<and>
    get_units RegistryEvent ''key_path'' b = padded REGISTRY_KEY_PATH_MAX (copied 512 (reg_path K arg d)) \<and>
    unat (get_u16 RegistryEvent ''key_path_len'' b) = length (copied 512 (reg_path K arg d)) \<and>
    get_units RegistryEvent ''value_name'' b = padded REGISTRY_VALUE_NAME_MAX (copied 128 (arg_value_name arg)) \<and>
    unat (get_u16 RegistryEvent ''value_name_len'' b) = length (copied 128 (arg_value_name arg))"
proof -
  obtain p d2 b0 where s: "simulates [Stamp, Submit (read_at 0 1580
       (heap (planned_fill K arg (padded 512 (copied 512 (reg_path K arg d)))
          (length (copied 512 (reg_path K arg d))) p d2) p))] d (snd (registry_notify K argument1 arg d))"
    and h: "heap d2 p = write_at 0
       (header_bytes (stamped_header K RegistryEvent (event_type_u16 RegistryModify) d1)) (zero_block 1580 b0)"
    and d2: "d2 = snd (alloc_event_for K RegistryEvent (event_type_u16 RegistryModify) d1)"
    by (rule registry_submits [OF assms(1-4,6-8)])
  note c = registry_block [OF h assms(4,5) refl refl, of K d]
  show ?thesis
    using s c d2 by (intro exI [of _ "heap (planned_fill K arg (padded 512 (copied 512 (reg_path K arg d)))
          (length (copied 512 (reg_path K arg d))) p d2) p"]) simp
qed

theorem registry_reported_witness:
  "\<exists>b. simulates [Stamp, Submit (read_at 0 1580 b)] sample_driver
      (snd (registry_notify sample_kernel 0 (DeleteKeyArg \<lparr>dk_Object = 3\<rparr>) sample_driver)) \<and>
    get_u16 RegistryEvent ''operation'' b = 3 \<and>
    take 14 (get_units RegistryEvent ''key_path'' b) = sample_key"
proof -
  let ?a = "DeleteKeyArg \<lparr>dk_Object = 3\<rparr>"
  have v: "reg_arg_valid 0 ?a" "has_info ?a"
    by (simp_all add: reg_arg_valid_def reg_class_defs has_info_def)
  have p: "us_units (reg_path sample_kernel ?a sample_driver) = sample_key"
    by (simp add: reg_path_def key_name_def nt_error_def us_units_def sample_key_def)
  have "is_interesting_path sample_key"
    by (simp add: is_interesting_path_iff CRITICAL_REGISTRY_PREFIXES_def nt_path_def folded_def
        of_char_def upper16_def sample_key_def)
  from registry_reported [OF sample_driver_ok sample_pool_fresh(1) sample_key_names_valid v
      this [folded p] refl sample_alloc(1)]
  show ?thesis
    by (elim exE conjE, intro exI conjI)
      (assumption | simp add: arg_op_def | simp add: copied_def p padded_def sample_key_def)+
qed

text \<open>
  C23. For a value being set the event also has its type, the size of its data and the first 256 bytes
  of the data, with the number of bytes kept; without data the number is zero.
\<close>

theorem set_value_reported:
  assumes "driver_ok d" "pool_fresh K" "key_names_valid K" "reg_arg_valid argument1 (SetValueArg i)"
    and "is_interesting_path (us_units (key_name K (sv_Object i) d))"
    and "d1 = snd (registry_plan K (SetValueArg i) d)"
    and "fst (alloc_event_for K RegistryEvent (event_type_u16 RegistryModify) d1) \<noteq> null_ptr"
  shows "\<exists>b. simulates [Stamp, Submit (read_at 0 1580 b)] d (snd (registry_notify K argument1 (SetValueArg i) d)) \<and>
    get_u32 RegistryEvent ''value_type'' b = sv_Type i \<and>
    get_u32 RegistryEvent ''data_size'' b = sv_DataSize i \<and>
    get_field RegistryEvent ''data_preview'' b = preview i @ replicate (256 - length (preview i)) 0 \<and>
    unat (get_u16 RegistryEvent ''data_preview_len'' b) =
      (if sv_Data i = None then 0 else min (unat (sv_DataSize i)) REGISTRY_DATA_PREVIEW_MAX)"
proof -
  have path: "reg_path K (SetValueArg i) d = key_name K (sv_Object i) d" by (simp add: reg_path_def)
  obtain p d2 b0 where s: "simulates [Stamp, Submit (read_at 0 1580
       (heap (planned_fill K (SetValueArg i) (padded 512 (copied 512 (reg_path K (SetValueArg i) d)))
          (length (copied 512 (reg_path K (SetValueArg i) d))) p d2) p))] d
       (snd (registry_notify K argument1 (SetValueArg i) d))"
    and h: "heap d2 p = write_at 0
       (header_bytes (stamped_header K RegistryEvent (event_type_u16 RegistryModify) d1)) (zero_block 1580 b0)"
    by (rule registry_submits [OF assms(1-4) assms(5) [folded path] assms(6,7)])
  note c = set_value_block [OF h refl assms(4) refl refl, of K d]
  have "set_value_valid i" using assms(4) by (simp add: reg_arg_valid_def)
  then have "length (preview i) = (if sv_Data i = None then 0 else min (unat (sv_DataSize i)) 256)"
    by (cases "sv_Data i") (simp_all add: length_preview_valid, simp add: preview_def)
  with s c show ?thesis
    by (intro exI [of _ "heap (planned_fill K (SetValueArg i) (padded 512 (copied 512 (reg_path K (SetValueArg i) d)))
          (length (copied 512 (reg_path K (SetValueArg i) d))) p d2) p"])
      (simp add: REGISTRY_DATA_PREVIEW_MAX_def)
qed

theorem set_value_reported_witness:
  "\<exists>b. simulates [Stamp, Submit (read_at 0 1580 b)] sample_driver (snd (registry_notify sample_kernel 1
      (SetValueArg \<lparr>sv_Object = 3, sv_ValueName = None, sv_Type = 4, sv_DataSize = 2,
         sv_Data = Some [0xAB, 0xCD, 0xEF]\<rparr>) sample_driver)) \<and>
    get_u32 RegistryEvent ''value_type'' b = 4 \<and>
    take 3 (get_field RegistryEvent ''data_preview'' b) = [0xAB, 0xCD, 0] \<and>
    unat (get_u16 RegistryEvent ''data_preview_len'' b) = 2"
proof -
  let ?i = "\<lparr>sv_Object = 3, sv_ValueName = None, sv_Type = 4, sv_DataSize = 2,
         sv_Data = Some [0xAB, 0xCD, 0xEF]\<rparr>"
  have v: "reg_arg_valid 1 (SetValueArg ?i)"
    by (simp add: reg_arg_valid_def reg_class_defs set_value_valid_def pus_valid_def)
  have p: "us_units (key_name sample_kernel (sv_Object ?i) sample_driver) = sample_key"
    by (simp add: key_name_def nt_error_def us_units_def sample_key_def)
  have "is_interesting_path sample_key"
    by (simp add: is_interesting_path_iff CRITICAL_REGISTRY_PREFIXES_def nt_path_def folded_def
        of_char_def upper16_def sample_key_def)
  from set_value_reported [OF sample_driver_ok sample_pool_fresh(1) sample_key_names_valid v
      this [folded p] refl sample_alloc(1)]
  show ?thesis
    by (elim exE conjE, intro exI conjI) (assumption | simp add: preview_def REGISTRY_DATA_PREVIEW_MAX_def)+
qed

text \<open>
  C25. A key creation whose \<open>CompleteName\<close> is relative, that is, does not begin with a backslash, is
  never forwarded, wherever the key lies: the queue, the parked request, the loss counter and the replies stay
  as they are.
\<close>

theorem relative_create_ignored:
  assumes "key_names_valid K" "pus_valid (Some s)" "us_units (Some s) = u # us" "u \<noteq> 0x5C"
  shows "chan_of (snd (registry_notify K 26 (CreateKeyArg \<lparr>ck_CompleteName = Some s\<rparr>) d)) = chan_of d \<and>
    replies (trace (snd (registry_notify K 26 (CreateKeyArg \<lparr>ck_CompleteName = Some s\<rparr>) d))) = replies (trace d)"
proof -
  let ?a = "CreateKeyArg \<lparr>ck_CompleteName = Some s\<rparr>"
  have v: "reg_arg_valid 26 ?a" using assms(2) by (simp add: reg_arg_valid_def reg_class_defs)
  obtain pl d1 where pl: "registry_plan K ?a d = (pl, d1)" by (cases "registry_plan K ?a d")
  note p = registry_plan_spec [OF assms(1) v pl]
  have "\<not> is_interesting_path (us_units (reg_path K ?a d))"
    using not_interesting_relative [OF assms(4)] assms(3) by (simp add: reg_path_def)
  then have "snd (registry_notify K 26 ?a d) = d1"
    using p(2) pl by (simp add: registry_notify_eq [OF v] emit_planned_def)
  then show ?thesis using quiet_simulates [OF p(1)] by (simp add: simulates_def)
qed

theorem relative_create_ignored_witness:
  "chan_of (snd (registry_notify sample_kernel 26
     (CreateKeyArg \<lparr>ck_CompleteName = Some \<lparr>Length = 4, Buffer = Some [0x52, 0x75]\<rparr>\<rparr>) sample_driver)) = chan_of sample_driver"
proof -
  have "pus_valid (Some \<lparr>Length = 4, Buffer = Some [0x52, 0x75]\<rparr>)"
    "us_units (Some \<lparr>Length = 4, Buffer = Some [0x52, 0x75]\<rparr>) = 0x52 # [0x75]" "(0x52 :: u16) \<noteq> 0x5C"
    by (simp_all add: pus_valid_def us_valid_def us_units_def)
  from relative_create_ignored [OF sample_key_names_valid this, of sample_driver] show ?thesis by simp
qed

end
