(* ===== verification/Edr_Lifecycle.thy ===== *)
theory Edr_Lifecycle
  imports Edr_Registry Edr_Dispatch
begin

text \<open>
  Loading and unloading (\<open>src/src/lib.rs\<close>). \<open>driver_entry\<close> and \<open>driver_unload\<close> are the compositions of
  the numbered stages of the source, one definition per stage.
\<close>

section \<open>Names\<close>

definition OB_ALTITUDE :: "u8 list" where
  "OB_ALTITUDE = map of_char ''321000'' @ [0]"

definition DEVICE_NAME :: "u8 list" where
  "DEVICE_NAME = nt_path [''Device'', ''WazabiEDR''] @ [0]"

definition SYMLINK_NAME :: "u8 list" where
  "SYMLINK_NAME = nt_path [''DosDevices'', ''WazabiEDR''] @ [0]"

section \<open>The dispatch table\<close>

datatype dispatch_routine =
    Dispatch_invalid | Dispatch_create_close | Dispatch_cleanup | Dispatch_device_control

text \<open>\<open>None\<close> is a null function pointer.\<close>

record driver_object =
  DriverUnload :: bool
  MajorFunction :: "dispatch_routine option list"

definition IRP_MJ_CREATE :: nat where "IRP_MJ_CREATE = 0"
definition IRP_MJ_CLOSE :: nat where "IRP_MJ_CLOSE = 2"
definition IRP_MJ_DEVICE_CONTROL :: nat where "IRP_MJ_DEVICE_CONTROL = 0x0E"
definition IRP_MJ_CLEANUP :: nat where "IRP_MJ_CLEANUP = 0x12"
definition IRP_MJ_MAXIMUM_FUNCTION :: nat where "IRP_MJ_MAXIMUM_FUNCTION = 0x1B"

lemmas irp_mj_defs = IRP_MJ_CREATE_def IRP_MJ_CLOSE_def IRP_MJ_DEVICE_CONTROL_def
  IRP_MJ_CLEANUP_def IRP_MJ_MAXIMUM_FUNCTION_def

definition wire_dispatch :: "driver_object \<Rightarrow> driver_object" where
  "wire_dispatch obj =
    (let mj = MajorFunction obj;
         mj = fold (\<lambda>i mj. mj[i := Some Dispatch_invalid]) [0..<IRP_MJ_MAXIMUM_FUNCTION + 1] mj;
         mj = mj[IRP_MJ_CREATE := Some Dispatch_create_close];
         mj = mj[IRP_MJ_CLOSE := Some Dispatch_create_close];
         mj = mj[IRP_MJ_CLEANUP := Some Dispatch_cleanup];
         mj = mj[IRP_MJ_DEVICE_CONTROL := Some Dispatch_device_control]
     in \<lparr>DriverUnload = True, MajorFunction = mj\<rparr>)"

section \<open>driver\_entry\<close>

definition DO_BUFFERED_IO :: u32 where "DO_BUFFERED_IO = 4"

text \<open>
  Stages 3 and 4: the device and its symbolic link. \<open>Inl status\<close> is an early return. The names are
  logged as the NUL-terminated buffers the \<open>UNICODE_STRING\<close>s are initialised from.
\<close>

definition create_device :: "kernel \<Rightarrow> driver \<Rightarrow> (u32 + unit) \<times> driver" where
  "create_device K d =
    (let device_name_buf = wstr16 DEVICE_NAME;
         (status, device) = ret_IoCreateDevice K (trace d);
         d = log_call (IoCreateDevice 0 device_name_buf FILE_DEVICE_UNKNOWN 0 0 status device) d
     in if nt_error status then
          let d = log_call (DbgPrint ''[WazabiEDR] IoCreateDevice failed'') d
          in (Inl status, d)
        else
          let d = log_call (SetDeviceFlags device DO_BUFFERED_IO) d;
              d = d\<lparr>CONTROL_DEVICE := device\<rparr>;
              symlink_buf = wstr16 SYMLINK_NAME;
              status = ret_IoCreateSymbolicLink K (trace d);
              d = log_call (IoCreateSymbolicLink symlink_buf device_name_buf status) d
          in if nt_error status then
               let d = log_call (DbgPrint ''[WazabiEDR] IoCreateSymbolicLink failed'') d;
                   d = log_call (IoDeleteDevice device) d;
                   d = d\<lparr>CONTROL_DEVICE := null_ptr\<rparr>
               in (Inl status, d)
             else (Inr (), d))"

text \<open>Stages 5 to 9: each counts a failure or sets its flag.\<close>

definition register_process :: "kernel \<Rightarrow> nat \<times> driver \<Rightarrow> nat \<times> driver" where
  "register_process K = (\<lambda>(failed, d).
    let status = ret_PsSetCreateProcessNotifyRoutineEx K (trace d) False;
        d = log_call (PsSetCreateProcessNotifyRoutineEx False status) d
    in if nt_error status then
         (failed + 1, log_call (DbgPrint ''[WazabiEDR] PsSetCreateProcessNotifyRoutineEx failed'') d)
       else (failed, d\<lparr>PROCESS_CALLBACK_REGISTERED := True\<rparr>))"

definition register_image :: "kernel \<Rightarrow> nat \<times> driver \<Rightarrow> nat \<times> driver" where
  "register_image K = (\<lambda>(failed, d).
    let status = ret_PsSetLoadImageNotifyRoutine K (trace d);
        d = log_call (PsSetLoadImageNotifyRoutine status) d
    in if nt_error status then
         (failed + 1, log_call (DbgPrint ''[WazabiEDR] PsSetLoadImageNotifyRoutine failed'') d)
       else (failed, d\<lparr>IMAGE_CALLBACK_REGISTERED := True\<rparr>))"

definition register_registry :: "kernel \<Rightarrow> nat \<times> driver \<Rightarrow> nat \<times> driver" where
  "register_registry K = (\<lambda>(failed, d).
    let (status, cookie) = ret_CmRegisterCallback K (trace d);
        d = log_call (CmRegisterCallback status cookie) d
    in if nt_error status then
         (failed + 1, log_call (DbgPrint ''[WazabiEDR] CmRegisterCallback failed'') d)
       else (failed, d\<lparr>REGISTRY_CALLBACK_COOKIE := cookie, REGISTRY_CALLBACK_REGISTERED := True\<rparr>))"

definition register_thread :: "kernel \<Rightarrow> nat \<times> driver \<Rightarrow> nat \<times> driver" where
  "register_thread K = (\<lambda>(failed, d).
    let status = ret_PsSetCreateThreadNotifyRoutine K (trace d);
        d = log_call (PsSetCreateThreadNotifyRoutine status) d
    in if nt_error status then
         (failed + 1, log_call (DbgPrint ''[WazabiEDR] PsSetCreateThreadNotifyRoutine failed'') d)
       else (failed, d\<lparr>THREAD_CALLBACK_REGISTERED := True\<rparr>))"

text \<open>What \<open>ObRegisterCallbacks\<close> is given: process handles created and duplicated, looked at beforehand.\<close>

definition cb_reg :: ob_registration where
  "cb_reg =
    \<lparr>RegVersion = ucast OB_FLT_REGISTRATION_VERSION, OperationRegistrationCount = 1,
     Altitude = wstr16 OB_ALTITUDE, RegObjectType = PsProcessType,
     Operations = OB_OPERATION_HANDLE_CREATE OR OB_OPERATION_HANDLE_DUPLICATE,
     PreOperation = True, PostOperation = False\<rparr>"

definition register_object :: "kernel \<Rightarrow> nat \<times> driver \<Rightarrow> nat \<times> driver" where
  "register_object K = (\<lambda>(failed, d).
    let (status, handle) = ret_ObRegisterCallbacks K (trace d);
        d = log_call (ObRegisterCallbacks cb_reg status handle) d
    in if nt_error status then
         (failed + 1, log_call (DbgPrint ''[WazabiEDR] ObRegisterCallbacks failed'') d)
       else (failed, d\<lparr>OBJECT_CALLBACK_HANDLE := handle\<rparr>))"

definition driver_entry :: "kernel \<Rightarrow> driver_object \<Rightarrow> driver \<Rightarrow> u32 \<times> driver_object \<times> driver" where
  "driver_entry K obj d =
    (let d = log_call (DbgPrint ''[WazabiEDR] DriverEntry called'') d;
         obj = wire_dispatch obj;
         d = log_call KeInitializeSpinLock d;
         (r, d) = create_device K d
     in case r of
          Inl status \<Rightarrow> (status, obj, d)
        | Inr _ \<Rightarrow>
            let (failed_count, d) =
                  register_object K (register_thread K (register_registry K
                    (register_image K (register_process K (0, d)))));
                d = log_call (DbgPrint (if failed_count > 0 then ''[WazabiEDR] ready (degraded)''
                                        else ''[WazabiEDR] ready'')) d
            in (STATUS_SUCCESS, obj, d))"

section \<open>driver\_unload\<close>

text \<open>Each removal swaps its flag or handle first, so that none is done twice.\<close>

definition unregister_object :: "driver \<Rightarrow> driver" where
  "unregister_object d =
    (let obj_handle = OBJECT_CALLBACK_HANDLE d;
         d = d\<lparr>OBJECT_CALLBACK_HANDLE := null_ptr\<rparr>
     in if obj_handle \<noteq> null_ptr then log_call (ObUnRegisterCallbacks obj_handle) d else d)"

definition unregister_thread :: "driver \<Rightarrow> driver" where
  "unregister_thread d =
    (let thread = THREAD_CALLBACK_REGISTERED d;
         d = d\<lparr>THREAD_CALLBACK_REGISTERED := False\<rparr>
     in if thread then log_call PsRemoveCreateThreadNotifyRoutine d else d)"

definition unregister_registry :: "driver \<Rightarrow> driver" where
  "unregister_registry d =
    (let registry = REGISTRY_CALLBACK_REGISTERED d;
         d = d\<lparr>REGISTRY_CALLBACK_REGISTERED := False\<rparr>
     in if registry then log_call (CmUnRegisterCallback (REGISTRY_CALLBACK_COOKIE d)) d else d)"

definition unregister_image :: "driver \<Rightarrow> driver" where
  "unregister_image d =
    (let image = IMAGE_CALLBACK_REGISTERED d;
         d = d\<lparr>IMAGE_CALLBACK_REGISTERED := False\<rparr>
     in if image then log_call PsRemoveLoadImageNotifyRoutine d else d)"

definition unregister_process :: "kernel \<Rightarrow> driver \<Rightarrow> driver" where
  "unregister_process K d =
    (let process = PROCESS_CALLBACK_REGISTERED d;
         d = d\<lparr>PROCESS_CALLBACK_REGISTERED := False\<rparr>
     in if process
        then log_call (PsSetCreateProcessNotifyRoutineEx True
               (ret_PsSetCreateProcessNotifyRoutineEx K (trace d) True)) d
        else d)"

definition unregister_callbacks :: "kernel \<Rightarrow> driver \<Rightarrow> driver" where
  "unregister_callbacks K d =
    unregister_process K (unregister_image (unregister_registry (unregister_thread (unregister_object d))))"

lemmas unregister_defs = unregister_object_def unregister_thread_def unregister_registry_def
  unregister_image_def unregister_process_def

definition cancel_pending :: "driver \<Rightarrow> driver" where
  "cancel_pending d =
    (let (pending, d) = take_pending d
     in if pending \<noteq> null_ptr then snd (complete_irp pending STATUS_CANCELLED 0 d) else d)"

text \<open>The \<open>while let\<close> loop; it ends because every pop shortens the queue.\<close>

function drain_loop :: "driver \<Rightarrow> driver" where
  "drain_loop d =
    (case queue_pop_locked d of
       (None, d) \<Rightarrow> d
     | (Some slot, d) \<Rightarrow> drain_loop (free_pool (data slot) d))"
  by pat_completeness auto

lemma pop_some_shorter:
  "queue_pop_locked d = (Some slot, d') \<Longrightarrow> QUEUE_LEN (free_pool p d') < QUEUE_LEN d"
  by (auto simp: queue_pop_locked_def Let_def log_call_def free_pool_def split: if_splits)

termination drain_loop
  by (relation "measure QUEUE_LEN") (simp_all add: pop_some_shorter [OF sym])

declare drain_loop.simps [simp del]

definition drain_queue :: "kernel \<Rightarrow> driver \<Rightarrow> driver" where
  "drain_queue K d =
    (let (guard, d) = SpinLockGuard_acquire K d; d = drain_loop d in SpinLockGuard_drop guard d)"

definition delete_device :: "driver \<Rightarrow> driver" where
  "delete_device d =
    (let symlink_buf = wstr16 SYMLINK_NAME;
         d = log_call (IoDeleteSymbolicLink symlink_buf) d;
         dev = CONTROL_DEVICE d;
         d = d\<lparr>CONTROL_DEVICE := null_ptr\<rparr>
     in if dev \<noteq> null_ptr then log_call (IoDeleteDevice dev) d else d)"

definition driver_unload :: "kernel \<Rightarrow> driver \<Rightarrow> driver" where
  "driver_unload K d =
    (let d = log_call (DbgPrint ''[WazabiEDR] DriverUnload - stopping'') d;
         d = unregister_callbacks K d;
         d = cancel_pending d;
         d = drain_queue K d;
         d = delete_device d
     in log_call (DbgPrint ''[WazabiEDR] DriverUnload - bye'') d)"

section \<open>The dispatch table is total\<close>

lemma fold_update_length [simp]: "length (fold (\<lambda>i xs. xs[i := v]) is xs) = length xs"
  by (induction "is" arbitrary: xs) simp_all

lemma fold_update_nth:
  "j < length xs \<Longrightarrow> fold (\<lambda>i xs. xs[i := v]) is xs ! j = (if j \<in> set is then v else xs ! j)"
  by (induction "is" arbitrary: xs) (auto simp: nth_list_update)

definition routine_for :: "nat \<Rightarrow> dispatch_routine" where
  "routine_for major =
    (if major = IRP_MJ_CREATE \<or> major = IRP_MJ_CLOSE then Dispatch_create_close
     else if major = IRP_MJ_CLEANUP then Dispatch_cleanup
     else if major = IRP_MJ_DEVICE_CONTROL then Dispatch_device_control
     else Dispatch_invalid)"

lemma wire_dispatch_nth:
  assumes "length (MajorFunction obj) = 28" "major < 28"
  shows "MajorFunction (wire_dispatch obj) ! major = Some (routine_for major)"
  using assms
  by (auto simp: wire_dispatch_def Let_def routine_for_def irp_mj_defs nth_list_update fold_update_nth
      simp del: upt_Suc)

section \<open>Registrations and ownership\<close>

text \<open>A step that changes registrations only.\<close>

lemma owns_registration:
  assumes own: "owns lk bs iq d"
    and frame: "QUEUE_BUF d' = QUEUE_BUF d" "QUEUE_HEAD d' = QUEUE_HEAD d"
      "QUEUE_TAIL d' = QUEUE_TAIL d" "QUEUE_LEN d' = QUEUE_LEN d" "PENDING_IRP d' = PENDING_IRP d"
      "irps d' = irps d"
    and mon: "\<And>m. mon_of d = Some m \<Longrightarrow> m_lock m = lk \<Longrightarrow> regs_agree m d \<Longrightarrow>
      \<exists>m'. mon_of d' = Some m' \<and> m_live m' = m_live m \<and> m_irps m' = m_irps m \<and>
        m_lock m' = m_lock m \<and> m_names m' = m_names m \<and> m_refs m' = m_refs m \<and>
        m_strings m' = m_strings m \<and> regs_agree m' d'"
  shows "owns lk bs iq d'"
proof -
  from own obtain m where m: "ring_ok d" "mon_of d = Some m" "m_lock m = lk" "no_loans m"
    "regs_agree m d" "blocks_owned bs m d" "irps_owned iq m d"
    by (rule ownsE)
  obtain m' where m': "mon_of d' = Some m'" "m_live m' = m_live m" "m_irps m' = m_irps m"
    "m_lock m' = m_lock m" "m_names m' = m_names m" "m_refs m' = m_refs m"
    "m_strings m' = m_strings m" "regs_agree m' d'"
    using mon [OF m(2,3,5)] by blast
  have q: "queue_list d' = queue_list d" using frame by (intro queue_list_frame) simp_all
  have "ring_ok d'" using m(1) frame ring_ok_frame [of d' d] by simp
  then show ?thesis
    using m m' frame
    by (intro ownsI [where m = m'])
      (simp_all add: no_loans_def blocks_owned_def queue_blocks_def irps_owned_def q)
qed

lemma mon_of_append:
  "mon_of d = Some m \<Longrightarrow> trace d' = trace d @ cs \<Longrightarrow> mon_of d' = mon_run cs m"
  by (simp add: mon_of_def mon_run_append)

text \<open>On success the kernel hands out real handles.\<close>

definition handles_valid :: "kernel \<Rightarrow> bool" where
  "handles_valid K \<longleftrightarrow>
    (\<forall>h. (case ret_IoCreateDevice K h of (status, device) \<Rightarrow> \<not> nt_error status \<longrightarrow> device \<noteq> null_ptr) \<and>
         (case ret_ObRegisterCallbacks K h of (status, handle) \<Rightarrow> \<not> nt_error status \<longrightarrow> handle \<noteq> null_ptr))"

text \<open>Nothing registered yet.\<close>

definition unregistered :: "driver \<Rightarrow> bool" where
  "unregistered d \<longleftrightarrow> \<not> PROCESS_CALLBACK_REGISTERED d \<and> \<not> IMAGE_CALLBACK_REGISTERED d \<and>
    \<not> REGISTRY_CALLBACK_REGISTERED d \<and> \<not> THREAD_CALLBACK_REGISTERED d \<and>
    OBJECT_CALLBACK_HANDLE d = null_ptr"

lemma create_device_owns:
  assumes own: "owns None bs iq d" and none: "CONTROL_DEVICE d = null_ptr" and K: "handles_valid K"
    and r: "create_device K d = (r, d')"
  shows "owns None bs iq d'" "CONTROL_DEVICE d' \<noteq> null_ptr \<longleftrightarrow> r = Inr ()"
    "unregistered d' = unregistered d"
proof -
  obtain status device where ret: "ret_IoCreateDevice K (trace d) = (status, device)" by (rule prod.exhaust)
  have dev: "\<not> nt_error status \<Longrightarrow> device \<noteq> null_ptr"
    using K [unfolded handles_valid_def, rule_format, of "trace d"] by (simp add: ret)
  define link where "link = ret_IoCreateSymbolicLink K (trace d @
    [IoCreateDevice 0 (wstr16 DEVICE_NAME) FILE_DEVICE_UNKNOWN 0 0 status device, SetDeviceFlags device DO_BUFFERED_IO])"
  define cs where "cs = (IoCreateDevice 0 (wstr16 DEVICE_NAME) FILE_DEVICE_UNKNOWN 0 0 status device #
    (if nt_error status then [DbgPrint ''[WazabiEDR] IoCreateDevice failed'']
     else SetDeviceFlags device DO_BUFFERED_IO #
       IoCreateSymbolicLink (wstr16 SYMLINK_NAME) (wstr16 DEVICE_NAME) link #
       (if nt_error link then [DbgPrint ''[WazabiEDR] IoCreateSymbolicLink failed'', IoDeleteDevice device]
        else [])))"
  have d': "d' = d\<lparr>CONTROL_DEVICE := (if r = Inr () then device else null_ptr), trace := trace d @ cs\<rparr>"
    and ok: "r = Inr () \<longleftrightarrow> \<not> nt_error status \<and> \<not> nt_error link"
    using r none
    by (auto simp: create_device_def ret Let_def log_call_def cs_def link_def split: if_splits)
  show "CONTROL_DEVICE d' \<noteq> null_ptr \<longleftrightarrow> r = Inr ()" using d' ok dev by simp
  show "unregistered d' = unregistered d" using d' by (simp add: unregistered_def)
  show "owns None bs iq d'"
  proof (rule owns_registration [OF own])
    fix m assume m: "mon_of d = Some m" "regs_agree m d"
    have *: "mon_of d' = Some (if r = Inr () then m\<lparr>m_device := Some device, m_symlink := True\<rparr> else m)"
    proof -
      have "mon_of d' = mon_run cs m" using m(1) by (rule mon_of_append) (simp add: d')
      also have "\<dots> = Some (if r = Inr () then m\<lparr>m_device := Some device, m_symlink := True\<rparr> else m)"
        using m(2) none by (simp add: cs_def ok regs_agree_def)
      finally show ?thesis .
    qed
    show "\<exists>m'. mon_of d' = Some m' \<and> m_live m' = m_live m \<and> m_irps m' = m_irps m \<and>
        m_lock m' = m_lock m \<and> m_names m' = m_names m \<and> m_refs m' = m_refs m \<and>
        m_strings m' = m_strings m \<and> regs_agree m' d'"
      unfolding * using m(2) none dev ok by (cases "nt_error status") (simp_all add: regs_agree_def d')
  qed (simp_all add: d')
qed

text \<open>
  The five registration stages have the same shape: one call, then a debug line or a flag. \<open>c\<close> is
  the call, \<open>upd\<close> the flag being set and \<open>mupd\<close> what the monitor notes.
\<close>

lemma owns_register:
  assumes own: "owns None bs iq d"
    and step: "\<And>m. regs_agree m d \<Longrightarrow> mon_step c m = Some (if failed then m else mupd m)"
    and agree: "\<And>m. regs_agree m d \<Longrightarrow> regs_agree (if failed then m else mupd m) d'"
    and same: "\<And>m. m_live (mupd m) = m_live m \<and> m_irps (mupd m) = m_irps m \<and> m_lock (mupd m) = m_lock m \<and>
        m_names (mupd m) = m_names m \<and> m_refs (mupd m) = m_refs m \<and> m_strings (mupd m) = m_strings m"
    and frame: "QUEUE_BUF d' = QUEUE_BUF d" "QUEUE_HEAD d' = QUEUE_HEAD d"
      "QUEUE_TAIL d' = QUEUE_TAIL d" "QUEUE_LEN d' = QUEUE_LEN d" "PENDING_IRP d' = PENDING_IRP d"
      "irps d' = irps d"
    and tr: "trace d' = trace d @ c # (if failed then [DbgPrint s] else [])"
  shows "owns None bs iq d'"
proof (rule owns_registration [OF own frame])
  fix m assume m: "mon_of d = Some m" "regs_agree m d"
  have "mon_of d' = Some (if failed then m else mupd m)"
    using mon_of_append [OF m(1) tr] step [OF m(2)] by simp
  then show "\<exists>m'. mon_of d' = Some m' \<and> m_live m' = m_live m \<and> m_irps m' = m_irps m \<and>
        m_lock m' = m_lock m \<and> m_names m' = m_names m \<and> m_refs m' = m_refs m \<and>
        m_strings m' = m_strings m \<and> regs_agree m' d'"
    using agree [OF m(2)] same [of m] by (cases failed) auto
qed

lemma register_process_owns:
  assumes "owns None bs iq d" "\<not> PROCESS_CALLBACK_REGISTERED d"
  shows "owns None bs iq (snd (register_process K (n, d)))"
  by (rule owns_register [OF assms(1), where mupd = "\<lambda>m. m\<lparr>m_process := True\<rparr>"
        and failed = "nt_error (ret_PsSetCreateProcessNotifyRoutineEx K (trace d) False)"
        and c = "PsSetCreateProcessNotifyRoutineEx False (ret_PsSetCreateProcessNotifyRoutineEx K (trace d) False)"
        and s = "''[WazabiEDR] PsSetCreateProcessNotifyRoutineEx failed''"])
    (use assms(2) in \<open>simp_all add: register_process_def Let_def regs_agree_def log_call_def\<close>)

lemma register_image_owns:
  assumes "owns None bs iq d" "\<not> IMAGE_CALLBACK_REGISTERED d"
  shows "owns None bs iq (snd (register_image K (n, d)))"
  by (rule owns_register [OF assms(1), where mupd = "\<lambda>m. m\<lparr>m_image := True\<rparr>"
        and failed = "nt_error (ret_PsSetLoadImageNotifyRoutine K (trace d))"
        and c = "PsSetLoadImageNotifyRoutine (ret_PsSetLoadImageNotifyRoutine K (trace d))"
        and s = "''[WazabiEDR] PsSetLoadImageNotifyRoutine failed''"])
    (use assms(2) in \<open>simp_all add: register_image_def Let_def regs_agree_def log_call_def\<close>)

lemma register_thread_owns:
  assumes "owns None bs iq d" "\<not> THREAD_CALLBACK_REGISTERED d"
  shows "owns None bs iq (snd (register_thread K (n, d)))"
  by (rule owns_register [OF assms(1), where mupd = "\<lambda>m. m\<lparr>m_thread := True\<rparr>"
        and failed = "nt_error (ret_PsSetCreateThreadNotifyRoutine K (trace d))"
        and c = "PsSetCreateThreadNotifyRoutine (ret_PsSetCreateThreadNotifyRoutine K (trace d))"
        and s = "''[WazabiEDR] PsSetCreateThreadNotifyRoutine failed''"])
    (use assms(2) in \<open>simp_all add: register_thread_def Let_def regs_agree_def log_call_def\<close>)

lemma register_registry_owns:
  assumes "owns None bs iq d" "\<not> REGISTRY_CALLBACK_REGISTERED d"
  shows "owns None bs iq (snd (register_registry K (n, d)))"
proof -
  obtain status cookie where r: "ret_CmRegisterCallback K (trace d) = (status, cookie)"
    by (rule prod.exhaust)
  show ?thesis
    by (rule owns_register [OF assms(1), where mupd = "\<lambda>m. m\<lparr>m_registry := Some cookie\<rparr>"
          and failed = "nt_error status" and c = "CmRegisterCallback status cookie"
          and s = "''[WazabiEDR] CmRegisterCallback failed''"])
      (use assms(2) in \<open>simp_all add: register_registry_def r Let_def regs_agree_def log_call_def\<close>)
qed

lemma register_object_owns:
  assumes "owns None bs iq d" "OBJECT_CALLBACK_HANDLE d = null_ptr" "handles_valid K"
  shows "owns None bs iq (snd (register_object K (n, d)))"
proof -
  obtain status handle where r: "ret_ObRegisterCallbacks K (trace d) = (status, handle)"
    by (rule prod.exhaust)
  have h: "\<not> nt_error status \<Longrightarrow> handle \<noteq> null_ptr"
    using assms(3) [unfolded handles_valid_def, rule_format, of "trace d"] by (simp add: r)
  show ?thesis
    by (rule owns_register [OF assms(1), where mupd = "\<lambda>m. m\<lparr>m_object := Some handle\<rparr>"
          and failed = "nt_error status" and c = "ObRegisterCallbacks cb_reg status handle"
          and s = "''[WazabiEDR] ObRegisterCallbacks failed''"])
      (cases "nt_error status"; use assms(2) h in
        \<open>simp add: register_object_def r Let_def regs_agree_def log_call_def\<close>)+
qed

text \<open>A stage touches its own flag only.\<close>

lemma register_frames [frame_simps]:
  "IMAGE_CALLBACK_REGISTERED (snd (register_process K x)) = IMAGE_CALLBACK_REGISTERED (snd x)"
  "REGISTRY_CALLBACK_REGISTERED (snd (register_process K x)) = REGISTRY_CALLBACK_REGISTERED (snd x)"
  "THREAD_CALLBACK_REGISTERED (snd (register_process K x)) = THREAD_CALLBACK_REGISTERED (snd x)"
  "OBJECT_CALLBACK_HANDLE (snd (register_process K x)) = OBJECT_CALLBACK_HANDLE (snd x)"
  "REGISTRY_CALLBACK_REGISTERED (snd (register_image K x)) = REGISTRY_CALLBACK_REGISTERED (snd x)"
  "THREAD_CALLBACK_REGISTERED (snd (register_image K x)) = THREAD_CALLBACK_REGISTERED (snd x)"
  "OBJECT_CALLBACK_HANDLE (snd (register_image K x)) = OBJECT_CALLBACK_HANDLE (snd x)"
  "THREAD_CALLBACK_REGISTERED (snd (register_registry K x)) = THREAD_CALLBACK_REGISTERED (snd x)"
  "OBJECT_CALLBACK_HANDLE (snd (register_registry K x)) = OBJECT_CALLBACK_HANDLE (snd x)"
  "OBJECT_CALLBACK_HANDLE (snd (register_thread K x)) = OBJECT_CALLBACK_HANDLE (snd x)"
  "CONTROL_DEVICE (snd (register_process K x)) = CONTROL_DEVICE (snd x)"
  "CONTROL_DEVICE (snd (register_image K x)) = CONTROL_DEVICE (snd x)"
  "CONTROL_DEVICE (snd (register_registry K x)) = CONTROL_DEVICE (snd x)"
  "CONTROL_DEVICE (snd (register_thread K x)) = CONTROL_DEVICE (snd x)"
  "CONTROL_DEVICE (snd (register_object K x)) = CONTROL_DEVICE (snd x)"
  by (simp_all add: register_process_def register_image_def register_registry_def register_thread_def
      register_object_def Let_def split_beta log_call_def)

lemma owns_dbg_print: "owns lk bs iq d \<Longrightarrow> owns lk bs iq (log_call (DbgPrint s) d)"
  by (rule owns_call) auto

text \<open>Loading, from a state in which nothing is registered.\<close>

lemma create_device_error:
  "create_device K d = (Inl status, d') \<Longrightarrow> nt_error status"
  by (auto simp: create_device_def Let_def split: if_splits prod.splits)

lemma nt_error_success [simp]: "\<not> nt_error STATUS_SUCCESS"
  by (simp add: nt_error_def STATUS_SUCCESS_def)

lemma register_all_owns:
  assumes own: "owns None bs iq d" and un: "unregistered d" and K: "handles_valid K"
    and y: "y = register_object K (register_thread K (register_registry K
      (register_image K (register_process K (0, d)))))"
  shows "owns None bs iq (snd y)" "CONTROL_DEVICE (snd y) = CONTROL_DEVICE d"
proof -
  let ?p = "register_process K (0, d)"
  let ?i = "register_image K ?p"
  let ?r = "register_registry K ?i"
  let ?t = "register_thread K ?r"
  note frame = frame_simps un [unfolded unregistered_def]
  have "owns None bs iq (snd ?p)" using own by (intro register_process_owns) (simp_all add: frame)
  then have "owns None bs iq (snd ?i)"
    using register_image_owns [of bs iq "snd ?p" K "fst ?p"] by (simp add: frame)
  then have "owns None bs iq (snd ?r)"
    using register_registry_owns [of bs iq "snd ?i" K "fst ?i"] by (simp add: frame)
  then have "owns None bs iq (snd ?t)"
    using register_thread_owns [of bs iq "snd ?r" K "fst ?r"] by (simp add: frame)
  then show "owns None bs iq (snd y)"
    using K register_object_owns [of bs iq "snd ?t" K "fst ?t"] by (simp add: y frame)
  show "CONTROL_DEVICE (snd y) = CONTROL_DEVICE d" by (simp add: y frame_simps)
qed

lemma driver_entry_owns:
  assumes own: "owns None bs iq d" and none: "CONTROL_DEVICE d = null_ptr" "unregistered d"
    and K: "handles_valid K" and r: "driver_entry K obj d = (status, obj', d')"
  shows "owns None bs iq d'"
    and "nt_error status \<Longrightarrow> CONTROL_DEVICE d' = null_ptr \<and> unregistered d'"
    and "\<not> nt_error status \<Longrightarrow> status = STATUS_SUCCESS \<and> CONTROL_DEVICE d' \<noteq> null_ptr"
proof -
  let ?d0 = "log_call KeInitializeSpinLock (log_call (DbgPrint ''[WazabiEDR] DriverEntry called'') d)"
  obtain x d1 where cd: "create_device K ?d0 = (x, d1)" by (rule prod.exhaust)
  have "owns None bs iq (log_call (DbgPrint ''[WazabiEDR] DriverEntry called'') d)"
    using own by (rule owns_dbg_print)
  then have own0: "owns None bs iq ?d0" by (rule owns_call) auto
  have c0: "CONTROL_DEVICE ?d0 = null_ptr" using none by (simp add: log_call_def)
  note cr = create_device_owns [OF own0 c0 K cd]
  have un: "unregistered d1" using cr(3) none(2) by (simp add: unregistered_def log_call_def)
  define y where "y = register_object K (register_thread K (register_registry K
      (register_image K (register_process K (0, d1)))))"
  note own2 = register_all_owns(1) [OF cr(1) un K y_def] and dev = register_all_owns(2) [OF cr(1) un K y_def]
  have "owns None bs iq d' \<and> (nt_error status \<longrightarrow> CONTROL_DEVICE d' = null_ptr \<and> unregistered d') \<and>
      (\<not> nt_error status \<longrightarrow> status = STATUS_SUCCESS \<and> CONTROL_DEVICE d' \<noteq> null_ptr)"
  proof (cases x)
    case (Inl st)
    then have "status = st" "d' = d1" using r by (simp_all add: driver_entry_def cd)
    then show ?thesis using cr un create_device_error [of K ?d0 st d1] cd Inl by simp
  next
    case (Inr u)
    then obtain s where "status = STATUS_SUCCESS" "d' = log_call (DbgPrint s) (snd y)"
      using r by (auto simp: driver_entry_def cd y_def [symmetric] split_beta Let_def)
    then show ?thesis using cr own2 dev Inr owns_dbg_print [OF own2] by (simp add: log_call_def)
  qed
  then show "owns None bs iq d'"
    "nt_error status \<Longrightarrow> CONTROL_DEVICE d' = null_ptr \<and> unregistered d'"
    "\<not> nt_error status \<Longrightarrow> status = STATUS_SUCCESS \<and> CONTROL_DEVICE d' \<noteq> null_ptr" by simp_all
qed

section \<open>Unloading gives everything back\<close>

text \<open>A removal is one call at most, and takes the registration away.\<close>

lemma owns_unregister:
  assumes own: "owns None bs iq d"
    and step: "\<And>m. regs_agree m d \<Longrightarrow> mon_run cs m = Some (mupd m)"
    and agree: "\<And>m. regs_agree m d \<Longrightarrow> regs_agree (mupd m) d'"
    and same: "\<And>m. m_live (mupd m) = m_live m \<and> m_irps (mupd m) = m_irps m \<and> m_lock (mupd m) = m_lock m \<and>
        m_names (mupd m) = m_names m \<and> m_refs (mupd m) = m_refs m \<and> m_strings (mupd m) = m_strings m"
    and frame: "QUEUE_BUF d' = QUEUE_BUF d" "QUEUE_HEAD d' = QUEUE_HEAD d"
      "QUEUE_TAIL d' = QUEUE_TAIL d" "QUEUE_LEN d' = QUEUE_LEN d" "PENDING_IRP d' = PENDING_IRP d"
      "irps d' = irps d"
    and tr: "trace d' = trace d @ cs"
  shows "owns None bs iq d'"
proof (rule owns_registration [OF own frame])
  fix m assume m: "mon_of d = Some m" "regs_agree m d"
  have "mon_of d' = Some (mupd m)" using mon_of_append [OF m(1) tr] step [OF m(2)] by simp
  then show "\<exists>m'. mon_of d' = Some m' \<and> m_live m' = m_live m \<and> m_irps m' = m_irps m \<and>
        m_lock m' = m_lock m \<and> m_names m' = m_names m \<and> m_refs m' = m_refs m \<and>
        m_strings m' = m_strings m \<and> regs_agree m' d'"
    using agree [OF m(2)] same [of m] by auto
qed

lemma unregister_object_owns:
  assumes "owns None bs iq d"
  shows "owns None bs iq (unregister_object d)"
  by (rule owns_unregister [OF assms, where mupd = "\<lambda>m. m\<lparr>m_object := None\<rparr>" and
        cs = "if OBJECT_CALLBACK_HANDLE d = null_ptr then [] else [ObUnRegisterCallbacks (OBJECT_CALLBACK_HANDLE d)]"])
    (simp_all add: unregister_defs regs_agree_def Let_def log_call_def)

lemma unregister_thread_owns:
  assumes "owns None bs iq d"
  shows "owns None bs iq (unregister_thread d)"
  by (rule owns_unregister [OF assms, where mupd = "\<lambda>m. m\<lparr>m_thread := False\<rparr>" and
        cs = "if THREAD_CALLBACK_REGISTERED d then [PsRemoveCreateThreadNotifyRoutine] else []"])
    (simp_all add: unregister_defs regs_agree_def Let_def log_call_def)

lemma unregister_registry_owns:
  assumes "owns None bs iq d"
  shows "owns None bs iq (unregister_registry d)"
  by (rule owns_unregister [OF assms, where mupd = "\<lambda>m. m\<lparr>m_registry := None\<rparr>" and
        cs = "if REGISTRY_CALLBACK_REGISTERED d then [CmUnRegisterCallback (REGISTRY_CALLBACK_COOKIE d)] else []"])
    (simp_all add: unregister_defs regs_agree_def Let_def log_call_def)

lemma unregister_image_owns:
  assumes "owns None bs iq d"
  shows "owns None bs iq (unregister_image d)"
  by (rule owns_unregister [OF assms, where mupd = "\<lambda>m. m\<lparr>m_image := False\<rparr>" and
        cs = "if IMAGE_CALLBACK_REGISTERED d then [PsRemoveLoadImageNotifyRoutine] else []"])
    (simp_all add: unregister_defs regs_agree_def Let_def log_call_def)

lemma unregister_process_owns:
  assumes "owns None bs iq d"
  shows "owns None bs iq (unregister_process K d)"
  by (rule owns_unregister [OF assms, where mupd = "\<lambda>m. m\<lparr>m_process := False\<rparr>" and
        cs = "if PROCESS_CALLBACK_REGISTERED d then [PsSetCreateProcessNotifyRoutineEx True
          (ret_PsSetCreateProcessNotifyRoutineEx K (trace d) True)] else []"])
    (simp_all add: unregister_defs regs_agree_def Let_def log_call_def)

lemma unregister_callbacks_owns:
  assumes own: "owns None bs iq d"
  shows "owns None bs iq (unregister_callbacks K d)" "unregistered (unregister_callbacks K d)"
    "CONTROL_DEVICE (unregister_callbacks K d) = CONTROL_DEVICE d"
proof -
  show "owns None bs iq (unregister_callbacks K d)"
    unfolding unregister_callbacks_def
    by (intro unregister_process_owns unregister_image_owns unregister_registry_owns
        unregister_thread_owns unregister_object_owns own)
  show "unregistered (unregister_callbacks K d)"
    "CONTROL_DEVICE (unregister_callbacks K d) = CONTROL_DEVICE d"
    by (simp_all add: unregister_callbacks_def unregister_defs Let_def log_call_def unregistered_def)
qed

lemma cancel_pending_spec:
  assumes "owns None bs iq d"
  shows "owns None bs iq (cancel_pending d)" "PENDING_IRP (cancel_pending d) = null_ptr"
proof -
  show "owns None bs iq (cancel_pending d)"
  proof (cases "PENDING_IRP d = null_ptr")
    case True
    then show ?thesis using assms by (simp add: cancel_pending_def take_pending_none)
  next
    case False
    then show ?thesis using cancel_pending_owns [OF assms refl]
      by (simp add: cancel_pending_def take_pending_def)
  qed
  show "PENDING_IRP (cancel_pending d) = null_ptr"
    by (simp add: cancel_pending_def take_pending_def complete_irp_def log_call_def Let_def)
qed

lemma drain_loop_spec:
  "owns (Some q) bs iq d \<Longrightarrow>
   owns (Some q) bs iq (drain_loop d) \<and> queue_list (drain_loop d) = [] \<and>
   PENDING_IRP (drain_loop d) = PENDING_IRP d \<and> CONTROL_DEVICE (drain_loop d) = CONTROL_DEVICE d \<and>
   unregistered (drain_loop d) = unregistered d"
proof (induction d rule: drain_loop.induct)
  case (1 d)
  show ?case
  proof (cases "fst (queue_pop_locked d)")
    case None
    then have e: "drain_loop d = snd (queue_pop_locked d)"
      by (subst drain_loop.simps) (simp add: split_beta)
    note pop = owns_pop_none [OF 1(2) None]
    have "queue_list (snd (queue_pop_locked d)) = []"
      using pop(2) queue_list_frame [of "log_call QueueAccess d" d] by (simp add: pop_empty log_call_def)
    then show ?thesis using pop(1) by (simp add: e frame_simps unregistered_def)
  next
    case (Some s)
    let ?d = "free_pool (data s) (snd (queue_pop_locked d))"
    have e: "drain_loop d = drain_loop ?d"
      using Some by (subst drain_loop.simps) (simp add: split_beta)
    have "owns (Some q) bs iq ?d"
      using owns_pop_some(1) [OF 1(2) Some] by (rule owns_free_pool)
    then show ?thesis using 1(1) [of "Some s" "snd (queue_pop_locked d)" s] Some
      by (simp add: e prod_eq_iff) (simp add: free_pool_def log_call_def frame_simps unregistered_def)
  qed
qed

lemma drain_queue_spec:
  assumes "owns None bs iq d"
  shows "owns None bs iq (drain_queue K d)" "queue_list (drain_queue K d) = []"
    "PENDING_IRP (drain_queue K d) = PENDING_IRP d" "CONTROL_DEVICE (drain_queue K d) = CONTROL_DEVICE d"
    "unregistered (drain_queue K d) = unregistered d"
proof -
  define q where "q = ret_KeAcquireSpinLockRaiseToDpc K (trace d)"
  define a where "a = log_call (KeAcquireSpinLockRaiseToDpc q) d"
  have a: "owns (Some q) bs iq a" unfolding a_def using assms by (rule owns_acquire)
  have e: "drain_queue K d = log_call (KeReleaseSpinLock q) (drain_loop a)"
    by (simp add: drain_queue_def SpinLockGuard_acquire_def SpinLockGuard_drop_def Let_def q_def a_def)
  note s = drain_loop_spec [OF a]
  have s1: "owns (Some q) bs iq (drain_loop a)" using s by simp
  show "owns None bs iq (drain_queue K d)" unfolding e using s1 by (rule owns_release)
  have "queue_list (log_call (KeReleaseSpinLock q) (drain_loop a)) = queue_list (drain_loop a)"
    by (rule queue_list_frame) (simp_all add: log_call_def)
  with s show "queue_list (drain_queue K d) = []" by (simp add: e)
  from s show "PENDING_IRP (drain_queue K d) = PENDING_IRP d"
    "CONTROL_DEVICE (drain_queue K d) = CONTROL_DEVICE d"
    "unregistered (drain_queue K d) = unregistered d"
    by (simp_all add: e log_call_def a_def unregistered_def)
qed

text \<open>A state with nothing queued, parked or registered holds the device and the link only.\<close>

lemma idle_monitor:
  assumes own: "owns None [] [] d" and idle: "queue_list d = []" "PENDING_IRP d = null_ptr" "unregistered d"
    and dev: "CONTROL_DEVICE d \<noteq> null_ptr"
  shows "mon_of d = Some (mon0\<lparr>m_device := Some (CONTROL_DEVICE d), m_symlink := True\<rparr>)"
proof -
  from own obtain m where m: "mon_of d = Some m" "m_lock m = None" "no_loans m" "regs_agree m d"
    "blocks_owned [] m d" "irps_owned [] m d"
    by (rule ownsE)
  have "m_irps m = (\<lambda>_. None)"
  proof (rule ext)
    show "m_irps m i = None" for i
      using m(6) idle(2) unfolding irps_owned_def by (cases "m_irps m i") auto
  qed
  moreover have "m_live m = (\<lambda>_. None)"
    using m(5) idle(1) by (simp add: blocks_owned_def queue_blocks_def)
  ultimately have "m = mon0\<lparr>m_device := Some (CONTROL_DEVICE d), m_symlink := True\<rparr>"
    using m(2,3,4) idle(3) dev by (simp add: mon0_def no_loans_def regs_agree_def unregistered_def)
  then show ?thesis using m(1) by simp
qed

lemma driver_unload_mon:
  assumes "owns None [] [] d" "CONTROL_DEVICE d \<noteq> null_ptr"
  shows "mon_of (driver_unload K d) = Some mon0"
proof -
  define d0 where "d0 = log_call (DbgPrint ''[WazabiEDR] DriverUnload - stopping'') d"
  define d1 where "d1 = unregister_callbacks K d0"
  define d2 where "d2 = cancel_pending d1"
  define d3 where "d3 = drain_queue K d2"
  have d0: "owns None [] [] d0" "CONTROL_DEVICE d0 = CONTROL_DEVICE d"
    unfolding d0_def using owns_dbg_print [OF assms(1)] by (simp_all, simp add: log_call_def)
  note u = unregister_callbacks_owns [OF d0(1), of K, folded d1_def]
  note c = cancel_pending_spec [OF u(1), folded d2_def]
  note q = drain_queue_spec [OF c(1), of K, folded d3_def]
  have "CONTROL_DEVICE d2 = CONTROL_DEVICE d1" "unregistered d2 = unregistered d1"
    by (simp_all add: d2_def cancel_pending_def take_pending_def complete_irp_def log_call_def Let_def
        unregistered_def)
  then have d3: "CONTROL_DEVICE d3 = CONTROL_DEVICE d" "unregistered d3"
    using u q d0 by simp_all
  then have m: "mon_of d3 = Some (mon0\<lparr>m_device := Some (CONTROL_DEVICE d3), m_symlink := True\<rparr>)"
    using q c assms(2) by (intro idle_monitor) simp_all
  have "mon0\<lparr>m_symlink := False, m_device := None\<rparr> = mon0" by (simp add: mon0_def)
  then have "mon_of (delete_device d3) = Some mon0"
    using d3(1) assms(2)
    by (subst mon_of_append [OF m, where cs = "[IoDeleteSymbolicLink (wstr16 SYMLINK_NAME),
          IoDeleteDevice (CONTROL_DEVICE d)]"]) (simp_all add: delete_device_def Let_def log_call_def)
  then show ?thesis
    by (simp add: driver_unload_def Let_def mon_simps flip: d0_def d1_def d2_def d3_def)
qed

text \<open>A state that holds nothing at all.\<close>

lemma bare_monitor:
  assumes own: "owns None [] [] d" and idle: "queue_list d = [] \<and> PENDING_IRP d = null_ptr"
    and none: "CONTROL_DEVICE d = null_ptr \<and> unregistered d"
  shows "mon_of d = Some mon0"
proof -
  from own obtain m where m: "mon_of d = Some m" "m_lock m = None" "no_loans m" "regs_agree m d"
    "blocks_owned [] m d" "irps_owned [] m d"
    by (rule ownsE)
  have "m_irps m = (\<lambda>_. None)"
  proof (rule ext)
    show "m_irps m i = None" for i
      using m(6) idle unfolding irps_owned_def by (cases "m_irps m i") auto
  qed
  moreover have "m_live m = (\<lambda>_. None)"
    using m(5) idle by (simp add: blocks_owned_def queue_blocks_def)
  ultimately have "m = mon0"
    using m(2,3,4) none by (simp add: mon0_def no_loans_def regs_agree_def unregistered_def)
  then show ?thesis using m(1) by simp
qed

section \<open>What loading asks the kernel for\<close>

text \<open>The calls of a trace that are not debug lines.\<close>

definition is_debug :: "kcall \<Rightarrow> bool" where
  "is_debug c = (case c of DbgPrint s \<Rightarrow> True | _ \<Rightarrow> False)"

definition requests_made :: "driver \<Rightarrow> kcall list" where
  "requests_made d = filter (\<lambda>c. \<not> is_debug c) (trace d)"

lemma requests_made_log [simp]:
  "requests_made (log_call c d) = requests_made d @ (if is_debug c then [] else [c])"
  by (simp add: requests_made_def log_call_def)

lemma requests_made_update [simp]:
  "requests_made (d\<lparr>PROCESS_CALLBACK_REGISTERED := b\<rparr>) = requests_made d"
  "requests_made (d\<lparr>IMAGE_CALLBACK_REGISTERED := b\<rparr>) = requests_made d"
  "requests_made (d\<lparr>REGISTRY_CALLBACK_REGISTERED := b\<rparr>) = requests_made d"
  "requests_made (d\<lparr>REGISTRY_CALLBACK_COOKIE := c\<rparr>) = requests_made d"
  "requests_made (d\<lparr>THREAD_CALLBACK_REGISTERED := b\<rparr>) = requests_made d"
  "requests_made (d\<lparr>OBJECT_CALLBACK_HANDLE := h\<rparr>) = requests_made d"
  "requests_made (d\<lparr>CONTROL_DEVICE := h\<rparr>) = requests_made d"
  by (simp_all add: requests_made_def)

lemma is_debug_simps [simp]:
  "is_debug (DbgPrint s)" "\<not> is_debug KeInitializeSpinLock"
  "\<not> is_debug (IoCreateDevice ext name type characteristics exclusive status device)"
  "\<not> is_debug (SetDeviceFlags device flags)" "\<not> is_debug (IoCreateSymbolicLink link target status)"
  "\<not> is_debug (IoDeleteDevice device)"
  "\<not> is_debug (PsSetCreateProcessNotifyRoutineEx remove status)" "\<not> is_debug (PsSetLoadImageNotifyRoutine status)"
  "\<not> is_debug (CmRegisterCallback status cookie)" "\<not> is_debug (PsSetCreateThreadNotifyRoutine status)"
  "\<not> is_debug (ObRegisterCallbacks registration status handle)"
  by (simp_all add: is_debug_def)

text \<open>Each registration is asked for once, whatever came of the others, and sets its own flag on success.\<close>

lemma register_process_asks:
  fixes K :: kernel and x :: "nat \<times> driver"
  defines "s \<equiv> ret_PsSetCreateProcessNotifyRoutineEx K (trace (snd x)) False" and "y \<equiv> register_process K x"
  shows "requests_made (snd y) = requests_made (snd x) @ [PsSetCreateProcessNotifyRoutineEx False s]"
    "registrations (snd y) = registrations (if nt_error s then snd x else (snd x)\<lparr>PROCESS_CALLBACK_REGISTERED := True\<rparr>)"
  by (simp_all add: s_def y_def register_process_def split_beta Let_def)
    (simp_all add: registrations_def log_call_def)

lemma register_image_asks:
  fixes K :: kernel and x :: "nat \<times> driver"
  defines "s \<equiv> ret_PsSetLoadImageNotifyRoutine K (trace (snd x))" and "y \<equiv> register_image K x"
  shows "requests_made (snd y) = requests_made (snd x) @ [PsSetLoadImageNotifyRoutine s]"
    "registrations (snd y) = registrations (if nt_error s then snd x else (snd x)\<lparr>IMAGE_CALLBACK_REGISTERED := True\<rparr>)"
  by (simp_all add: s_def y_def register_image_def split_beta Let_def)
    (simp_all add: registrations_def log_call_def)

lemma register_registry_asks:
  fixes K :: kernel and x :: "nat \<times> driver"
  defines "r \<equiv> ret_CmRegisterCallback K (trace (snd x))" and "y \<equiv> register_registry K x"
  shows "requests_made (snd y) = requests_made (snd x) @ [CmRegisterCallback (fst r) (snd r)]"
    "registrations (snd y) = registrations (if nt_error (fst r) then snd x
       else (snd x)\<lparr>REGISTRY_CALLBACK_COOKIE := snd r, REGISTRY_CALLBACK_REGISTERED := True\<rparr>)"
  by (simp_all add: r_def y_def register_registry_def split_beta Let_def)
    (simp_all add: registrations_def log_call_def)

lemma register_thread_asks:
  fixes K :: kernel and x :: "nat \<times> driver"
  defines "s \<equiv> ret_PsSetCreateThreadNotifyRoutine K (trace (snd x))" and "y \<equiv> register_thread K x"
  shows "requests_made (snd y) = requests_made (snd x) @ [PsSetCreateThreadNotifyRoutine s]"
    "registrations (snd y) = registrations (if nt_error s then snd x else (snd x)\<lparr>THREAD_CALLBACK_REGISTERED := True\<rparr>)"
  by (simp_all add: s_def y_def register_thread_def split_beta Let_def)
    (simp_all add: registrations_def log_call_def)

lemma register_object_asks:
  fixes K :: kernel and x :: "nat \<times> driver"
  defines "r \<equiv> ret_ObRegisterCallbacks K (trace (snd x))" and "y \<equiv> register_object K x"
  shows "requests_made (snd y) = requests_made (snd x) @ [ObRegisterCallbacks cb_reg (fst r) (snd r)]"
    "registrations (snd y) = registrations (if nt_error (fst r) then snd x
       else (snd x)\<lparr>OBJECT_CALLBACK_HANDLE := snd r\<rparr>)"
  by (simp_all add: r_def y_def register_object_def split_beta Let_def)
    (simp_all add: registrations_def log_call_def)

definition create_requests :: "u32 \<Rightarrow> ptr \<Rightarrow> u32 \<Rightarrow> kcall list" where
  "create_requests status device link =
    [KeInitializeSpinLock, IoCreateDevice 0 (wstr16 DEVICE_NAME) FILE_DEVICE_UNKNOWN 0 0 status device,
     SetDeviceFlags device DO_BUFFERED_IO, IoCreateSymbolicLink (wstr16 SYMLINK_NAME) (wstr16 DEVICE_NAME) link]"

lemma create_device_asks:
  assumes "ret_IoCreateDevice K (trace d) = (st, device)"
    and "link = ret_IoCreateSymbolicLink K
      (trace d @ [IoCreateDevice 0 (wstr16 DEVICE_NAME) FILE_DEVICE_UNKNOWN 0 0 st device,
        SetDeviceFlags device DO_BUFFERED_IO])"
  shows "fst (create_device K d) = (if nt_error st then Inl st else if nt_error link then Inl link else Inr ())"
    "\<not> nt_error st \<Longrightarrow> \<not> nt_error link \<Longrightarrow>
      requests_made (snd (create_device K d)) = requests_made d @ tl (create_requests st device link) \<and>
      registrations (snd (create_device K d)) = registrations (d\<lparr>CONTROL_DEVICE := device\<rparr>)"
proof -
  have l: "link = ret_IoCreateSymbolicLink K (trace (log_call (SetDeviceFlags device DO_BUFFERED_IO)
      (log_call (IoCreateDevice 0 (wstr16 DEVICE_NAME) FILE_DEVICE_UNKNOWN 0 0 st device) d)))"
    using assms(2) by (simp add: log_call_def)
  show "fst (create_device K d) = (if nt_error st then Inl st else if nt_error link then Inl link else Inr ())"
    by (simp add: create_device_def assms(1) l Let_def)
  assume "\<not> nt_error st" "\<not> nt_error link"
  then have "snd (create_device K d) = log_call (IoCreateSymbolicLink (wstr16 SYMLINK_NAME) (wstr16 DEVICE_NAME) link)
      ((log_call (SetDeviceFlags device DO_BUFFERED_IO)
        (log_call (IoCreateDevice 0 (wstr16 DEVICE_NAME) FILE_DEVICE_UNKNOWN 0 0 st device) d))\<lparr>CONTROL_DEVICE := device\<rparr>)"
    by (simp add: create_device_def assms(1) l Let_def)
  then show "requests_made (snd (create_device K d)) = requests_made d @ tl (create_requests st device link) \<and>
      registrations (snd (create_device K d)) = registrations (d\<lparr>CONTROL_DEVICE := device\<rparr>)"
    by (simp add: create_requests_def) (simp add: registrations_def log_call_def)
qed

lemma register_all_asks:
  assumes un: "unregistered d" and y: "y = register_object K (register_thread K (register_registry K
      (register_image K (register_process K (0, d)))))"
  shows "\<exists>hp hi hr ht ho. requests_made (snd y) = requests_made d @
      [PsSetCreateProcessNotifyRoutineEx False (ret_PsSetCreateProcessNotifyRoutineEx K hp False),
       PsSetLoadImageNotifyRoutine (ret_PsSetLoadImageNotifyRoutine K hi),
       CmRegisterCallback (fst (ret_CmRegisterCallback K hr)) (snd (ret_CmRegisterCallback K hr)),
       PsSetCreateThreadNotifyRoutine (ret_PsSetCreateThreadNotifyRoutine K ht),
       ObRegisterCallbacks cb_reg (fst (ret_ObRegisterCallbacks K ho)) (snd (ret_ObRegisterCallbacks K ho))] \<and>
    CONTROL_DEVICE (snd y) = CONTROL_DEVICE d \<and>
    (PROCESS_CALLBACK_REGISTERED (snd y) \<longleftrightarrow> \<not> nt_error (ret_PsSetCreateProcessNotifyRoutineEx K hp False)) \<and>
    (IMAGE_CALLBACK_REGISTERED (snd y) \<longleftrightarrow> \<not> nt_error (ret_PsSetLoadImageNotifyRoutine K hi)) \<and>
    (REGISTRY_CALLBACK_REGISTERED (snd y) \<longleftrightarrow> \<not> nt_error (fst (ret_CmRegisterCallback K hr))) \<and>
    (REGISTRY_CALLBACK_REGISTERED (snd y) \<longrightarrow>
      REGISTRY_CALLBACK_COOKIE (snd y) = snd (ret_CmRegisterCallback K hr)) \<and>
    (THREAD_CALLBACK_REGISTERED (snd y) \<longleftrightarrow> \<not> nt_error (ret_PsSetCreateThreadNotifyRoutine K ht)) \<and>
    OBJECT_CALLBACK_HANDLE (snd y) = (if nt_error (fst (ret_ObRegisterCallbacks K ho)) then null_ptr
      else snd (ret_ObRegisterCallbacks K ho))"
proof -
  let ?p = "register_process K (0, d)"
  let ?i = "register_image K ?p"
  let ?r = "register_registry K ?i"
  let ?t = "register_thread K ?r"
  note asks = register_process_asks [of K "(0, d)"] register_image_asks [of K ?p] register_registry_asks [of K ?i]
    register_thread_asks [of K ?r] register_object_asks [of K ?t]
  have reg: "registrations (snd y) =
      (CONTROL_DEVICE d, \<not> nt_error (ret_PsSetCreateProcessNotifyRoutineEx K (trace d) False),
       \<not> nt_error (ret_PsSetLoadImageNotifyRoutine K (trace (snd ?p))),
       \<not> nt_error (fst (ret_CmRegisterCallback K (trace (snd ?i)))),
       (if nt_error (fst (ret_CmRegisterCallback K (trace (snd ?i)))) then REGISTRY_CALLBACK_COOKIE d
        else snd (ret_CmRegisterCallback K (trace (snd ?i)))),
       \<not> nt_error (ret_PsSetCreateThreadNotifyRoutine K (trace (snd ?r))),
       if nt_error (fst (ret_ObRegisterCallbacks K (trace (snd ?t)))) then null_ptr
       else snd (ret_ObRegisterCallbacks K (trace (snd ?t))))"
    using asks(2,4,6,8,10) un unfolding y registrations_def unregistered_def by (auto split: if_splits)
  show ?thesis
    by (rule exI [of _ "trace d"], rule exI [of _ "trace (snd ?p)"], rule exI [of _ "trace (snd ?i)"],
        rule exI [of _ "trace (snd ?r)"], rule exI [of _ "trace (snd ?t)"])
      (use reg asks(1,3,5,7,9) in \<open>simp add: y registrations_def\<close>)
qed

end
