(* ===== verification/Edr_System.thy ===== *)
theory Edr_System
  imports Edr_Thread Edr_Image Edr_Object Edr_Registry_Content Edr_Lifecycle
begin

text \<open>
  The driver as a whole: everything the kernel may do to it after a successful load (the five kinds
  of notification, and IRPs of every major function), one input at a time, in any order. Every
  reachable state satisfies the ownership invariant, every run is a run of the abstract channel, and
  unloading gives every resource back.
\<close>

section \<open>Inputs\<close>

datatype input =
    ProcessNotify ptr u64 "ps_create_notify_info option"
  | ImageNotify "unicode_string option" u64 "image_info option"
  | ThreadNotify u64 u64 u8
  | ObjectNotify "ob_pre_operation_information option"
  | RegistryNotify u64 reg_argument
  | IrpNotify nat ptr irp nat  \<comment> \<open>major function, address, contents, bytes of the system buffer\<close>

text \<open>What the kernel guarantees about its arguments.\<close>

definition valid_input :: "input \<Rightarrow> driver \<Rightarrow> bool" where
  "valid_input x d =
    (case x of
       ProcessNotify process pid ci \<Rightarrow> process_info_valid ci
     | ImageNotify name pid info \<Rightarrow> pus_valid name
     | ThreadNotify pid tid create \<Rightarrow> True
     | ObjectNotify info \<Rightarrow> True
     | RegistryNotify argument1 arg \<Rightarrow> reg_arg_valid argument1 arg
     | IrpNotify major i r len \<Rightarrow>
         major \<le> IRP_MJ_MAXIMUM_FUNCTION \<and> i \<noteq> null_ptr \<and> i \<noteq> PENDING_IRP d \<and>
         unat (OutputBufferLength r) \<le> len)"

text \<open>The I/O manager calls the routine in the table; a null entry is a bug check.\<close>

definition call_dispatch :: "kernel \<Rightarrow> driver_object \<Rightarrow> nat \<Rightarrow> ptr \<Rightarrow> driver \<Rightarrow> u32 \<times> driver" where
  "call_dispatch K obj major i d =
    (case MajorFunction obj ! major of
       None \<Rightarrow> (STATUS_UNSUCCESSFUL, log_call Panic d)
     | Some Dispatch_invalid \<Rightarrow> dispatch_invalid i d
     | Some Dispatch_create_close \<Rightarrow> dispatch_create_close i d
     | Some Dispatch_cleanup \<Rightarrow> dispatch_cleanup i d
     | Some Dispatch_device_control \<Rightarrow> dispatch_device_control K i d)"

definition irp_arrives :: "ptr \<Rightarrow> irp \<Rightarrow> nat \<Rightarrow> driver \<Rightarrow> driver" where
  "irp_arrives i r len d = log_call (IrpArrive i len) (d\<lparr>irps := (irps d)(i := r)\<rparr>)"

definition handle_input :: "kernel \<Rightarrow> driver_object \<Rightarrow> input \<Rightarrow> driver \<Rightarrow> driver" where
  "handle_input K obj x d =
    (case x of
       ProcessNotify process pid ci \<Rightarrow> process_notify K process pid ci d
     | ImageNotify name pid info \<Rightarrow> image_load_notify K name pid info d
     | ThreadNotify pid tid create \<Rightarrow> thread_notify K pid tid create d
     | ObjectNotify info \<Rightarrow> snd (process_object_notify K info d)
     | RegistryNotify argument1 arg \<Rightarrow> snd (registry_notify K argument1 arg d)
     | IrpNotify major i r len \<Rightarrow> snd (call_dispatch K obj major i (irp_arrives i r len d)))"

definition kernel_ok :: "kernel \<Rightarrow> bool" where
  "kernel_ok K \<longleftrightarrow> pool_fresh K \<and> key_names_valid K \<and> handles_valid K"

section \<open>Runs\<close>

definition loads :: "kernel \<Rightarrow> driver_object \<Rightarrow> driver \<Rightarrow> bool" where
  "loads K obj d \<longleftrightarrow>
    (\<exists>obj0 buf hp ir. length (MajorFunction obj0) = 28 \<and>
      driver_entry K obj0 (initial_driver buf hp ir) = (STATUS_SUCCESS, obj, d))"

text \<open>\<open>run K obj d xs d'\<close>: from \<open>d\<close> the inputs \<open>xs\<close>, each valid when it comes, lead to \<open>d'\<close>.\<close>

inductive run :: "kernel \<Rightarrow> driver_object \<Rightarrow> driver \<Rightarrow> input list \<Rightarrow> driver \<Rightarrow> bool"
  for K :: kernel and obj :: driver_object and d :: driver where
  start: "run K obj d [] d"
| step: "run K obj d xs d' \<Longrightarrow> valid_input x d' \<Longrightarrow> run K obj d (xs @ [x]) (handle_input K obj x d')"

inductive_cases run_snocE: "run K obj d (xs @ [x]) d'"

definition reachable :: "kernel \<Rightarrow> driver_object \<Rightarrow> driver \<Rightarrow> bool" where
  "reachable K obj d \<longleftrightarrow> (\<exists>d0 xs. loads K obj d0 \<and> run K obj d0 xs d)"

section \<open>Every input keeps the invariant\<close>

definition wired :: "driver_object \<Rightarrow> bool" where
  "wired obj \<longleftrightarrow> (\<forall>major \<le> IRP_MJ_MAXIMUM_FUNCTION. MajorFunction obj ! major = Some (routine_for major))"

lemma driver_entry_obj: "fst (snd (driver_entry K obj d)) = wire_dispatch obj"
  by (simp add: driver_entry_def Let_def split_beta split: sum.splits)

lemma initial_unregistered:
  "CONTROL_DEVICE (initial_driver buf hp ir) = null_ptr" "unregistered (initial_driver buf hp ir)"
  by (simp_all add: initial_driver_def unregistered_def)

lemma loads_ok:
  assumes "loads K obj d" "handles_valid K"
  shows "driver_ok d" "CONTROL_DEVICE d \<noteq> null_ptr" "wired obj"
proof -
  obtain obj0 buf hp ir where l: "length (MajorFunction obj0) = 28"
    "driver_entry K obj0 (initial_driver buf hp ir) = (STATUS_SUCCESS, obj, d)"
    using assms(1) by (auto simp: loads_def)
  note e = driver_entry_owns [OF driver_ok_initial [unfolded driver_ok_def] initial_unregistered assms(2) l(2)]
  show "driver_ok d" "CONTROL_DEVICE d \<noteq> null_ptr" using e by (simp_all add: driver_ok_def)
  have "obj = wire_dispatch obj0" using driver_entry_obj [of K obj0 "initial_driver buf hp ir"] l(2) by simp
  then show "wired obj"
    using l(1) wire_dispatch_nth [of obj0] by (simp add: wired_def IRP_MJ_MAXIMUM_FUNCTION_def)
qed

lemma irp_arrives_owns:
  assumes "driver_ok d" "i \<noteq> null_ptr" "i \<noteq> PENDING_IRP d" "unat (OutputBufferLength r) \<le> len"
  shows "owns None [] [i] (irp_arrives i r len d)"
  unfolding irp_arrives_def using assms by (intro owns_irp_arrive) (simp_all add: driver_ok_def)

lemma call_dispatch_owns:
  assumes "wired obj" "major \<le> IRP_MJ_MAXIMUM_FUNCTION" "owns None bs (i # iq) d"
  shows "owns None bs iq (snd (call_dispatch K obj major i d))"
proof -
  have "MajorFunction obj ! major = Some (routine_for major)" using assms by (simp add: wired_def)
  then show ?thesis
    using dispatch_invalid_owns [OF assms(3)] dispatch_create_close_owns [OF assms(3)]
      dispatch_cleanup_owns [OF assms(3)] dispatch_device_control_owns [OF assms(3)]
    by (simp add: call_dispatch_def split: dispatch_routine.split)
qed

lemma handle_input_ok:
  assumes "kernel_ok K" "wired obj" "driver_ok d" "valid_input x d"
  shows "driver_ok (handle_input K obj x d)"
proof -
  have K: "pool_fresh K" "key_names_valid K" using assms(1) by (simp_all add: kernel_ok_def)
  have own: "owns None [] [] d" using assms(3) by (simp add: driver_ok_def)
  show ?thesis
  proof (cases x)
    case (IrpNotify major i r len)
    then have "owns None [] [i] (irp_arrives i r len d)"
      using assms(3,4) by (intro irp_arrives_owns) (simp_all add: valid_input_def)
    then show ?thesis using assms(2,4) IrpNotify call_dispatch_owns [of obj major "[]" i "[]"]
      by (simp add: handle_input_def driver_ok_def valid_input_def)
  next
    case (RegistryNotify a arg)
    then show ?thesis using registry_notify_correct(1) [OF own K, of a arg] assms(4)
      by (simp add: handle_input_def driver_ok_def valid_input_def)
  qed (use own K assms(4) in \<open>simp_all add: handle_input_def driver_ok_def valid_input_def
      process_notify_owns image_load_notify_owns thread_notify_owns process_object_notify_owns\<close>)
qed

lemma run_ok:
  assumes "run K obj d xs d'" "kernel_ok K" "wired obj" "driver_ok d"
  shows "driver_ok d'"
  using assms by (induction rule: run.induct) (simp_all add: handle_input_ok)

section \<open>No input changes what loading set up\<close>

lemma registrations_log_call [simp]: "registrations (log_call c d) = registrations d"
  by (simp add: registrations_def log_call_def)

lemma registrations_dispatch:
  "registrations (snd (call_dispatch K obj major i d)) = registrations d"
proof -
  have "registrations (snd (dispatch_device_control K i d)) = registrations d"
    by (simp add: dispatch_device_control_def SpinLockGuard_acquire_def SpinLockGuard_drop_def irp_op_defs
        park_irp_def free_pool_def bump_drop_def log_call_def Let_def registrations_def split_beta frame_simps
        split: option.split)
  then show ?thesis
    by (simp add: call_dispatch_def dispatch_invalid_def dispatch_create_close_def dispatch_cleanup_def
        complete_irp_def take_pending_def Let_def split: option.split dispatch_routine.split)
      (simp add: registrations_def log_call_def)
qed

lemma registrations_registry:
  assumes "key_names_valid K" "reg_arg_valid argument1 arg"
  shows "registrations (snd (registry_notify K argument1 arg d)) = registrations d"
proof -
  obtain pl d1 where pl: "registry_plan K arg d = (pl, d1)" by (cases "registry_plan K arg d")
  note s = registry_plan_spec [OF assms pl]
  have r: "registrations d1 = registrations d" using s(1) by (simp add: quietD registrations_same)
  show ?thesis
  proof (cases pl)
    case None
    then show ?thesis using r pl by (simp add: registry_notify_eq [OF assms(2)] emit_planned_def)
  next
    case (Some f)
    then have "event_filler RegistryEvent True f"
      using s(2) planned_filler [OF assms(2) path_fits_copied] by (auto split: if_splits)
    from event_filler.emit_registrations [OF this TrueI]
    show ?thesis using r pl Some by (simp add: registry_notify_eq [OF assms(2)] emit_planned_def)
  qed
qed

lemma handle_input_registrations:
  assumes "key_names_valid K" "valid_input x d"
  shows "registrations (handle_input K obj x d) = registrations d"
proof (cases x)
  case (IrpNotify major i r len)
  have "registrations (irp_arrives i r len d) = registrations d"
    by (simp add: irp_arrives_def) (simp add: registrations_def)
  then show ?thesis using IrpNotify by (simp add: handle_input_def registrations_dispatch)
next
  case (RegistryNotify a arg)
  then show ?thesis using registrations_registry [OF assms(1), of a arg d] assms(2)
    by (simp add: handle_input_def valid_input_def)
next
  case (ProcessNotify process pid ci)
  then show ?thesis using assms(2)
    by (simp add: handle_input_def valid_input_def process_notify_def process_info_valid_def
        emit_process_create_eq emit_process_exit_eq process_create.emit_registrations
        process_exit.emit_registrations split: option.splits)
next
  case (ImageNotify name pid info)
  then show ?thesis using assms(2)
    by (simp add: handle_input_def valid_input_def image_load_notify_def emit_image_load_eq
        image_load.emit_registrations)
next
  case (ThreadNotify pid tid create)
  then show ?thesis
    by (simp add: handle_input_def thread_notify_def emit_thread_create_eq emit_thread_exit_eq Let_def
        thread_create.emit_registrations thread_exit.emit_registrations)
next
  case (ObjectNotify info)
  then show ?thesis
    by (simp add: handle_input_def process_object_notify_eq emit_handle_access_eq
        handle_access.emit_registrations split: option.split)
qed

lemma run_registrations:
  "run K obj d xs d' \<Longrightarrow> key_names_valid K \<Longrightarrow> registrations d' = registrations d"
  by (induction rule: run.induct) (simp_all add: handle_input_registrations)

lemma reachable_ok:
  assumes "kernel_ok K" "reachable K obj d"
  shows "driver_ok d" "CONTROL_DEVICE d \<noteq> null_ptr" "wired obj"
proof -
  obtain d0 xs where r: "loads K obj d0" "run K obj d0 xs d" using assms(2) by (auto simp: reachable_def)
  have K: "handles_valid K" "key_names_valid K" using assms(1) by (simp_all add: kernel_ok_def)
  note l = loads_ok [OF r(1) K(1)]
  show "driver_ok d" using r(2) assms(1) l(3,1) by (rule run_ok)
  show "CONTROL_DEVICE d \<noteq> null_ptr" using l(2) run_registrations [OF r(2) K(2)] by (simp add: registrations_def)
  show "wired obj" by (rule l(3))
qed

section \<open>Every run is a run of the channel\<close>

definition dispatch_ops :: "nat \<Rightarrow> ptr \<Rightarrow> irp \<Rightarrow> chan_op list" where
  "dispatch_ops major i r =
    (case routine_for major of
       Dispatch_invalid \<Rightarrow> [Refuse i STATUS_INVALID_DEVICE_REQUEST]
     | Dispatch_create_close \<Rightarrow> [Refuse i STATUS_SUCCESS]
     | Dispatch_cleanup \<Rightarrow> [Cleanup i]
     | Dispatch_device_control \<Rightarrow>
         if IoControlCode r = IOCTL_WEDR_GET_EVENT then [Get i (OutputBufferLength r)]
         else [Refuse i STATUS_INVALID_DEVICE_REQUEST])"

definition input_ops :: "kernel \<Rightarrow> input \<Rightarrow> driver \<Rightarrow> chan_op list" where
  "input_ops K x d =
    (case x of
       ProcessNotify process pid ci \<Rightarrow> process_ops K process pid ci d
     | ImageNotify name pid info \<Rightarrow> image_ops K name pid info d
     | ThreadNotify pid tid create \<Rightarrow> thread_ops K pid tid create d
     | ObjectNotify info \<Rightarrow> object_ops K info d
     | RegistryNotify argument1 arg \<Rightarrow> registry_ops K arg d
     | IrpNotify major i r len \<Rightarrow> dispatch_ops major i r)"

lemma irp_arrives_simulates:
  "i \<noteq> PENDING_IRP d \<Longrightarrow> simulates [] d (irp_arrives i r len d)"
  by (simp add: simulates_def irp_arrives_def chan_of_def call_reply_def log_call_def queue_list_def
      slot_bytes_def)

lemma refuse_simulates:
  assumes "i \<noteq> PENDING_IRP d"
  shows "simulates [Refuse i status] d (snd (complete_irp i status 0 d))"
  using assms by (simp add: simulates_def complete_irp_def chan_of_def call_reply_def reply_of_def
      log_call_def queue_list_def slot_bytes_def Let_def)

lemma simulates_after_access:
  assumes "simulates ops (log_call (IrpAccess i) d) d'"
  shows "simulates ops d d'"
proof -
  have "simulates [] d (log_call (IrpAccess i) d)"
    by (simp add: simulates_def chan_of_def call_reply_def log_call_def queue_list_def slot_bytes_def)
  from simulates_trans [OF this assms] show ?thesis by simp
qed

lemma call_dispatch_simulates:
  assumes w: "wired obj" "major \<le> IRP_MJ_MAXIMUM_FUNCTION" and ring: "ring_ok d"
    and i: "i \<noteq> null_ptr" "i \<noteq> PENDING_IRP d"
  shows "simulates (dispatch_ops major i (irps d i)) d (snd (call_dispatch K obj major i d))"
proof -
  have m: "MajorFunction obj ! major = Some (routine_for major)" using w by (simp add: wired_def)
  show ?thesis
  proof (cases "routine_for major")
    case Dispatch_device_control
    show ?thesis
    proof (cases "IoControlCode (irps d i) = IOCTL_WEDR_GET_EVENT")
      case True
      then show ?thesis using get_refines [OF ring i True refl, of K] Dispatch_device_control
        by (simp add: call_dispatch_def m dispatch_ops_def simulates_def split_beta)
    next
      case False
      have "simulates [Refuse i STATUS_INVALID_DEVICE_REQUEST] d
          (snd (complete_irp i STATUS_INVALID_DEVICE_REQUEST 0 (log_call (IrpAccess i) d)))"
        using i(2) by (rule_tac simulates_after_access, rule_tac refuse_simulates) (simp add: log_call_def)
      with False Dispatch_device_control show ?thesis
        by (simp add: call_dispatch_def m dispatch_ops_def dispatch_device_control_def
            current_stack_location_def Let_def)
    qed
  next
    case Dispatch_cleanup
    then show ?thesis using cleanup_refines [OF i(2)]
      by (simp add: call_dispatch_def m dispatch_ops_def simulates_def split_beta)
  next
    case Dispatch_invalid
    then show ?thesis using refuse_simulates [OF i(2)]
      by (simp add: call_dispatch_def m dispatch_ops_def dispatch_invalid_def)
  next
    case Dispatch_create_close
    then show ?thesis using refuse_simulates [OF i(2)]
      by (simp add: call_dispatch_def m dispatch_ops_def dispatch_create_close_def)
  qed
qed

lemma handle_input_simulates:
  assumes "kernel_ok K" "wired obj" "driver_ok d" "valid_input x d"
  shows "simulates (input_ops K x d) d (handle_input K obj x d)"
proof -
  have K: "pool_fresh K" "key_names_valid K" using assms(1) by (simp_all add: kernel_ok_def)
  have own: "owns None [] [] d" using assms(3) by (simp add: driver_ok_def)
  show ?thesis
  proof (cases x)
    case (IrpNotify major i r len)
    let ?a = "irp_arrives i r len d"
    have v: "major \<le> IRP_MJ_MAXIMUM_FUNCTION" "i \<noteq> null_ptr" "i \<noteq> PENDING_IRP d"
      using assms(4) IrpNotify by (simp_all add: valid_input_def)
    have "ring_ok ?a" using own by (auto elim!: ownsE simp: irp_arrives_def log_call_def ring_ok_def)
    moreover have "irps ?a i = r" "PENDING_IRP ?a = PENDING_IRP d" by (simp_all add: irp_arrives_def log_call_def)
    ultimately have "simulates (dispatch_ops major i r) ?a (snd (call_dispatch K obj major i ?a))"
      using call_dispatch_simulates [OF assms(2) v(1), of ?a i K] v by simp
    then show ?thesis
      using simulates_trans [OF irp_arrives_simulates [OF v(3)]] IrpNotify
      by (simp add: input_ops_def handle_input_def)
  next
    case (RegistryNotify a arg)
    then show ?thesis using registry_notify_correct(2) [OF own K, of a arg] assms(4)
      by (simp add: handle_input_def input_ops_def valid_input_def)
  qed (use own K assms(4) in \<open>simp_all add: handle_input_def input_ops_def valid_input_def
      process_notify_simulates image_load_notify_simulates thread_notify_simulates
      process_object_notify_simulates\<close>)
qed

text \<open>The channel operations of a run, input by input.\<close>

fun run_ops :: "kernel \<Rightarrow> driver_object \<Rightarrow> input list \<Rightarrow> driver \<Rightarrow> chan_op list" where
  "run_ops K obj [] d = []"
| "run_ops K obj (x # xs) d = input_ops K x d @ run_ops K obj xs (handle_input K obj x d)"

lemma run_state: "run K obj d xs d' \<Longrightarrow> d' = fold (handle_input K obj) xs d"
  by (induction rule: run.induct) simp_all

lemma run_ops_snoc:
  "run_ops K obj (xs @ [x]) d = run_ops K obj xs d @ input_ops K x (fold (handle_input K obj) xs d)"
  by (induction xs arbitrary: d) simp_all

lemma run_simulates:
  assumes "run K obj d xs d'" "kernel_ok K" "wired obj" "driver_ok d"
  shows "simulates (run_ops K obj xs d) d d'"
  using assms
proof (induction rule: run.induct)
  case start
  then show ?case by simp
next
  case (step xs d' x)
  then have "simulates (run_ops K obj xs d) d d'" "driver_ok d'" by (simp_all add: run_ok)
  then show ?case
    using step handle_input_simulates [of K obj d' x] run_state [OF step.hyps(1)] simulates_trans
    by (simp add: run_ops_snoc)
qed

lemma chan_of_ok: "driver_ok d \<Longrightarrow> chan_ok (chan_of d)"
  by (auto simp: driver_ok_def owns_def irps_owned_def chan_ok_def chan_of_def ring_ok_def
      length_queue_list split: option.splits)

text \<open>Ownership read off the monitor: what the driver holds is what is queued and what is parked.\<close>

lemma driver_ok_holds:
  assumes "driver_ok d"
  obtains m where "mon_of d = Some m" "m_lock m = None" "no_loans m" "regs_agree m d"
    "m_live m = map_of (map (\<lambda>s. (data s, unat (slot_size s))) (queue_list d))"
    "{i. m_irps m i \<noteq> None} = (if PENDING_IRP d = null_ptr then {} else {PENDING_IRP d})"
proof -
  obtain m where m: "mon_of d = Some m" "m_lock m = None" "blocks_owned [] m d" "irps_owned [] m d"
    "no_loans m" "regs_agree m d"
    using assms unfolding driver_ok_def by (rule ownsE)
  have "m_live m = map_of (map (\<lambda>s. (data s, unat (slot_size s))) (queue_list d))"
    using m(3) by (simp add: blocks_owned_def queue_blocks_def slot_block_def [abs_def])
  moreover have "{i. m_irps m i \<noteq> None} = (if PENDING_IRP d = null_ptr then {} else {PENDING_IRP d})"
    using m(4) by (auto simp: irps_owned_def)
  ultimately show thesis using that m by blast
qed

section \<open>The state after loading\<close>

text \<open>The stages of \<open>driver_entry\<close> leave the channel alone and answer no request.\<close>

definition channel_frame :: "driver \<Rightarrow> driver \<Rightarrow> bool" where
  "channel_frame d d' \<longleftrightarrow> chan_of d' = chan_of d \<and> replies (trace d') = replies (trace d)"

lemma channel_frame_log:
  "call_reply c = [] \<Longrightarrow> channel_frame d (log_call c d)"
  by (simp add: channel_frame_def) (simp add: chan_of_def log_call_def queue_list_def slot_bytes_def)

lemma channel_frame_registers:
  "channel_frame (snd x) (snd (register_process K x))"
  "channel_frame (snd x) (snd (register_image K x))"
  "channel_frame (snd x) (snd (register_registry K x))"
  "channel_frame (snd x) (snd (register_thread K x))"
  "channel_frame (snd x) (snd (register_object K x))"
  by (simp_all add: channel_frame_def register_process_def register_image_def register_registry_def
      register_thread_def register_object_def split_beta Let_def log_call_def call_reply_def chan_of_def
      queue_list_def slot_bytes_def)

lemma channel_frame_create_device: "channel_frame d (snd (create_device K d))"
  by (simp add: channel_frame_def create_device_def split_beta Let_def log_call_def call_reply_def
      chan_of_def queue_list_def slot_bytes_def)

lemma channel_frame_trans: "channel_frame a b \<Longrightarrow> channel_frame b c \<Longrightarrow> channel_frame a c"
  by (simp add: channel_frame_def)

lemma channel_frame_driver_entry: "channel_frame d (snd (snd (driver_entry K obj d)))"
proof -
  let ?d0 = "log_call KeInitializeSpinLock (log_call (DbgPrint ''[WazabiEDR] DriverEntry called'') d)"
  let ?d1 = "snd (create_device K ?d0)"
  let ?y = "register_object K (register_thread K (register_registry K
      (register_image K (register_process K (0, ?d1)))))"
  have "channel_frame d ?d0"
    by (rule channel_frame_trans [OF channel_frame_log channel_frame_log]) (simp_all add: call_reply_def)
  then have 1: "channel_frame d ?d1" using channel_frame_create_device by (rule channel_frame_trans)
  note r = channel_frame_registers [of _ K]
  have "channel_frame (snd (0 :: nat, ?d1)) (snd ?y)"
    by (rule channel_frame_trans [OF channel_frame_trans [OF channel_frame_trans
        [OF channel_frame_trans [OF r(1) r(2)] r(3)] r(4)] r(5)])
  then have "channel_frame ?d1 (snd ?y)" by simp
  then have 2: "channel_frame d (snd ?y)" using 1 channel_frame_trans by blast
  have "snd (snd (driver_entry K obj d)) = ?d1 \<or>
      (\<exists>s. snd (snd (driver_entry K obj d)) = log_call (DbgPrint s) (snd ?y))"
    by (auto simp: driver_entry_def split_beta Let_def split: sum.split)
  moreover have "channel_frame d (log_call (DbgPrint s) (snd ?y))" for s
    using 2 channel_frame_log by (rule channel_frame_trans) (simp add: call_reply_def)
  ultimately show ?thesis using 1 by auto
qed

lemma loads_idle:
  assumes "loads K obj d"
  shows "chan_of d = \<lparr>ch_queue = [], ch_waiting = None, ch_drops = 0\<rparr>" "replies (trace d) = []"
proof -
  obtain obj0 buf hp ir where l: "driver_entry K obj0 (initial_driver buf hp ir) = (STATUS_SUCCESS, obj, d)"
    using assms by (auto simp: loads_def)
  have "channel_frame (initial_driver buf hp ir) d"
    using channel_frame_driver_entry [of "initial_driver buf hp ir" K obj0] by (simp add: l)
  then show "chan_of d = \<lparr>ch_queue = [], ch_waiting = None, ch_drops = 0\<rparr>" "replies (trace d) = []"
    by (simp_all add: channel_frame_def)
      (simp_all add: chan_of_def initial_driver_def queue_list_def)
qed

lemma driver_entry_idle:
  assumes "driver_entry K obj (initial_driver buf hp ir) = (status, obj', d)"
  shows "queue_list d = [] \<and> PENDING_IRP d = null_ptr"
proof -
  have "channel_frame (initial_driver buf hp ir) d"
    using channel_frame_driver_entry [of "initial_driver buf hp ir" K obj] by (simp add: assms)
  then have "chan_of d = \<lparr>ch_queue = [], ch_waiting = None, ch_drops = 0\<rparr>"
    by (simp add: channel_frame_def) (simp add: chan_of_def initial_driver_def queue_list_def)
  then show ?thesis by (simp add: chan_of_def split: if_splits)
qed

section \<open>Sizes of the submitted events\<close>

lemma emit_ops_size:
  "e \<in> set (concat (map submitted (emit_ops K lay ty f d))) \<Longrightarrow> length e = size_of lay"
  by (auto simp: emit_ops_def split: if_splits)

definition event_sizes :: "nat set" where
  "event_sizes = {size_of (event_layout ty) | ty. True}"

lemma event_sizes_eq: "event_sizes = {10672, 32, 1070, 1580, 36, 42}"
proof -
  have "event_sizes = (\<lambda>ty. size_of (event_layout ty)) ` UNIV" by (auto simp: event_sizes_def)
  also have "(UNIV :: EventType set) = {ProcessCreate, ProcessExit, ImageLoad, RegistryModify, ThreadCreate,
      ThreadExit, ProcessHandleAccess}" using EventType.exhaust by blast
  finally show ?thesis by auto
qed

lemma input_ops_size:
  assumes "e \<in> set (concat (map submitted (input_ops K x d)))"
  shows "length e \<in> event_sizes"
proof -
  have "length e \<in> {10672, 32, 1070, 1580, 36, 42}"
    using assms
    by (cases x) (auto simp: input_ops_def process_ops_def image_ops_def thread_ops_def object_ops_def
        registry_ops_def dispatch_ops_def emit_ops_def split: if_splits option.splits prod.splits
        dispatch_routine.splits)
  then show ?thesis by (simp add: event_sizes_eq)
qed

lemma run_ops_size:
  "e \<in> set (concat (map submitted (run_ops K obj xs d))) \<Longrightarrow> length e \<in> event_sizes"
proof (induction xs arbitrary: d)
  case Nil
  then show ?case by simp
next
  case (Cons x xs)
  then show ?case using input_ops_size [of e K x d] by auto
qed

lemma run_ops_nonempty: "[] \<notin> set (concat (map submitted (run_ops K obj xs d)))"
  using run_ops_size [of "[]" K obj xs d] by (auto simp: event_sizes_eq)

section \<open>A concrete run\<close>

definition sample_object :: driver_object where
  "sample_object = \<lparr>DriverUnload = False, MajorFunction = replicate 28 None\<rparr>"

definition sample_wired :: driver_object where
  "sample_wired = wire_dispatch sample_object"

definition sample_loaded :: driver where
  "sample_loaded = snd (snd (driver_entry sample_kernel sample_object sample_driver))"

lemma sample_kernel_ok [simp]: "kernel_ok sample_kernel"
  by (simp add: kernel_ok_def) (simp add: handles_valid_def sample_kernel_def)

lemma sample_driver_entry:
  "driver_entry sample_kernel sample_object sample_driver = (STATUS_SUCCESS, sample_wired, sample_loaded)"
proof -
  have "\<not> nt_error 0" by (simp add: nt_error_def)
  then have "fst (driver_entry sample_kernel sample_object sample_driver) = STATUS_SUCCESS"
    by (simp add: driver_entry_def create_device_def sample_kernel_def Let_def split_beta)
  moreover have "fst (snd (driver_entry sample_kernel sample_object sample_driver)) = sample_wired"
    by (simp add: driver_entry_obj sample_wired_def)
  ultimately show ?thesis by (simp add: prod_eq_iff sample_loaded_def)
qed

lemma sample_loads [simp]: "loads sample_kernel sample_wired sample_loaded"
  unfolding loads_def
  by (rule exI [of _ sample_object], intro exI conjI, simp add: sample_object_def)
    (rule sample_driver_entry [unfolded sample_driver_def])

definition sample_irp :: irp where
  "sample_irp = \<lparr>IoControlCode = 0x226000, OutputBufferLength = 0x4000, SystemBuffer = (\<lambda>_. 0),
     Status = 0, Information = 0, Control = 0\<rparr>"

text \<open>A thread exits, then the agent asks for an event.\<close>

definition sample_inputs :: "input list" where
  "sample_inputs = [ThreadNotify 7 9 0, IrpNotify 14 5 sample_irp 0x4000]"

definition sample_final :: driver where
  "sample_final = fold (handle_input sample_kernel sample_wired) sample_inputs sample_loaded"

lemma sample_no_pending:
  "PENDING_IRP (handle_input sample_kernel sample_wired (ThreadNotify 7 9 0) sample_loaded) = null_ptr"
proof -
  have l: "driver_ok sample_loaded" "wired sample_wired"
    using loads_ok [OF sample_loads] sample_kernel_ok by (simp_all add: kernel_ok_def)
  have "simulates (input_ops sample_kernel (ThreadNotify 7 9 0) sample_loaded) sample_loaded
      (handle_input sample_kernel sample_wired (ThreadNotify 7 9 0) sample_loaded)"
    using l by (intro handle_input_simulates) (simp_all add: valid_input_def)
  then have "ch_waiting (chan_of (handle_input sample_kernel sample_wired (ThreadNotify 7 9 0) sample_loaded)) = None"
    by (simp add: simulates_def input_ops_def thread_ops_def emit_ops_def loads_idle [OF sample_loads]
        split_beta Let_def chan_submit_def)
  then show ?thesis by (simp add: chan_of_def split: if_splits)
qed

lemma sample_run [simp]: "run sample_kernel sample_wired sample_loaded sample_inputs sample_final"
proof -
  let ?d1 = "handle_input sample_kernel sample_wired (ThreadNotify 7 9 0) sample_loaded"
  have "run sample_kernel sample_wired sample_loaded ([] @ [ThreadNotify 7 9 0]) ?d1"
    by (rule run.step) (simp_all add: run.start valid_input_def)
  then have "run sample_kernel sample_wired sample_loaded (([] @ [ThreadNotify 7 9 0]) @
      [IrpNotify 14 5 sample_irp 0x4000])
      (handle_input sample_kernel sample_wired (IrpNotify 14 5 sample_irp 0x4000) ?d1)"
    by (rule run.step) (simp add: valid_input_def sample_no_pending irp_mj_defs sample_irp_def)
  then show ?thesis by (simp add: sample_inputs_def sample_final_def)
qed

lemma sample_reachable [simp]: "reachable sample_kernel sample_wired sample_final"
  unfolding reachable_def using sample_loads sample_run by blast

end
