(* ===== verification/Edr_Threads.thy ===== *)
theory Edr_Threads
  imports Edr_System
begin

text \<open>
  The routines of the driver as threads that other threads may interrupt. A routine is cut between its
  kernel calls, its atomic operations on \<open>PENDING_IRP\<close>, \<open>DROP_COUNT\<close> and \<open>TRUNC_COUNT\<close>, the acquisition and
  release of the spinlock, and its accesses to the queue and to IRPs. What a thread has still to do is a
  program counter with its local variables. Merged into one step are: work on memory only the thread can
  reach (resolving a key name into a stack buffer, filling in a block nobody else has the address of) with
  the truncations it adds to \<open>TRUNC_COUNT\<close>; a failing allocation with the additions to \<open>DROP_COUNT\<close> and
  \<open>OOM_COUNT\<close> that report it; a push, which is done under the lock, with the addition for an eviction; and
  a completion, on an IRP only the thread holds. In each of these at most one part can be seen by other
  threads at a time, or the parts are additions that commute. Run without interruption, a thread does what
  the routine does. The notifications begin with the routine that looks at them, up to its call of the
  emitter, which is \<open>plan\<close>.
\<close>

section \<open>Program counters\<close>

text \<open>\<open>alloc_event_for\<close> and the emitter around it (\<open>src/src/callbacks/header.rs\<close>).\<close>

datatype emit_pc =
    E_alloc
  | E_zero ptr
  | E_drops ptr                 \<comment> \<open>the clock is read and \<open>DROP_COUNT\<close> swapped\<close>
  | E_truncs ptr u64 u32        \<comment> \<open>\<open>TRUNC_COUNT\<close> is swapped\<close>
  | E_header ptr event_header
  | E_fill ptr

text \<open>\<open>submit_event\<close> (\<open>src/src/queue/submit.rs\<close>); the event and its size are in the thread.\<close>

datatype submit_pc =
    S_acquire
  | S_take spin_lock_guard
  | S_stack spin_lock_guard ptr
  | S_copy spin_lock_guard ptr
  | S_drop spin_lock_guard ptr bool   \<comment> \<open>whether the event fitted\<close>
  | S_free ptr bool
  | S_count ptr
  | S_push spin_lock_guard
  | S_leave spin_lock_guard

text \<open>\<open>dispatch_device_control\<close> (\<open>src/src/ipc/dispatch.rs\<close>); the IRP is in the thread.\<close>

datatype get_pc =
    G_stack
  | G_acquire u32                     \<comment> \<open>\<open>outlen\<close>\<close>
  | G_pop spin_lock_guard u32
  | G_drop spin_lock_guard u32 slot
  | G_copy slot
  | G_free slot bool                  \<comment> \<open>whether the event fitted\<close>
  | G_count slot
  | G_park spin_lock_guard u32
  | G_leave spin_lock_guard bool      \<comment> \<open>whether the IRP was parked\<close>
  | G_mark

datatype cleanup_pc = C_take | C_cancel ptr

type_synonym filler = "ptr \<Rightarrow> driver \<Rightarrow> driver"

text \<open>\<open>Hung\<close>: the thread has panicked; it never returns and takes no further step.\<close>

datatype pc =
    Done
  | Hung
  | Begin input
  | Emit layout EventType filler emit_pc
  | Send ptr u32 submit_pc
  | Fetch ptr get_pc
  | Clean ptr cleanup_pc
  | Complete ptr u32 u64

primrec stopped :: "pc \<Rightarrow> bool" where
  "stopped Done = True"
| "stopped Hung = True"
| "stopped (Begin x) = False"
| "stopped (Emit lay ty fill e) = False"
| "stopped (Send p sz s) = False"
| "stopped (Fetch i g) = False"
| "stopped (Clean i c) = False"
| "stopped (Complete i status info) = False"

section \<open>Steps\<close>

definition emit_step ::
  "kernel \<Rightarrow> layout \<Rightarrow> EventType \<Rightarrow> filler \<Rightarrow> emit_pc \<Rightarrow> driver \<Rightarrow> pc \<times> driver" where
  "emit_step K lay ty fill e d =
    (let sz = of_nat (size_of lay) in
     case e of
       E_alloc \<Rightarrow>
         let panics = oom_panics K d;
             (buf, d) = alloc_event K sz d
         in (if buf = null_ptr then if panics then Hung else Done else Emit lay ty fill (E_zero buf), d)
     | E_zero buf \<Rightarrow> (Emit lay ty fill (E_drops buf), zero_mem buf (unat sz) d)
     | E_drops buf \<Rightarrow>
         (Emit lay ty fill (E_truncs buf (ret_KeQuerySystemTimePrecise K (trace d)) (DROP_COUNT d)),
          d\<lparr>DROP_COUNT := 0\<rparr>)
     | E_truncs buf ts drops \<Rightarrow>
         (Emit lay ty fill (E_header buf
            \<lparr>version = EVENT_VERSION, htype = event_type_u16 ty, timestamp = ts, hsize = sz,
             drop_count = drops, trunc_count = TRUNC_COUNT d\<rparr>),
          d\<lparr>TRUNC_COUNT := 0\<rparr>)
     | E_header buf h \<Rightarrow> (Emit lay ty fill (E_fill buf), write_mem buf 0 (header_bytes h) d)
     | E_fill buf \<Rightarrow> (Send buf sz S_acquire, fill buf d))"

definition submit_step :: "kernel \<Rightarrow> ptr \<Rightarrow> u32 \<Rightarrow> submit_pc \<Rightarrow> driver \<Rightarrow> pc \<times> driver" where
  "submit_step K p sz s d =
    (case s of
       S_acquire \<Rightarrow> let (guard, d) = SpinLockGuard_acquire K d in (Send p sz (S_take guard), d)
     | S_take guard \<Rightarrow>
         let (pending, d) = take_pending d
         in (Send p sz (if pending \<noteq> null_ptr then S_stack guard pending else S_push guard), d)
     | S_stack guard pending \<Rightarrow>
         let (stack, d) = current_stack_location pending d
         in (Send p sz (if sz \<le> OutputBufferLength stack then S_copy guard pending
                        else S_drop guard pending False), d)
     | S_copy guard pending \<Rightarrow>
         (Send p sz (S_drop guard pending True), copy_to_system_buffer pending p (unat sz) d)
     | S_drop guard pending fits \<Rightarrow> (Send p sz (S_free pending fits), SpinLockGuard_drop guard d)
     | S_free pending fits \<Rightarrow>
         (if fits then Complete pending STATUS_SUCCESS (ucast sz) else Send p sz (S_count pending),
          free_pool p d)
     | S_count pending \<Rightarrow> (Complete pending STATUS_BUFFER_TOO_SMALL (ucast sz), bump_drop d)
     | S_push guard \<Rightarrow> let (_, d) = queue_push_locked p sz d in (Send p sz (S_leave guard), d)
     | S_leave guard \<Rightarrow> (Done, SpinLockGuard_drop guard d))"

definition get_step :: "kernel \<Rightarrow> ptr \<Rightarrow> get_pc \<Rightarrow> driver \<Rightarrow> pc \<times> driver" where
  "get_step K i g d =
    (case g of
       G_stack \<Rightarrow>
         let (stack, d) = current_stack_location i d
         in (if IoControlCode stack \<noteq> IOCTL_WEDR_GET_EVENT then Complete i STATUS_INVALID_DEVICE_REQUEST 0
             else Fetch i (G_acquire (OutputBufferLength stack)), d)
     | G_acquire outlen \<Rightarrow>
         let (guard, d) = SpinLockGuard_acquire K d in (Fetch i (G_pop guard outlen), d)
     | G_pop guard outlen \<Rightarrow>
         let (popped, d) = queue_pop_locked d
         in (Fetch i (case popped of Some slot \<Rightarrow> G_drop guard outlen slot | None \<Rightarrow> G_park guard outlen), d)
     | G_drop guard outlen slot \<Rightarrow>
         (Fetch i (if outlen < slot_size slot then G_free slot False else G_copy slot),
          SpinLockGuard_drop guard d)
     | G_copy slot \<Rightarrow>
         (Fetch i (G_free slot True), copy_to_system_buffer i (data slot) (unat (slot_size slot)) d)
     | G_free slot fits \<Rightarrow>
         (if fits then Complete i STATUS_SUCCESS (ucast (slot_size slot)) else Fetch i (G_count slot),
          free_pool (data slot) d)
     | G_count slot \<Rightarrow> (Complete i STATUS_BUFFER_TOO_SMALL (ucast (slot_size slot)), bump_drop d)
     | G_park guard outlen \<Rightarrow> let (parked, d) = park_irp i d in (Fetch i (G_leave guard parked), d)
     | G_leave guard parked \<Rightarrow>
         (if \<not> parked then Complete i STATUS_UNSUCCESSFUL 0 else Fetch i G_mark, SpinLockGuard_drop guard d)
     | G_mark \<Rightarrow> (Done, mark_irp_pending i d))"

definition cleanup_step :: "ptr \<Rightarrow> cleanup_pc \<Rightarrow> driver \<Rightarrow> pc \<times> driver" where
  "cleanup_step i c d =
    (case c of
       C_take \<Rightarrow>
         let (pending, d) = take_pending d
         in (if pending \<noteq> null_ptr then Clean i (C_cancel pending) else Complete i STATUS_SUCCESS 0, d)
     | C_cancel pending \<Rightarrow>
         (Complete i STATUS_SUCCESS 0, snd (complete_irp pending STATUS_CANCELLED 0 d)))"

text \<open>
  The beginning of a callback: its filter, and which event it is going to emit. The beginning of a
  request: the routine in the dispatch table.
\<close>

definition plan ::
  "kernel \<Rightarrow> input \<Rightarrow> driver \<Rightarrow> (layout \<times> EventType \<times> filler) option \<times> driver" where
  "plan K x d =
    (case x of
       ProcessNotify process pid None \<Rightarrow>
         (Some (ProcessExitEvent, ProcessExit, fill_process_exit K (ucast pid) process), d)
     | ProcessNotify process pid (Some info) \<Rightarrow>
         (Some (ProcessCreateEvent, ProcessCreate, fill_process_create (ucast pid) info), d)
     | ImageNotify name pid info \<Rightarrow>
         (Some (ImageLoadEvent, ImageLoad, fill_image_load (ucast pid) name info), d)
     | ThreadNotify pid tid create \<Rightarrow>
         (Some (if create \<noteq> 0
                then (ThreadCreateEvent, ThreadCreate, fill_thread_create K (ucast pid) (ucast tid))
                else (ThreadExitEvent, ThreadExit, fill_thread_exit (ucast pid) (ucast tid))), d)
     | ObjectNotify info \<Rightarrow>
         (map_option (\<lambda>(source, target, desired, original, op).
            (ProcessHandleAccessEvent, ProcessHandleAccess,
             fill_handle_access source target desired original op)) (object_gate K d info), d)
     | RegistryNotify argument1 arg \<Rightarrow>
         (case registry_plan K arg d of
            (pl, d) \<Rightarrow> (map_option (\<lambda>fill. (RegistryEvent, RegistryModify, fill)) pl, d))
     | IrpNotify major i r len \<Rightarrow> (None, d))"

definition begin_step :: "kernel \<Rightarrow> driver_object \<Rightarrow> input \<Rightarrow> driver \<Rightarrow> pc \<times> driver" where
  "begin_step K obj x d =
    (case x of
       IrpNotify major i r len \<Rightarrow>
         (case MajorFunction obj ! major of
            None \<Rightarrow> (Done, log_call Panic d)
          | Some Dispatch_invalid \<Rightarrow> (Complete i STATUS_INVALID_DEVICE_REQUEST 0, d)
          | Some Dispatch_create_close \<Rightarrow> (Complete i STATUS_SUCCESS 0, d)
          | Some Dispatch_cleanup \<Rightarrow> (Clean i C_take, d)
          | Some Dispatch_device_control \<Rightarrow> (Fetch i G_stack, d))
     | _ \<Rightarrow>
         (case plan K x d of
            (None, d) \<Rightarrow> (Done, d)
          | (Some (lay, ty, fill), d) \<Rightarrow> (Emit lay ty fill E_alloc, d)))"

primrec step :: "kernel \<Rightarrow> driver_object \<Rightarrow> pc \<Rightarrow> driver \<Rightarrow> pc \<times> driver" where
  "step K obj Done d = (Done, d)"
| "step K obj Hung d = (Hung, d)"
| "step K obj (Begin x) d = begin_step K obj x d"
| "step K obj (Emit lay ty fill e) d = emit_step K lay ty fill e d"
| "step K obj (Send p sz s) d = submit_step K p sz s d"
| "step K obj (Fetch i g) d = get_step K i g d"
| "step K obj (Clean i c) d = cleanup_step i c d"
| "step K obj (Complete i status info) d = (Done, snd (complete_irp i status info d))"

lemmas routine_step_defs = begin_step_def emit_step_def submit_step_def get_step_def cleanup_step_def

section \<open>Every thread gets to its end\<close>

text \<open>How many steps a thread has left at most.\<close>

primrec emit_rank :: "emit_pc \<Rightarrow> nat" where
  "emit_rank E_alloc = 14"
| "emit_rank (E_zero p) = 13"
| "emit_rank (E_drops p) = 12"
| "emit_rank (E_truncs p ts n) = 11"
| "emit_rank (E_header p h) = 10"
| "emit_rank (E_fill p) = 9"

primrec submit_rank :: "submit_pc \<Rightarrow> nat" where
  "submit_rank S_acquire = 8"
| "submit_rank (S_take q) = 7"
| "submit_rank (S_stack q i) = 6"
| "submit_rank (S_copy q i) = 5"
| "submit_rank (S_drop q i b) = 4"
| "submit_rank (S_free i b) = 3"
| "submit_rank (S_count i) = 2"
| "submit_rank (S_push q) = 2"
| "submit_rank (S_leave q) = 1"

primrec get_rank :: "get_pc \<Rightarrow> nat" where
  "get_rank G_stack = 8"
| "get_rank (G_acquire n) = 7"
| "get_rank (G_pop q n) = 6"
| "get_rank (G_drop q n s) = 5"
| "get_rank (G_copy s) = 4"
| "get_rank (G_free s b) = 3"
| "get_rank (G_count s) = 2"
| "get_rank (G_park q n) = 3"
| "get_rank (G_leave q b) = 2"
| "get_rank G_mark = 1"

primrec cleanup_rank :: "cleanup_pc \<Rightarrow> nat" where
  "cleanup_rank C_take = 3"
| "cleanup_rank (C_cancel j) = 2"

primrec rank :: "pc \<Rightarrow> nat" where
  "rank Done = 0"
| "rank Hung = 0"
| "rank (Begin x) = 15"
| "rank (Emit lay ty fill e) = emit_rank e"
| "rank (Send p sz s) = submit_rank s"
| "rank (Fetch i g) = get_rank g"
| "rank (Clean i c) = cleanup_rank c"
| "rank (Complete i status info) = 1"

lemma rank_le: "rank t \<le> 15"
proof (cases t)
  case (Emit lay ty fill e) then show ?thesis by (cases e) simp_all
next
  case (Send p sz s) then show ?thesis by (cases s) simp_all
next
  case (Fetch i g) then show ?thesis by (cases g) simp_all
next
  case (Clean i c) then show ?thesis by (cases c) simp_all
qed simp_all

lemma rank_zero: "rank t = 0 \<longleftrightarrow> stopped t"
proof (cases t)
  case (Emit lay ty fill e) then show ?thesis by (cases e) simp_all
next
  case (Send p sz s) then show ?thesis by (cases s) simp_all
next
  case (Fetch i g) then show ?thesis by (cases g) simp_all
next
  case (Clean i c) then show ?thesis by (cases c) simp_all
qed simp_all

lemma step_rank:
  assumes "\<not> stopped t"
  shows "rank (fst (step K obj t d)) < rank t"
proof (cases t)
  case (Begin x)
  then show ?thesis
    by (simp add: begin_step_def split: input.split option.split dispatch_routine.split prod.split)
next
  case (Emit lay ty fill e)
  then show ?thesis by (cases e) (simp_all add: emit_step_def Let_def split_beta)
next
  case (Send p sz s)
  then show ?thesis by (cases s) (simp_all add: submit_step_def Let_def split_beta)
next
  case (Fetch i g)
  then show ?thesis by (cases g) (simp_all add: get_step_def Let_def split_beta split: option.split)
next
  case (Clean i c)
  then show ?thesis by (cases c) (simp_all add: cleanup_step_def Let_def split_beta)
qed (use assms in simp_all)

section \<open>A thread on its own is the routine\<close>

function run_alone :: "kernel \<Rightarrow> driver_object \<Rightarrow> pc \<Rightarrow> driver \<Rightarrow> driver" where
  "run_alone K obj t d =
    (if stopped t then d else run_alone K obj (fst (step K obj t d)) (snd (step K obj t d)))"
  by pat_completeness auto

termination run_alone
  by (relation "measure (\<lambda>(K, obj, t, d). rank t)") (simp_all add: split_beta step_rank)

declare run_alone.simps [simp del]

lemma run_alone_stopped [simp]: "run_alone K obj Done d = d" "run_alone K obj Hung d = d"
  by (simp_all add: run_alone.simps)

lemma run_alone_step:
  "\<not> stopped t \<Longrightarrow> run_alone K obj t d = run_alone K obj (fst (step K obj t d)) (snd (step K obj t d))"
  by (subst run_alone.simps) simp

lemmas alone_steps = run_alone_step [of "Begin x" for x] run_alone_step [of "Emit lay ty fill e" for lay ty fill e]
  run_alone_step [of "Send p sz s" for p sz s] run_alone_step [of "Fetch i g" for i g]
  run_alone_step [of "Clean i c" for i c]

lemma alone_complete [simp]:
  "run_alone K obj (Complete i status info) d = snd (complete_irp i status info d)"
  by (subst run_alone_step) simp_all

lemma alone_submit: "run_alone K obj (Send p sz S_acquire) d = submit_event K p sz d"
  by (simp add: alone_steps submit_step_def submit_event_def Let_def split_beta)

lemma alone_emit: "run_alone K obj (Emit lay ty fill E_alloc) d = emit_event K lay ty fill d"
  by (simp add: alone_steps(2) emit_step_def alone_submit emit_event_def alloc_event_for_def make_header_def
      Let_def split_beta)

lemma alone_cleanup: "run_alone K obj (Clean i C_take) d = snd (dispatch_cleanup i d)"
  by (simp add: alone_steps cleanup_step_def dispatch_cleanup_def Let_def split_beta)

lemma alone_get: "run_alone K obj (Fetch i G_stack) d = snd (dispatch_device_control K i d)"
  by (simp add: alone_steps get_step_def dispatch_device_control_def Let_def split_beta split: option.split)

text \<open>The notification or request reaches the driver.\<close>

definition arrives :: "input \<Rightarrow> driver \<Rightarrow> driver" where
  "arrives x d = (case x of IrpNotify major i r len \<Rightarrow> irp_arrives i r len d | _ \<Rightarrow> d)"

lemma alone_handles:
  assumes "valid_input x d"
  shows "run_alone K obj (Begin x) (arrives x d) = handle_input K obj x d"
proof (cases x)
  case (ProcessNotify process pid ci)
  then show ?thesis
    by (cases ci) (simp_all add: alone_steps(1) begin_step_def plan_def arrives_def alone_emit
        handle_input_def process_notify_def emit_process_exit_eq emit_process_create_eq)
next
  case (ImageNotify name pid info)
  then show ?thesis
    by (simp add: alone_steps(1) begin_step_def plan_def arrives_def alone_emit
        handle_input_def image_load_notify_def emit_image_load_eq)
next
  case (ThreadNotify pid tid create)
  then show ?thesis
    by (simp add: alone_steps(1) begin_step_def plan_def arrives_def alone_emit
        handle_input_def thread_notify_def emit_thread_create_eq emit_thread_exit_eq)
next
  case (ObjectNotify info)
  then show ?thesis
    by (simp add: alone_steps(1) begin_step_def plan_def arrives_def alone_emit
        handle_input_def process_object_notify_eq emit_handle_access_eq object_gate_report split: option.split)
next
  case (RegistryNotify a arg)
  then have "reg_arg_valid a arg" using assms by (simp add: valid_input_def)
  with RegistryNotify show ?thesis
    by (simp add: alone_steps(1) begin_step_def plan_def arrives_def alone_emit
        handle_input_def registry_notify_eq emit_planned_def split: prod.split option.split)
next
  case (IrpNotify major i r len)
  then show ?thesis
    by (simp add: alone_steps(1) begin_step_def arrives_def alone_cleanup alone_get
        handle_input_def call_dispatch_def dispatch_invalid_def dispatch_create_close_def
        split: option.split dispatch_routine.split)
qed

end
