(* ===== verification/Edr_Interleave.thy ===== *)
theory Edr_Interleave
  imports Edr_Threads "HOL-Library.Multiset"
begin

text \<open>
  Any number of threads, interleaved step by step, around one spinlock. A thread that wants the lock
  waits until it is free. The invariant says who owns which block and which IRP at every
  moment, and every step but one keeps it: marking a request pending that another thread has meanwhile
  completed.

  The monitor of the kernel's rules watches one call after the other and takes the lock to be held by
  whoever calls. With several threads its two halves are kept apart: \<open>unlocked\<close> is the state without the
  lock calls in its trace, on which the rules about memory and IRPs are checked; the lock calls on their
  own are checked for mutual exclusion; and no thread completes a request in its own lock section.
\<close>

section \<open>The trace without the lock\<close>

definition lock_call :: "kcall \<Rightarrow> bool" where
  "lock_call c =
    (case c of KeAcquireSpinLockRaiseToDpc q \<Rightarrow> True | KeReleaseSpinLock q \<Rightarrow> True | QueueAccess \<Rightarrow> True
     | _ \<Rightarrow> False)"

lemma lock_call_simps [simp]:
  "lock_call (KeAcquireSpinLockRaiseToDpc q)" "lock_call (KeReleaseSpinLock q)" "lock_call QueueAccess"
  "\<not> lock_call (ExAllocatePool2 flags bytes tag p)" "\<not> lock_call (ExFreePool p)" "\<not> lock_call (WriteMem p k n)"
  "\<not> lock_call (ReadMem p k n)" "\<not> lock_call (ReadSource n k)" "\<not> lock_call (IrpArrive i n)"
  "\<not> lock_call (IrpAccess i)" "\<not> lock_call (WriteSystemBuffer i n)" "\<not> lock_call (IofCompleteRequest i r)"
  "\<not> lock_call (DbgPrint s)" "\<not> lock_call Panic" "\<not> lock_call OverflowPanic"
  by (simp_all add: lock_call_def)

definition unlocked :: "driver \<Rightarrow> driver" where
  "unlocked d = d\<lparr>trace := filter (\<lambda>c. \<not> lock_call c) (trace d)\<rparr>"

lemma unlocked_simps [simp]:
  "QUEUE_BUF (unlocked d) = QUEUE_BUF d" "QUEUE_HEAD (unlocked d) = QUEUE_HEAD d"
  "QUEUE_TAIL (unlocked d) = QUEUE_TAIL d" "QUEUE_LEN (unlocked d) = QUEUE_LEN d"
  "DROP_COUNT (unlocked d) = DROP_COUNT d" "TRUNC_COUNT (unlocked d) = TRUNC_COUNT d"
  "PENDING_IRP (unlocked d) = PENDING_IRP d" "heap (unlocked d) = heap d" "irps (unlocked d) = irps d"
  "trace (unlocked d) = filter (\<lambda>c. \<not> lock_call c) (trace d)"
  "queue_list (unlocked d) = queue_list d" "ring_ok (unlocked d) = ring_ok d"
  "unlocked (d\<lparr>PENDING_IRP := i\<rparr>) = (unlocked d)\<lparr>PENDING_IRP := i\<rparr>"
  "unlocked (d\<lparr>irps := f\<rparr>) = (unlocked d)\<lparr>irps := f\<rparr>"
  "unlocked (d\<lparr>heap := h\<rparr>) = (unlocked d)\<lparr>heap := h\<rparr>"
  "unlocked (d\<lparr>DROP_COUNT := n\<rparr>) = (unlocked d)\<lparr>DROP_COUNT := n\<rparr>"
  "unlocked (d\<lparr>TRUNC_COUNT := n\<rparr>) = (unlocked d)\<lparr>TRUNC_COUNT := n\<rparr>"
  by (simp_all add: unlocked_def queue_list_def ring_ok_def)

lemma unlocked_log_call [simp]:
  "unlocked (log_call c d) = (if lock_call c then unlocked d else log_call c (unlocked d))"
  by (simp add: unlocked_def log_call_def)

lemma same_globals_unlocked: "same_globals (unlocked d) (unlocked d') = same_globals d d'"
  by (simp add: same_globals_def) (simp add: unlocked_def)

lemma unlocked_ops [simp]:
  "unlocked (SpinLockGuard_drop g d) = unlocked d"
  "unlocked (snd (SpinLockGuard_acquire K d)) = unlocked d"
  "unlocked (free_pool p d) = free_pool p (unlocked d)"
  "unlocked (bump_drop d) = bump_drop (unlocked d)"
  "unlocked (write_mem p k bs d) = write_mem p k bs (unlocked d)"
  "unlocked (zero_mem p n d) = zero_mem p n (unlocked d)"
  "unlocked (mark_irp_pending i d) = mark_irp_pending i (unlocked d)"
  "unlocked (snd (complete_irp i status info d)) = snd (complete_irp i status info (unlocked d))"
  "unlocked (copy_to_system_buffer i p n d) = copy_to_system_buffer i p n (unlocked d)"
  by (simp_all add: SpinLockGuard_drop_def SpinLockGuard_acquire_def free_pool_def bump_drop_def write_mem_def
      zero_mem_def mark_irp_pending_def current_stack_location_def complete_irp_def copy_to_system_buffer_def Let_def)
    (simp_all add: log_call_def cong: if_cong)

text \<open>Leaving the lock out of an allowed trace leaves an allowed trace.\<close>

lemma mon_step_unlocked:
  assumes "mon_step c m = Some m'"
  shows "if lock_call c then m'\<lparr>m_lock := None\<rparr> = m\<lparr>m_lock := None\<rparr>
    else mon_step c (m\<lparr>m_lock := None\<rparr>) = Some (m'\<lparr>m_lock := None\<rparr>)"
  using assms by (cases c) (auto simp: lock_call_def guarded_def split: if_splits option.splits)

lemma mon_run_unlocked:
  "mon_run h m = Some m' \<Longrightarrow>
   mon_run (filter (\<lambda>c. \<not> lock_call c) h) (m\<lparr>m_lock := None\<rparr>) = Some (m'\<lparr>m_lock := None\<rparr>)"
proof (induction h arbitrary: m)
  case Nil
  then show ?case by simp
next
  case (Cons c h)
  then obtain m1 where s: "mon_step c m = Some m1" and r: "mon_run h m1 = Some m'"
    by (auto split: option.splits)
  from Cons.IH [OF r] mon_step_unlocked [OF s] show ?case by (simp split: if_splits)
qed

lemma owns_unlocked:
  assumes "owns lk bs iq d"
  shows "owns None bs iq (unlocked d)"
proof -
  obtain m where m: "ring_ok d" "mon_of d = Some m" "no_loans m" "regs_agree m d"
    "blocks_owned bs m d" "irps_owned iq m d"
    using assms by (rule ownsE)
  let ?m = "m\<lparr>m_lock := None\<rparr>"
  have "mon0\<lparr>m_lock := None\<rparr> = mon0" by (simp add: mon0_def)
  then have "mon_of (unlocked d) = Some ?m"
    using mon_run_unlocked [of "trace d" mon0 m] m(2) by (simp add: mon_of_def)
  moreover have "blocks_owned bs ?m (unlocked d)" using m(5)
    by (simp add: blocks_owned_def queue_blocks_def)
  moreover have "irps_owned iq ?m (unlocked d)" using m(6) by (simp add: irps_owned_def)
  moreover have "regs_agree ?m (unlocked d)" using m(4) by (simp add: regs_agree_def) (simp add: unlocked_def)
  ultimately show ?thesis using m by (intro ownsI [where m = ?m]) simp_all
qed

text \<open>What the pool promises when several threads use it: a block is not handed out twice.\<close>

definition pool_fresh_shared :: "kernel \<Rightarrow> bool" where
  "pool_fresh_shared K \<longleftrightarrow>
    (\<forall>h m flags bytes tag. mon_run (filter (\<lambda>c. \<not> lock_call c) h) mon0 = Some m \<longrightarrow>
       (let p = ret_ExAllocatePool2 K h flags bytes tag in p \<noteq> null_ptr \<longrightarrow> m_live m p = None))"

definition shared_kernel_ok :: "kernel \<Rightarrow> bool" where
  "shared_kernel_ok K \<longleftrightarrow> pool_fresh_shared K \<and> key_names_valid K \<and> handles_valid K"

section \<open>Ownership does not depend on the order\<close>

lemma owns_perm:
  assumes own: "owns lk bs iq d" and p: "mset bs = mset bs'" "mset iq = mset iq'"
  shows "owns lk bs' iq' d"
proof -
  obtain m where m: "ring_ok d" "mon_of d = Some m" "m_lock m = lk" "no_loans m" "regs_agree m d"
    "blocks_owned bs m d" "irps_owned iq m d"
    using own by (rule ownsE)
  let ?x = "bs @ queue_blocks d" and ?y = "bs' @ queue_blocks d"
  have "mset ?x = mset ?y" using p(1) by simp
  then have s: "set ?x = set ?y" "mset (map fst ?x) = mset (map fst ?y)"
    by (metis set_mset_mset, metis mset_map)
  have dist: "distinct (map fst ?x)" "distinct (map fst ?y)"
    using m(6) mset_eq_imp_distinct_iff [OF s(2)] unfolding blocks_owned_def by blast+
  then have "map_of ?x = map_of ?y" using s(1) map_of_inject_set by blast
  then have "blocks_owned bs' m d" using m(6) s(1) dist unfolding blocks_owned_def by simp
  moreover have "set iq' = set iq" "distinct iq' = distinct iq"
    using p(2) by (metis set_mset_mset, metis mset_eq_imp_distinct_iff)
  then have "irps_owned iq' m d" using m(7) by (simp add: irps_owned_def)
  ultimately show ?thesis using m by (intro ownsI [where m = m]) simp_all
qed

section \<open>What a thread has in hand\<close>

primrec emit_blocks :: "nat \<Rightarrow> emit_pc \<Rightarrow> (ptr \<times> nat) list" where
  "emit_blocks n E_alloc = []"
| "emit_blocks n (E_zero p) = [(p, n)]"
| "emit_blocks n (E_drops p) = [(p, n)]"
| "emit_blocks n (E_truncs p ts k) = [(p, n)]"
| "emit_blocks n (E_header p h) = [(p, n)]"
| "emit_blocks n (E_fill p) = [(p, n)]"

primrec submit_blocks :: "ptr \<times> nat \<Rightarrow> submit_pc \<Rightarrow> (ptr \<times> nat) list" where
  "submit_blocks b S_acquire = [b]"
| "submit_blocks b (S_take q) = [b]"
| "submit_blocks b (S_stack q i) = [b]"
| "submit_blocks b (S_copy q i) = [b]"
| "submit_blocks b (S_drop q i fits) = [b]"
| "submit_blocks b (S_free i fits) = [b]"
| "submit_blocks b (S_count i) = []"
| "submit_blocks b (S_push q) = [b]"
| "submit_blocks b (S_leave q) = []"

primrec get_blocks :: "get_pc \<Rightarrow> (ptr \<times> nat) list" where
  "get_blocks G_stack = []"
| "get_blocks (G_acquire n) = []"
| "get_blocks (G_pop q n) = []"
| "get_blocks (G_drop q n s) = [slot_block s]"
| "get_blocks (G_copy s) = [slot_block s]"
| "get_blocks (G_free s fits) = [slot_block s]"
| "get_blocks (G_count s) = []"
| "get_blocks (G_park q n) = []"
| "get_blocks (G_leave q parked) = []"
| "get_blocks G_mark = []"

primrec blocks :: "pc \<Rightarrow> (ptr \<times> nat) list" where
  "blocks Done = []"
| "blocks Hung = []"
| "blocks (Begin x) = []"
| "blocks (Emit lay ty fill e) = emit_blocks (size_of lay) e"
| "blocks (Send p sz s) = submit_blocks (p, unat sz) s"
| "blocks (Fetch i g) = get_blocks g"
| "blocks (Clean i c) = []"
| "blocks (Complete i status info) = []"

primrec submit_irps :: "submit_pc \<Rightarrow> ptr list" where
  "submit_irps S_acquire = []"
| "submit_irps (S_take q) = []"
| "submit_irps (S_stack q i) = [i]"
| "submit_irps (S_copy q i) = [i]"
| "submit_irps (S_drop q i fits) = [i]"
| "submit_irps (S_free i fits) = [i]"
| "submit_irps (S_count i) = [i]"
| "submit_irps (S_push q) = []"
| "submit_irps (S_leave q) = []"

text \<open>A parked request is in nobody's hands, though one thread still means to mark it.\<close>

primrec get_irps :: "ptr \<Rightarrow> get_pc \<Rightarrow> ptr list" where
  "get_irps i G_stack = [i]"
| "get_irps i (G_acquire n) = [i]"
| "get_irps i (G_pop q n) = [i]"
| "get_irps i (G_drop q n s) = [i]"
| "get_irps i (G_copy s) = [i]"
| "get_irps i (G_free s fits) = [i]"
| "get_irps i (G_count s) = [i]"
| "get_irps i (G_park q n) = [i]"
| "get_irps i (G_leave q parked) = (if parked then [] else [i])"
| "get_irps i G_mark = []"

primrec cleanup_irps :: "ptr \<Rightarrow> cleanup_pc \<Rightarrow> ptr list" where
  "cleanup_irps i C_take = [i]"
| "cleanup_irps i (C_cancel j) = [j, i]"

definition input_irps :: "input \<Rightarrow> ptr list" where
  "input_irps x = (case x of IrpNotify major i r len \<Rightarrow> [i] | _ \<Rightarrow> [])"

primrec hand :: "pc \<Rightarrow> ptr list" where
  "hand Done = []"
| "hand Hung = []"
| "hand (Begin x) = input_irps x"
| "hand (Emit lay ty fill e) = []"
| "hand (Send p sz s) = submit_irps s"
| "hand (Fetch i g) = get_irps i g"
| "hand (Clean i c) = cleanup_irps i c"
| "hand (Complete i status info) = [i]"

text \<open>The lock guard a thread holds.\<close>

primrec submit_guards :: "submit_pc \<Rightarrow> spin_lock_guard list" where
  "submit_guards S_acquire = []"
| "submit_guards (S_take q) = [q]"
| "submit_guards (S_stack q i) = [q]"
| "submit_guards (S_copy q i) = [q]"
| "submit_guards (S_drop q i fits) = [q]"
| "submit_guards (S_free i fits) = []"
| "submit_guards (S_count i) = []"
| "submit_guards (S_push q) = [q]"
| "submit_guards (S_leave q) = [q]"

primrec get_guards :: "get_pc \<Rightarrow> spin_lock_guard list" where
  "get_guards G_stack = []"
| "get_guards (G_acquire n) = []"
| "get_guards (G_pop q n) = [q]"
| "get_guards (G_drop q n s) = [q]"
| "get_guards (G_copy s) = []"
| "get_guards (G_free s fits) = []"
| "get_guards (G_count s) = []"
| "get_guards (G_park q n) = [q]"
| "get_guards (G_leave q parked) = [q]"
| "get_guards G_mark = []"

primrec guards :: "pc \<Rightarrow> spin_lock_guard list" where
  "guards Done = []"
| "guards Hung = []"
| "guards (Begin x) = []"
| "guards (Emit lay ty fill e) = []"
| "guards (Send p sz s) = submit_guards s"
| "guards (Fetch i g) = get_guards g"
| "guards (Clean i c) = []"
| "guards (Complete i status info) = []"

definition acquires :: "pc \<Rightarrow> bool" where
  "acquires t = (case t of Send p sz S_acquire \<Rightarrow> True | Fetch i (G_acquire n) \<Rightarrow> True | _ \<Rightarrow> False)"

section \<open>What a thread relies on\<close>

text \<open>The part of \<open>valid_input\<close> that does not depend on the state.\<close>

definition input_ok :: "input \<Rightarrow> bool" where
  "input_ok x =
    (case x of
       ProcessNotify process pid ci \<Rightarrow> process_info_valid ci
     | ImageNotify name pid info \<Rightarrow> pus_valid name
     | ThreadNotify pid tid create \<Rightarrow> True
     | ObjectNotify info \<Rightarrow> True
     | RegistryNotify argument1 arg \<Rightarrow> reg_arg_valid argument1 arg
     | IrpNotify major i r len \<Rightarrow> major \<le> IRP_MJ_MAXIMUM_FUNCTION)"

lemma valid_input_ok: "valid_input x d \<Longrightarrow> input_ok x"
  by (auto simp: valid_input_def input_ok_def split: input.splits)

definition submit_ok :: "u32 \<Rightarrow> submit_pc \<Rightarrow> driver \<Rightarrow> bool" where
  "submit_ok sz s d \<longleftrightarrow> 0 < sz \<and>
    (case s of
       S_copy q i \<Rightarrow> sz \<le> OutputBufferLength (irps d i)
     | S_push q \<Rightarrow> PENDING_IRP d = null_ptr
     | _ \<Rightarrow> True)"

definition get_ok :: "ptr \<Rightarrow> get_pc \<Rightarrow> driver \<Rightarrow> bool" where
  "get_ok i g d =
    (case g of
       G_acquire n \<Rightarrow> n = OutputBufferLength (irps d i)
     | G_pop q n \<Rightarrow> n = OutputBufferLength (irps d i)
     | G_drop q n s \<Rightarrow> n = OutputBufferLength (irps d i)
     | G_copy s \<Rightarrow> slot_size s \<le> OutputBufferLength (irps d i)
     | G_park q n \<Rightarrow> n = OutputBufferLength (irps d i) \<and> queue_list d = []
     | _ \<Rightarrow> True)"

definition relies :: "pc \<Rightarrow> driver \<Rightarrow> bool" where
  "relies t d =
    (case t of
       Begin x \<Rightarrow> input_ok x
     | Emit lay ty fill e \<Rightarrow> event_filler lay True fill
     | Send p sz s \<Rightarrow> submit_ok sz s d
     | Fetch i g \<Rightarrow> get_ok i g d
     | _ \<Rightarrow> True)"

lemmas relies_defs = relies_def submit_ok_def get_ok_def

section \<open>Every step keeps the books\<close>

lemma fill_call_not_lock: "list_all fill_call cs \<Longrightarrow> filter (\<lambda>c. \<not> lock_call c) cs = cs"
  by (induction cs) (auto simp: fill_call_def lock_call_def split: kcall.splits)

lemma gate_call_not_lock: "list_all gate_call cs \<Longrightarrow> filter (\<lambda>c. \<not> lock_call c) cs = cs"
  by (induction cs) (auto simp: gate_call_def lock_call_def split: kcall.splits)

lemma fills_unlocked:
  assumes "fills p n d d'"
  shows "fills p n (unlocked d) (unlocked d')"
proof -
  obtain cs where "trace d' = trace d @ cs" "list_all fill_call cs"
    "\<And>m. m_live m p = Some n \<Longrightarrow> mon_run cs m = Some m"
    using fills_calls [OF assms] by blast
  then show ?thesis
    using assms by (simp add: fills_def fill_call_not_lock) (simp add: unlocked_def)
qed

lemma quiet_unlocked:
  assumes "quiet d d'"
  shows "quiet (unlocked d) (unlocked d')"
proof -
  obtain cs where "trace d' = trace d @ cs" "list_all gate_call cs" "\<And>m. mon_run cs m = Some m"
    using quiet_calls [OF assms] by blast
  then show ?thesis
    using quietD [OF assms] by (intro quiet_trace [where cs = cs])
      (simp_all add: same_globals_unlocked gate_call_not_lock)
qed

lemma oom_calls_unlocked:
  "filter (\<lambda>c. \<not> lock_call c) (oom_calls K d) = oom_calls K d" "filter lock_call (oom_calls K d) = []"
  by (simp_all add: oom_calls_def)

lemma alloc_step_owns:
  assumes own: "owns None bs iq (unlocked d)" and K: "pool_fresh_shared K"
    and a: "alloc_event K sz d = (p, d')"
  shows "owns None (if p = null_ptr then bs else (p, unat sz) # bs) iq (unlocked d')"
proof -
  obtain m where m: "ring_ok (unlocked d)" "mon_of (unlocked d) = Some m" "m_lock m = None" "no_loans m"
    "regs_agree m (unlocked d)" "blocks_owned bs m (unlocked d)" "irps_owned iq m (unlocked d)"
    using own by (rule ownsE)
  have eq: "p = ret_ExAllocatePool2 K (trace d) POOL_FLAG_NON_PAGED (ucast sz) POOL_TAG"
    using a by (auto simp: alloc_event_def Let_def split: if_splits)
  have same: "same_globals (unlocked d) (unlocked d')"
    using same_globals_alloc [of d K sz] a by (simp add: same_globals_unlocked)
  have tr: "trace (unlocked d') = trace (unlocked d) @
      ExAllocatePool2 POOL_FLAG_NON_PAGED (ucast sz) POOL_TAG p #
      (if p = null_ptr then oom_calls K d else [])"
    using trace_alloc_event [of K sz d] a by (simp add: oom_calls_unlocked)
  show ?thesis
  proof (cases "p = null_ptr")
    case True
    then have "mon_of (unlocked d') = mon_of (unlocked d)"
      using m(2) by (simp add: mon_of_def tr mon_run_append del: unlocked_simps)
    with own same True show ?thesis by (simp add: owns_same)
  next
    case False
    have fresh: "m_live m p = None"
      using K m(2) False unfolding pool_fresh_shared_def Let_def eq mon_of_def unlocked_simps by blast
    let ?m = "m\<lparr>m_live := (m_live m)(p := Some (unat sz))\<rparr>"
    have "blocks_owned ((p, unat sz) # bs) ?m (unlocked d')"
      using m(6) False fresh same_globalsD(1) [OF same] by (rule blocks_owned_alloc) simp
    moreover have "mon_of (unlocked d') = Some ?m"
      using False m(2) fresh by (simp add: mon_of_def tr mon_run_append del: unlocked_simps)
    ultimately have "owns None ((p, unat sz) # bs) iq (unlocked d')"
      by (intro ownsI [where m = ?m])
        (use m same_globalsD(2) [OF same] in \<open>simp_all add: same_globals_regs [OF same]
          same_globals_owned(2) [OF same] del: unlocked_simps\<close>)
    with False show ?thesis by simp
  qed
qed

lemma emit_step_relies:
  assumes f: "event_filler lay True fill" and s: "emit_step K lay ty fill e d = (t', d')"
  shows "relies t' d'"
proof -
  note sz = event_filler.size_ok [OF f]
  have "0 < (of_nat (size_of lay) :: u32)" using sz(2) unat_size_of [OF sz(1)] by (simp add: word_less_nat_alt)
  then show ?thesis using s f by (cases e) (auto simp: emit_step_def Let_def relies_defs split: prod.splits)
qed

lemma emit_step_owns:
  assumes own: "owns None (emit_blocks (size_of lay) e @ bs) iq (unlocked d)"
    and f: "event_filler lay True fill" and K: "pool_fresh_shared K"
    and s: "emit_step K lay ty fill e d = (t', d')"
  shows "owns None (blocks t' @ bs) (hand t' @ iq) (unlocked d')" "relies t' d'"
proof -
  note sz = event_filler.size_ok [OF f]
  have n: "unat (of_nat (size_of lay) :: u32) = size_of lay" by (rule unat_size_of [OF sz(1)])
  show "owns None (blocks t' @ bs) (hand t' @ iq) (unlocked d')"
  proof (cases e)
    case E_alloc
    then show ?thesis
      using s alloc_step_owns [of bs iq d K "of_nat (size_of lay)"] own K
      by (auto simp: emit_step_def Let_def n split: prod.splits if_splits)
  next
    case (E_zero p)
    have "owns None ((p, size_of lay) # bs) iq (zero_mem p (size_of lay) (unlocked d))"
      using own [unfolded E_zero emit_blocks.simps append_Cons append_Nil]
      by (rule owns_call) (auto simp: zero_mem_def log_call_def same_globals_def dest: blocks_owned_live)
    then show ?thesis using s E_zero by (auto simp: emit_step_def Let_def n)
  next
    case (E_drops p)
    then have "owns None ((p, size_of lay) # bs) iq ((unlocked d)\<lparr>DROP_COUNT := 0\<rparr>)"
      using own by (intro owns_same [OF own [unfolded E_drops emit_blocks.simps append_Cons append_Nil]])
        (simp_all add: same_globals_def)
    then show ?thesis using s E_drops by (auto simp: emit_step_def Let_def)
  next
    case (E_truncs p ts k)
    then have "owns None ((p, size_of lay) # bs) iq ((unlocked d)\<lparr>TRUNC_COUNT := 0\<rparr>)"
      using own by (intro owns_same [OF own [unfolded E_truncs emit_blocks.simps append_Cons append_Nil]])
        (simp_all add: same_globals_def)
    then show ?thesis using s E_truncs by (auto simp: emit_step_def Let_def)
  next
    case (E_header p h)
    then have "owns None ((p, size_of lay) # bs) iq (write_mem p 0 (header_bytes h) (unlocked d))"
      using own sz(2) by (intro owns_fills [OF own [unfolded E_header emit_blocks.simps append_Cons append_Nil]]
          fills_write_mem fills_refl) simp
    then show ?thesis using s E_header by (auto simp: emit_step_def Let_def)
  next
    case (E_fill p)
    have "owns None ((p, size_of lay) # bs) iq (unlocked (fill p d))"
      by (rule owns_fills [OF own [unfolded E_fill emit_blocks.simps append_Cons append_Nil]
          fills_unlocked [OF event_filler.fill_fills [OF f TrueI]]])
    then show ?thesis using s E_fill by (auto simp: emit_step_def Let_def n)
  qed
  show "relies t' d'" using f s by (rule emit_step_relies)
qed

text \<open>The queue operations, with the lock around them left out.\<close>

lemma push_step_owns:
  assumes own: "owns None ((p, unat sz) # bs) iq (unlocked d)" and none: "PENDING_IRP d = null_ptr"
  shows "owns None bs iq (unlocked (snd (queue_push_locked p sz d)))"
proof -
  let ?a = "log_call (KeAcquireSpinLockRaiseToDpc 0) (unlocked d)"
  have "owns (Some 0) bs iq (snd (queue_push_locked p sz ?a))"
    using owns_acquire [OF own] none by (intro owns_push) (simp_all add: log_call_def)
  then have "owns None bs iq (unlocked (snd (queue_push_locked p sz ?a)))" by (rule owns_unlocked)
  moreover have "unlocked (snd (queue_push_locked p sz ?a)) = unlocked (snd (queue_push_locked p sz d))"
    by (simp add: queue_push_locked_def Let_def log_call_def free_pool_def bump_drop_def unlocked_def)
  ultimately show ?thesis by simp
qed

lemma unlocked_pop:
  "fst (queue_pop_locked (log_call (KeAcquireSpinLockRaiseToDpc 0) (unlocked d))) = fst (queue_pop_locked d)"
  "unlocked (snd (queue_pop_locked (log_call (KeAcquireSpinLockRaiseToDpc 0) (unlocked d)))) =
    unlocked (snd (queue_pop_locked d))"
  by (simp_all add: queue_pop_locked_def Let_def log_call_def unlocked_def)

lemma pop_step_owns:
  assumes own: "owns None bs iq (unlocked d)" and pop: "queue_pop_locked d = (r, d')"
  shows "owns None ((case r of None \<Rightarrow> [] | Some s \<Rightarrow> [slot_block s]) @ bs) iq (unlocked d')"
    and "r = None \<Longrightarrow> queue_list d' = []"
proof -
  let ?a = "log_call (KeAcquireSpinLockRaiseToDpc 0) (unlocked d)"
  have r: "fst (queue_pop_locked ?a) = r" "unlocked (snd (queue_pop_locked ?a)) = unlocked d'"
    using pop by (simp_all add: unlocked_pop)
  note acq = owns_acquire [OF own, of 0]
  show "owns None ((case r of None \<Rightarrow> [] | Some s \<Rightarrow> [slot_block s]) @ bs) iq (unlocked d')"
  proof (cases r)
    case None
    then show ?thesis using owns_unlocked [OF owns_pop_none(1) [OF acq]] r by simp
  next
    case (Some s)
    then show ?thesis using owns_unlocked [OF owns_pop_some(1) [OF acq]] r by (simp add: slot_block_def)
  qed
  show "queue_list d' = []" if "r = None"
  proof -
    have "queue_list d = []" using owns_pop_none(2) [OF acq] r(1) that by (simp add: log_call_def)
    then show ?thesis using pop pop_empty [of d] by (auto simp: that)
  qed
qed

lemma log_call_fields [simp]:
  "irps (log_call c d) = irps d" "PENDING_IRP (log_call c d) = PENDING_IRP d"
  "DROP_COUNT (log_call c d) = DROP_COUNT d"
  by (simp_all add: log_call_def)

lemma take_step_owns:
  assumes "owns None ((p, n) # bs) iq (unlocked d)" "take_pending d = (i, d')"
  shows "owns None ((p, n) # bs) (if i = null_ptr then iq else i # iq) (unlocked d')"
proof (cases "PENDING_IRP d = null_ptr")
  case True
  then show ?thesis using assms by (auto simp: take_pending_none)
next
  case False
  have "owns None ((p, n) # bs) (PENDING_IRP d # iq) ((unlocked d)\<lparr>PENDING_IRP := null_ptr\<rparr>)"
    using assms(1) False by (intro owns_take_pending) simp_all
  then show ?thesis using False assms(2) by (auto simp: take_pending_def)
qed

lemma submit_step_owns:
  assumes own: "owns None (submit_blocks (p, unat sz) s @ bs) (submit_irps s @ iq) (unlocked d)"
    and r: "submit_ok sz s d" and st: "submit_step K p sz s d = (t', d')"
  shows "owns None (blocks t' @ bs) (hand t' @ iq) (unlocked d')" "relies t' d'"
proof -
  show "owns None (blocks t' @ bs) (hand t' @ iq) (unlocked d')"
  proof (cases s)
    case (S_take q)
    have "owns None ((p, unat sz) # bs) iq (unlocked d)" using own S_take by simp
    from take_step_owns [OF this prod.collapse [symmetric]] show ?thesis
      using st S_take by (auto simp: submit_step_def split_beta split: if_splits)
  next
    case (S_stack q i)
    have "owns None ((p, unat sz) # bs) (i # iq) (log_call (IrpAccess i) (unlocked d))"
      using own [unfolded S_stack, simplified]
      by (rule owns_irp_access [where i = i]) simp_all
    then show ?thesis using st S_stack
      by (auto simp: submit_step_def current_stack_location_def split: if_splits)
  next
    case (S_copy q i)
    have "owns None ((p, unat sz) # bs) (i # iq) (copy_to_system_buffer i p (unat sz) (unlocked d))"
      using own r S_copy by (intro owns_copy_to_system_buffer) (simp_all add: submit_ok_def word_le_nat_alt)
    then show ?thesis using st S_copy by (auto simp: submit_step_def)
  next
    case (S_free i fits)
    have "owns None bs (i # iq) (free_pool p (unlocked d))"
      using own S_free by (intro owns_free_pool) simp
    then show ?thesis using st S_free by (auto simp: submit_step_def split: if_splits)
  next
    case (S_count i)
    have "owns None bs (i # iq) (bump_drop (unlocked d))"
      using own S_count by (intro owns_bump_drop) simp
    then show ?thesis using st S_count by (auto simp: submit_step_def)
  next
    case (S_push q)
    have "owns None bs iq (unlocked (snd (queue_push_locked p sz d)))"
      using own r S_push by (intro push_step_owns) (simp_all add: submit_ok_def)
    then show ?thesis using st S_push by (auto simp: submit_step_def split: prod.splits)
  qed (use own st in \<open>auto simp: submit_step_def SpinLockGuard_acquire_def Let_def\<close>)
  show "relies t' d'"
    using st r by (cases s) (auto simp: submit_step_def take_pending_def current_stack_location_def
        log_call_def relies_defs split: prod.splits if_splits)
qed

text \<open>
  A request that is marked after it was completed. The monitor knows an IRP by its address, as the kernel does:
  when the I/O manager has meanwhile given the driver a new request at the same address, the mark goes to an
  IRP the driver owns and is not late in this sense; what is proved covers those runs too.
\<close>

definition late_mark :: "pc \<Rightarrow> driver \<Rightarrow> bool" where
  "late_mark t d =
    (case t of
       Fetch i G_mark \<Rightarrow> (case mon_of (unlocked d) of None \<Rightarrow> False | Some m \<Rightarrow> m_irps m i = None)
     | _ \<Rightarrow> False)"

lemma park_step_owns:
  assumes "owns None bs (i # iq) (unlocked d)" "queue_list d = []" "park_irp i d = (parked, d')"
  shows "owns None bs (if parked then iq else i # iq) (unlocked d')"
proof (cases "PENDING_IRP d = null_ptr")
  case True
  have "owns None bs iq ((unlocked d)\<lparr>PENDING_IRP := i\<rparr>)"
    using assms(1,2) True by (intro owns_park) simp_all
  then show ?thesis using True assms(3) by (auto simp: park_irp_def)
qed (use assms in \<open>auto simp: park_irp_def\<close>)

lemma mark_step_owns:
  assumes own: "owns None bs iq (unlocked d)" and timely: "\<not> late_mark (Fetch i G_mark) d"
  shows "owns None bs iq (unlocked (mark_irp_pending i d))"
proof -
  have "touchable i iq (unlocked d)"
    using timely by (rule_tac ownsE [OF own]) (auto simp: late_mark_def touchable_def irps_owned_def)
  with own have "owns None bs iq (mark_irp_pending i (unlocked d))" by (rule owns_mark_irp_pending)
  then show ?thesis by simp
qed

lemma get_step_owns:
  assumes own: "owns None (get_blocks g @ bs) (get_irps i g @ iq) (unlocked d)"
    and r: "get_ok i g d" and timely: "\<not> late_mark (Fetch i g) d" and st: "get_step K i g d = (t', d')"
  shows "owns None (blocks t' @ bs) (hand t' @ iq) (unlocked d')" "relies t' d'"
proof -
  have "owns None (blocks t' @ bs) (hand t' @ iq) (unlocked d') \<and> relies t' d'"
  proof (cases g)
    case G_stack
    have "owns None bs (i # iq) (log_call (IrpAccess i) (unlocked d))"
      using own [unfolded G_stack, simplified] by (rule owns_irp_access [where i = i]) simp_all
    then show ?thesis using st G_stack
      by (auto simp: get_step_def current_stack_location_def relies_defs split: if_splits)
  next
    case (G_pop q n)
    obtain popped d1 where p: "queue_pop_locked d = (popped, d1)" by (cases "queue_pop_locked d")
    have own': "owns None bs (i # iq) (unlocked d)" using own G_pop by simp
    have "irps d1 = irps d" using p frame_simps by (metis snd_conv)
    then show ?thesis
      using st G_pop r p pop_step_owns [OF own' p]
      by (auto simp: get_step_def relies_defs split: option.splits)
  next
    case (G_copy s)
    have "owns None (slot_block s # bs) (i # iq)
        (copy_to_system_buffer i (data s) (unat (slot_size s)) (unlocked d))"
      using own r G_copy unfolding slot_block_def
      by (intro owns_copy_to_system_buffer) (simp_all add: get_ok_def word_le_nat_alt slot_block_def)
    then show ?thesis using st G_copy by (auto simp: get_step_def relies_defs)
  next
    case (G_free s fits)
    have "owns None bs (i # iq) (free_pool (data s) (unlocked d))"
      using own G_free by (intro owns_free_pool) (simp add: slot_block_def)
    then show ?thesis using st G_free by (auto simp: get_step_def relies_defs split: if_splits)
  next
    case (G_count s)
    have "owns None bs (i # iq) (bump_drop (unlocked d))"
      using own G_count by (intro owns_bump_drop) simp
    then show ?thesis using st G_count by (auto simp: get_step_def relies_defs)
  next
    case (G_park q n)
    then have "owns None bs (i # iq) (unlocked d)" "queue_list d = []"
      using own r by (simp_all add: get_ok_def)
    from park_step_owns [OF this prod.collapse [symmetric]] show ?thesis
      using st G_park by (auto simp: get_step_def split_beta relies_defs split: if_splits)
  next
    case G_mark
    then show ?thesis using own st timely mark_step_owns [of bs iq d i] by (auto simp: get_step_def relies_defs)
  qed (use own st r in \<open>auto simp: get_step_def SpinLockGuard_acquire_def SpinLockGuard_drop_def relies_defs not_less
      Let_def split: if_splits\<close>)
  then show "owns None (blocks t' @ bs) (hand t' @ iq) (unlocked d')" "relies t' d'" by simp_all
qed

lemma cleanup_step_owns:
  assumes own: "owns None bs (cleanup_irps i c @ iq) (unlocked d)" and st: "cleanup_step i c d = (t', d')"
  shows "owns None (blocks t' @ bs) (hand t' @ iq) (unlocked d')" "relies t' d'"
proof -
  show "owns None (blocks t' @ bs) (hand t' @ iq) (unlocked d')"
  proof (cases c)
    case C_take
    show ?thesis
    proof (cases "PENDING_IRP d = null_ptr")
      case True
      then show ?thesis using own st C_take by (auto simp: cleanup_step_def take_pending_none)
    next
      case False
      have "owns None bs (PENDING_IRP d # i # iq) ((unlocked d)\<lparr>PENDING_IRP := null_ptr\<rparr>)"
        using own C_take False by (intro owns_take_pending) simp_all
      with False show ?thesis using st C_take by (auto simp: cleanup_step_def take_pending_def)
    qed
  next
    case (C_cancel j)
    have "owns None bs (i # iq) (snd (complete_irp j STATUS_CANCELLED 0 (unlocked d)))"
      using own C_cancel by (intro owns_complete_irp) simp
    then show ?thesis using st C_cancel by (auto simp: cleanup_step_def)
  qed
  show "relies t' d'"
    using st by (cases c) (auto simp: cleanup_step_def take_pending_def relies_def split: if_splits)
qed

text \<open>The filters of the callbacks change nothing, and what they decide to emit is a proper filler.\<close>

lemma event_filler_valid: "event_filler lay valid fill \<Longrightarrow> valid \<Longrightarrow> event_filler lay True fill"
  by (simp add: event_filler_def)

lemma plan_quiet:
  assumes K: "key_names_valid K" and x: "input_ok x" and p: "plan K x d = (pl, d')"
  shows "quiet d d'" "pl = Some (lay, ty, fill) \<Longrightarrow> event_filler lay True fill"
proof -
  note fillers = process_exit.event_filler_axioms thread_create.event_filler_axioms
    thread_exit.event_filler_axioms handle_access.event_filler_axioms
    event_filler_valid [OF process_create.event_filler_axioms]
    event_filler_valid [OF image_load.event_filler_axioms]
  have "quiet d d' \<and> (pl = Some (lay, ty, fill) \<longrightarrow> event_filler lay True fill)"
  proof (cases x)
    case (RegistryNotify a arg)
    obtain f d1 where r: "registry_plan K arg d = (f, d1)" by (cases "registry_plan K arg d")
    have v: "reg_arg_valid a arg" using x RegistryNotify by (simp add: input_ok_def)
    note s = registry_plan_spec [OF K v r]
    show ?thesis using p RegistryNotify r s planned_filler [OF v path_fits_copied]
      by (auto simp: plan_def split: if_splits)
  next
    case (ProcessNotify process pid ci)
    then show ?thesis using p x fillers
      by (cases ci) (auto simp: plan_def input_ok_def process_info_valid_def)
  next
    case (ObjectNotify info)
    then show ?thesis using p fillers by (auto simp: plan_def)
  qed (use p x fillers in \<open>auto simp: plan_def input_ok_def split: if_splits\<close>)
  then show "quiet d d'" "pl = Some (lay, ty, fill) \<Longrightarrow> event_filler lay True fill" by simp_all
qed

lemma begin_step_owns:
  assumes own: "owns None bs (input_irps x @ iq) (unlocked d)" and K: "key_names_valid K" "wired obj"
    and x: "input_ok x" and st: "begin_step K obj x d = (t', d')"
  shows "owns None (blocks t' @ bs) (hand t' @ iq) (unlocked d')" "relies t' d'"
proof -
  have "owns None (blocks t' @ bs) (hand t' @ iq) (unlocked d') \<and> relies t' d'"
  proof (cases "\<exists>major i r len. x = IrpNotify major i r len")
    case True
    then obtain major i r len where i: "x = IrpNotify major i r len" by blast
    then have "MajorFunction obj ! major = Some (routine_for major)"
      using K(2) x by (simp add: wired_def input_ok_def)
    then show ?thesis using own st i
      by (auto simp: begin_step_def input_irps_def relies_defs split: dispatch_routine.splits)
  next
    case False
    obtain pl d1 where p: "plan K x d = (pl, d1)" by (cases "plan K x d")
    note q = plan_quiet [OF K(1) x p]
    have own': "owns None bs iq (unlocked d1)"
      using own False quiet_owns [OF quiet_unlocked [OF q(1)]] by (cases x) (auto simp: input_irps_def)
    have "begin_step K obj x d = (case pl of None \<Rightarrow> (Done, d1) | Some (lay, ty, fill) \<Rightarrow>
        (Emit lay ty fill E_alloc, d1))"
      using False p by (cases x) (auto simp: begin_step_def split: option.splits)
    with st own' q(2) show ?thesis by (auto simp: relies_defs split: option.splits)
  qed
  then show "owns None (blocks t' @ bs) (hand t' @ iq) (unlocked d')" "relies t' d'" by simp_all
qed

lemma step_owns:
  assumes own: "owns None (blocks t @ bs) (hand t @ iq) (unlocked d)" and r: "relies t d"
    and K: "shared_kernel_ok K" "wired obj" and timely: "\<not> late_mark t d"
    and st: "step K obj t d = (t', d')"
  shows "owns None (blocks t' @ bs) (hand t' @ iq) (unlocked d')" "relies t' d'"
proof -
  have K': "pool_fresh_shared K" "key_names_valid K" using K(1) by (simp_all add: shared_kernel_ok_def)
  have "owns None (blocks t' @ bs) (hand t' @ iq) (unlocked d') \<and> relies t' d'"
  proof (cases t)
    case Done
    then show ?thesis using own st by (auto simp: relies_def)
  next
    case Hung
    then show ?thesis using own st by (auto simp: relies_def)
  next
    case (Begin x)
    then show ?thesis using begin_step_owns [of bs x iq d K obj t' d'] own r K K' st
      by (simp add: relies_def)
  next
    case (Emit lay ty fill e)
    then show ?thesis using emit_step_owns [of lay e bs iq d fill K ty t' d'] own r K' st
      by (simp add: relies_def)
  next
    case (Send p sz s)
    then show ?thesis using submit_step_owns [of p sz s bs iq d K t' d'] own r st by (simp add: relies_def)
  next
    case (Fetch i g)
    then show ?thesis using get_step_owns [of g bs i iq d K t' d'] own r st timely by (simp add: relies_def)
  next
    case (Clean i c)
    then show ?thesis using cleanup_step_owns [of bs i c iq d t' d'] own st by simp
  next
    case (Complete i status info)
    have "owns None bs iq (snd (complete_irp i status info (unlocked d)))"
      using own Complete by (intro owns_complete_irp) simp
    then show ?thesis using Complete st by (auto simp: relies_def)
  qed
  then show "owns None (blocks t' @ bs) (hand t' @ iq) (unlocked d')" "relies t' d'" by simp_all
qed

end
