(* ===== verification/Edr_Schedule.thy ===== *)
theory Edr_Schedule
  imports Edr_Interleave
begin

text \<open>
  Threads scheduled in any order. What a step does to the lock, what a step of one thread leaves
  to the others, the invariant of all threads together, and the runs, in which a thread that wants the lock
  waits for the lock itself to be free, as the trace has it, whoever holds it.
\<close>

section \<open>The lock\<close>

text \<open>What a step does to the lock, and which lock calls it makes.\<close>

definition lock_step :: "pc \<Rightarrow> pc \<Rightarrow> kcall list \<Rightarrow> bool" where
  "lock_step t t' cs \<longleftrightarrow>
    (case guards t of
       [] \<Rightarrow>
         if acquires t then \<exists>g. guards t' = [g] \<and> cs = [KeAcquireSpinLockRaiseToDpc (saved_irql g)]
         else guards t' = [] \<and> cs = []
     | g # gs \<Rightarrow>
         gs = [] \<and> (guards t' = [g] \<and> (cs = [] \<or> cs = [QueueAccess]) \<or>
           guards t' = [] \<and> cs = [KeReleaseSpinLock (saved_irql g)]))"

lemma fills_lock_calls: "fills p n d d' \<Longrightarrow> filter lock_call (trace d') = filter lock_call (trace d)"
  using fill_call_not_lock by (elim fills_calls) (auto simp: filter_empty_conv fill_call_def lock_call_def
      list_all_iff split: kcall.splits)

lemma quiet_lock_calls: "quiet d d' \<Longrightarrow> filter lock_call (trace d') = filter lock_call (trace d)"
  by (elim quiet_calls) (auto simp: filter_empty_conv gate_call_def lock_call_def list_all_iff
      split: kcall.splits)

lemma begin_eq:
  assumes "\<nexists>major i r len. x = IrpNotify major i r len" "plan K x d = (pl, d1)"
  shows "begin_step K obj x d =
    (case pl of None \<Rightarrow> (Done, d1) | Some (lay, ty, fill) \<Rightarrow> (Emit lay ty fill E_alloc, d1))"
  using assms by (cases x) (auto simp: begin_step_def split: option.splits)

lemma begin_step_lock:
  assumes "key_names_valid K" "input_ok x" "begin_step K obj x d = (t', d')"
  shows "guards t' = []" "filter lock_call (trace d') = filter lock_call (trace d)"
proof -
  have "guards t' = [] \<and> filter lock_call (trace d') = filter lock_call (trace d)"
  proof (cases "\<exists>major i r len. x = IrpNotify major i r len")
    case True
    then show ?thesis using assms(3)
      by (auto simp: begin_step_def log_call_def split: option.splits dispatch_routine.splits)
  next
    case False
    obtain pl d1 where p: "plan K x d = (pl, d1)" by (cases "plan K x d")
    note q = plan_quiet [OF assms(1,2) p]
    show ?thesis using assms(3) quiet_lock_calls [OF q(1)]
      by (auto simp: begin_eq [OF False p] split: option.splits)
  qed
  then show "guards t' = []" "filter lock_call (trace d') = filter lock_call (trace d)" by simp_all
qed

lemma emit_step_lock:
  assumes "event_filler lay True fill" "emit_step K lay ty fill e d = (t', d')"
  shows "guards t' = []" "filter lock_call (trace d') = filter lock_call (trace d)"
proof -
  show "guards t' = []"
    using assms(2) by (cases e) (auto simp: emit_step_def Let_def split: prod.splits if_splits)
  show "filter lock_call (trace d') = filter lock_call (trace d)"
    using assms(2) trace_alloc_event [of K "of_nat (size_of lay)" d]
      fills_lock_calls [OF event_filler.fill_fills [OF assms(1) TrueI]]
    by (cases e) (auto simp: emit_step_def Let_def zero_mem_def write_mem_def log_call_def oom_calls_unlocked
        split: prod.splits)
qed

lemma submit_step_lock:
  assumes "submit_step K p sz s d = (t', d')"
  shows "\<exists>cs. filter lock_call (trace d') = filter lock_call (trace d) @ cs \<and> lock_step (Send p sz s) t' cs"
proof (cases s)
  case (S_push q)
  then show ?thesis using assms trace_push [of p sz d]
    by (cases "queue_push_locked p sz d") (auto simp: submit_step_def lock_step_def)
qed (use assms in \<open>auto simp: submit_step_def lock_step_def acquires_def SpinLockGuard_acquire_def
      SpinLockGuard_drop_def Let_def take_pending_def irp_op_defs free_pool_def bump_drop_def log_call_def
      split: prod.splits if_splits\<close>)

lemma get_step_lock:
  assumes "get_step K i g d = (t', d')"
  shows "\<exists>cs. filter lock_call (trace d') = filter lock_call (trace d) @ cs \<and> lock_step (Fetch i g) t' cs"
proof (cases g)
  case (G_pop q n)
  then show ?thesis using assms trace_pop [of d]
    by (cases "queue_pop_locked d") (auto simp: get_step_def lock_step_def acquires_def split: option.splits)
qed (use assms in \<open>auto simp: get_step_def lock_step_def acquires_def SpinLockGuard_acquire_def
      SpinLockGuard_drop_def Let_def park_irp_def irp_op_defs free_pool_def bump_drop_def log_call_def
      split: prod.splits if_splits\<close>)

text \<open>The part of \<open>relies\<close> that does not depend on the state: inputs and fillers are proper ones.\<close>

definition planned :: "pc \<Rightarrow> bool" where
  "planned t = (case t of Begin x \<Rightarrow> input_ok x | Emit lay ty fill e \<Rightarrow> event_filler lay True fill | _ \<Rightarrow> True)"

lemma relies_planned: "relies t d \<Longrightarrow> planned t"
  by (auto simp: relies_def planned_def split: pc.splits)

lemma begin_step_planned:
  assumes K: "key_names_valid K" and x: "input_ok x" and st: "begin_step K obj x d = (t', d')"
  shows "planned t'"
proof (cases "\<exists>major i r len. x = IrpNotify major i r len")
  case True
  then show ?thesis using st
    by (auto simp: begin_step_def planned_def split: option.splits dispatch_routine.splits)
next
  case False
  obtain pl d1 where p: "plan K x d = (pl, d1)" by (cases "plan K x d")
  show ?thesis using st plan_quiet(2) [OF K x p]
    by (auto simp: begin_eq [OF False p] planned_def split: option.splits)
qed

lemma step_planned:
  assumes "\<And>x. t = Begin x \<Longrightarrow> key_names_valid K" "planned t" "step K obj t d = (t', d')"
  shows "planned t'"
proof (cases t)
  case (Begin x)
  then show ?thesis using assms begin_step_planned [of K x obj d t' d'] by (simp add: planned_def)
next
  case (Emit lay ty fill e)
  then show ?thesis using assms
    by (cases e) (auto simp: emit_step_def Let_def split_beta planned_def split: if_splits)
next
  case (Send p sz s)
  then show ?thesis using assms by (cases s) (auto simp: submit_step_def Let_def split_beta planned_def)
next
  case (Fetch i g)
  then show ?thesis using assms
    by (cases g) (auto simp: get_step_def Let_def split_beta planned_def split: option.splits)
next
  case (Clean i c)
  then show ?thesis using assms by (cases c) (auto simp: cleanup_step_def Let_def split_beta planned_def)
qed (use assms in \<open>auto simp: planned_def\<close>)

lemma step_lock:
  assumes "\<And>x. t = Begin x \<Longrightarrow> key_names_valid K" "planned t" "step K obj t d = (t', d')"
  shows "\<exists>cs. filter lock_call (trace d') = filter lock_call (trace d) @ cs \<and> lock_step t t' cs"
proof (cases t)
  case (Begin x)
  then show ?thesis using begin_step_lock [of K x obj d t' d'] assms
    by (simp add: planned_def lock_step_def acquires_def)
next
  case (Emit lay ty fill e)
  then show ?thesis using emit_step_lock [of lay fill K ty e d t' d'] assms
    by (simp add: planned_def lock_step_def acquires_def)
next
  case (Send p sz s)
  then show ?thesis using submit_step_lock [of K p sz s d t' d'] assms by simp
next
  case (Fetch i g)
  then show ?thesis using get_step_lock [of K i g d t' d'] assms by simp
next
  case (Clean i c)
  then show ?thesis using assms
    by (cases c) (auto simp: lock_step_def acquires_def cleanup_step_def take_pending_def complete_irp_def
        log_call_def Let_def split: if_splits)
qed (use assms in \<open>auto simp: lock_step_def acquires_def complete_irp_def log_call_def Let_def\<close>)

text \<open>The monitor of the lock when the threads together hold the guards \<open>gs\<close>.\<close>

definition lock_mon :: "spin_lock_guard list \<Rightarrow> monitor" where
  "lock_mon gs = mon0\<lparr>m_lock := (case gs of [] \<Rightarrow> None | g # _ \<Rightarrow> Some (saved_irql g))\<rparr>"

lemma lock_mon_middle: "length (gs @ xs @ ys) \<le> 1 \<Longrightarrow> lock_mon (xs @ gs @ ys) = lock_mon (gs @ xs @ ys)"
  by (cases gs; cases xs) simp_all

lemma lock_step_mon:
  assumes "lock_step t t' cs" "length (guards t @ gs) \<le> 1" "acquires t \<Longrightarrow> gs = []"
  shows "mon_run cs (lock_mon (guards t @ gs)) = Some (lock_mon (guards t' @ gs))"
    "length (guards t' @ gs) \<le> 1"
  using assms by (auto simp: lock_step_def lock_mon_def mon0_def split: list.splits if_splits)

subsection \<open>The state of the lock\<close>

text \<open>
  Whether the spinlock is held after the calls of a trace: it is taken by an acquisition and free again after
  a release, and nothing else changes it.
\<close>

fun lock_after :: "bool \<Rightarrow> history \<Rightarrow> bool" where
  "lock_after held [] = held"
| "lock_after held (c # cs) =
    lock_after (case c of KeAcquireSpinLockRaiseToDpc q \<Rightarrow> True | KeReleaseSpinLock q \<Rightarrow> False | _ \<Rightarrow> held) cs"

definition lock_free :: "driver \<Rightarrow> bool" where
  "lock_free d \<longleftrightarrow> \<not> lock_after False (trace d)"

lemma lock_after_append [simp]: "lock_after held (xs @ ys) = lock_after (lock_after held xs) ys"
  by (induction xs arbitrary: held) simp_all

lemma lock_after_filter: "lock_after held (filter lock_call h) = lock_after held h"
  by (induction h arbitrary: held) (auto simp: lock_call_def split: kcall.splits)

lemma lock_after_mon: "mon_run h m = Some m' \<Longrightarrow> lock_after (m_lock m \<noteq> None) h \<longleftrightarrow> m_lock m' \<noteq> None"
proof (induction h arbitrary: m)
  case Nil
  then show ?case by simp
next
  case (Cons c h)
  then obtain m1 where s: "mon_step c m = Some m1" and r: "mon_run h m1 = Some m'"
    by (auto split: option.splits)
  have "(case c of KeAcquireSpinLockRaiseToDpc q \<Rightarrow> True | KeReleaseSpinLock q \<Rightarrow> False | _ \<Rightarrow> m_lock m \<noteq> None)
      \<longleftrightarrow> m_lock m1 \<noteq> None"
    using s by (cases c) (auto split: if_splits option.splits)
  with Cons.IH [OF r] show ?case by (simp only: lock_after.simps)
qed

text \<open>
  The lock and the threads agree: at most one thread is between an acquisition and its release, and the lock is
  held exactly while there is one. This needs none of the bookkeeping about memory and IRPs, and no assumption
  on the order of the steps.
\<close>

definition lock_inv :: "pc list \<Rightarrow> driver \<Rightarrow> bool" where
  "lock_inv ts d \<longleftrightarrow> list_all planned ts \<and> length (concat (map guards ts)) \<le> 1 \<and>
    (lock_free d \<longleftrightarrow> concat (map guards ts) = [])"

lemma acquires_guards: "acquires t \<Longrightarrow> guards t = []"
  by (auto simp: acquires_def split: pc.splits submit_pc.splits get_pc.splits)

lemma lock_inv_alone:
  assumes "lock_inv (us @ t # vs) d" "lock_free d"
  shows "concat (map guards (us @ vs)) = []"
  using assms by (simp add: lock_inv_def)

lemma lock_inv_stopped:
  assumes "lock_inv ts d" "list_all stopped ts"
  shows "lock_free d"
proof -
  have "guards t = []" if "t \<in> set ts" for t using assms(2) that by (cases t) (auto simp: list_all_iff)
  then show ?thesis using assms(1) by (auto simp: lock_inv_def)
qed

lemma lock_step_held:
  assumes "lock_step t t' cs" "length (guards t @ gs) \<le> 1" "acquires t \<Longrightarrow> gs = []"
  shows "lock_after (guards t @ gs \<noteq> []) cs \<longleftrightarrow> guards t' @ gs \<noteq> []" "length (guards t' @ gs) \<le> 1"
  using assms by (auto simp: lock_step_def split: list.splits if_splits)

lemma lock_inv_step:
  assumes inv: "lock_inv (us @ t # vs) d" and K: "\<And>x. t = Begin x \<Longrightarrow> key_names_valid K" and st: "step K obj t d = (t', d')"
    and free: "acquires t \<Longrightarrow> lock_free d"
  shows "lock_inv (us @ t' # vs) d'"
proof -
  let ?gs = "concat (map guards (us @ vs))"
  have t: "planned t" "length (guards t @ ?gs) \<le> 1" "lock_free d \<longleftrightarrow> guards t @ ?gs = []"
    using inv by (auto simp: lock_inv_def)
  obtain cs where cs: "filter lock_call (trace d') = filter lock_call (trace d) @ cs" "lock_step t t' cs"
    using step_lock [OF _ t(1) st] K by blast
  have "acquires t \<Longrightarrow> ?gs = []" using lock_inv_alone [OF inv] free by simp
  note h = lock_step_held [OF cs(2) t(2) this]
  have "lock_after False (trace d') = lock_after (lock_after False (trace d)) cs"
    using cs(1) lock_after_filter [of False "trace d'"] lock_after_filter [of False "trace d"] by simp
  moreover have "lock_after False (trace d) = (guards t @ ?gs \<noteq> [])" using t(3) unfolding lock_free_def by blast
  ultimately have "lock_free d' \<longleftrightarrow> guards t' @ ?gs = []" using h(1) by (simp only: lock_free_def not_not)
  moreover have "planned t'" by (rule step_planned [OF _ t(1) st]) (rule K)
  ultimately show ?thesis using inv h(2) by (auto simp: lock_inv_def)
qed

section \<open>What a step leaves alone\<close>

text \<open>
  No step changes the length an IRP announces for its buffer; a thread without the lock leaves the queue
  alone and can empty \<open>PENDING_IRP\<close> but not fill it.
\<close>

definition leaves :: "pc \<Rightarrow> driver \<Rightarrow> driver \<Rightarrow> bool" where
  "leaves t d d' \<longleftrightarrow>
    (\<forall>j. OutputBufferLength (irps d' j) = OutputBufferLength (irps d j)) \<and>
    (guards t = [] \<longrightarrow> queue_list d' = queue_list d \<and>
      (PENDING_IRP d' = PENDING_IRP d \<or> PENDING_IRP d' = null_ptr))"

lemma leaves_same: "same_globals d d' \<Longrightarrow> leaves t d d'"
  using same_globalsD [of d d'] by (simp add: leaves_def)

lemma fills_same_globals: "fills p n d d' \<Longrightarrow> same_globals d d'"
  by (simp add: same_globals_def fillsD)

lemma begin_step_leaves:
  assumes "key_names_valid K" "input_ok x" "begin_step K obj x d = (t', d')"
  shows "same_globals d d'"
proof (cases "\<exists>major i r len. x = IrpNotify major i r len")
  case True
  then show ?thesis using assms(3)
    by (auto simp: begin_step_def same_globals_def log_call_def split: option.splits dispatch_routine.splits)
next
  case False
  obtain pl d1 where p: "plan K x d = (pl, d1)" by (cases "plan K x d")
  then show ?thesis using assms(3) quietD(1) [OF plan_quiet(1) [OF assms(1,2) p]]
    by (auto simp: begin_eq [OF False p] split: option.splits)
qed

lemma emit_step_leaves:
  assumes "event_filler lay True fill" "emit_step K lay ty fill e d = (t', d')"
  shows "same_globals d d'"
proof (cases e)
  case E_alloc
  then have "d' = snd (alloc_event K (of_nat (size_of lay)) d)"
    using assms(2) by (auto simp: emit_step_def Let_def split_beta)
  then show ?thesis by (simp add: same_globals_alloc)
next
  case (E_fill p)
  then have "d' = fill p d" using assms(2) by (simp add: emit_step_def Let_def)
  then show ?thesis by (simp add: fills_same_globals [OF event_filler.fill_fills [OF assms(1) TrueI]])
qed (use assms(2) in \<open>auto simp: emit_step_def Let_def zero_mem_def write_mem_def log_call_def same_globals_def\<close>)

lemma submit_step_leaves:
  assumes "submit_step K p sz s d = (t', d')"
  shows "leaves (Send p sz s) d d'"
proof (cases s)
  case (S_push q)
  then have "d' = snd (queue_push_locked p sz d)" using assms by (auto simp: submit_step_def split_beta)
  then show ?thesis using S_push by (simp add: leaves_def frame_simps)
qed (use assms in \<open>auto simp: submit_step_def leaves_def SpinLockGuard_acquire_def
      SpinLockGuard_drop_def Let_def take_pending_def irp_op_defs free_pool_def bump_drop_def log_call_def
      split: prod.splits if_splits\<close>)

lemma get_step_leaves:
  assumes "get_step K i g d = (t', d')"
  shows "leaves (Fetch i g) d d'"
proof (cases g)
  case (G_pop q n)
  then have "d' = snd (queue_pop_locked d)" using assms by (auto simp: get_step_def split_beta)
  then show ?thesis using G_pop by (simp add: leaves_def frame_simps)
qed (use assms in \<open>auto simp: get_step_def leaves_def SpinLockGuard_acquire_def
      SpinLockGuard_drop_def Let_def park_irp_def irp_op_defs free_pool_def bump_drop_def log_call_def
      split: prod.splits if_splits\<close>)

lemma step_leaves:
  assumes "key_names_valid K" "relies t d" "step K obj t d = (t', d')"
  shows "leaves t d d'"
proof (cases t)
  case (Begin x)
  then show ?thesis using begin_step_leaves [of K x obj d t' d'] assms by (simp add: relies_def leaves_same)
next
  case (Emit lay ty fill e)
  then show ?thesis using emit_step_leaves [of lay fill K ty e d t' d'] assms
    by (simp add: relies_def leaves_same)
next
  case (Send p sz s)
  then show ?thesis using submit_step_leaves [of K p sz s d t' d'] assms by simp
next
  case (Fetch i g)
  then show ?thesis using get_step_leaves [of K i g d t' d'] assms by simp
next
  case (Clean i c)
  then show ?thesis using assms
    by (cases c) (auto simp: leaves_def cleanup_step_def take_pending_def complete_irp_def log_call_def Let_def)
qed (use assms in \<open>auto simp: leaves_def complete_irp_def log_call_def Let_def\<close>)

lemma relies_stable:
  assumes "relies t d" "\<And>j. j \<in> set (hand t) \<Longrightarrow> OutputBufferLength (irps d' j) = OutputBufferLength (irps d j)"
    and "guards t \<noteq> [] \<Longrightarrow> queue_list d' = queue_list d \<and>
      (PENDING_IRP d' = PENDING_IRP d \<or> PENDING_IRP d' = null_ptr)"
  shows "relies t d'"
proof (cases t)
  case (Send p sz s)
  then show ?thesis using assms by (cases s) (auto simp: relies_defs)
next
  case (Fetch i g)
  then show ?thesis using assms by (cases g) (auto simp: relies_defs)
qed (use assms in \<open>auto simp: relies_def\<close>)

section \<open>The invariant of all threads together\<close>

lemma length_le_concat_map: "x \<in> set xs \<Longrightarrow> length (f x) \<le> length (concat (map f xs))"
  by (induction xs) auto

definition threads_ok :: "pc list \<Rightarrow> driver \<Rightarrow> bool" where
  "threads_ok ts d \<longleftrightarrow>
    owns None (concat (map blocks ts)) (concat (map hand ts)) (unlocked d) \<and>
    list_all (\<lambda>t. relies t d) ts \<and>
    length (concat (map guards ts)) \<le> 1 \<and>
    mon_run (filter lock_call (trace d)) mon0 = Some (lock_mon (concat (map guards ts)))"

text \<open>Then the lock is in order, and when it is free no thread is in a lock section.\<close>

lemma threads_ok_lock:
  assumes "threads_ok ts d"
  shows "lock_inv ts d"
proof -
  let ?gs = "concat (map guards ts)"
  have "mon_run (filter lock_call (trace d)) mon0 = Some (lock_mon ?gs)"
    using assms by (simp add: threads_ok_def)
  from lock_after_mon [OF this] have "lock_after False (trace d) \<longleftrightarrow> ?gs \<noteq> []"
    by (cases ?gs) (simp_all add: lock_after_filter lock_mon_def mon0_def)
  moreover have "list_all planned ts"
    using assms relies_planned by (auto simp: threads_ok_def list_all_iff)
  ultimately show ?thesis using assms by (auto simp: lock_inv_def lock_free_def threads_ok_def)
qed

lemma threads_ok_free:
  "threads_ok (us @ t # vs) d \<Longrightarrow> lock_free d \<Longrightarrow> concat (map guards (us @ vs)) = []"
  using lock_inv_alone [OF threads_ok_lock] .

lemma threads_ok_step:
  assumes inv: "threads_ok (us @ t # vs) d" and K: "shared_kernel_ok K" "wired obj"
    and timely: "\<not> late_mark t d" and st: "step K obj t d = (t', d')"
    and free: "acquires t \<Longrightarrow> concat (map guards (us @ vs)) = []"
  shows "threads_ok (us @ t' # vs) d'"
proof -
  let ?bs = "concat (map blocks (us @ vs))" and ?iq = "concat (map hand (us @ vs))"
    and ?gs = "concat (map guards (us @ vs))"
  have K': "key_names_valid K" using K(1) by (simp add: shared_kernel_ok_def)
  have rt: "relies t d" using inv by (simp add: threads_ok_def)
  have own: "owns None (blocks t @ ?bs) (hand t @ ?iq) (unlocked d)"
    using inv [unfolded threads_ok_def, THEN conjunct1] by (rule owns_perm) simp_all
  note next_own = step_owns [OF own rt K timely st]
  have "owns None (concat (map blocks (us @ t' # vs))) (concat (map hand (us @ t' # vs))) (unlocked d')"
    using next_own(1) by (rule owns_perm) simp_all
  moreover have gs: "length (guards t @ ?gs) \<le> 1"
    using inv by (simp add: threads_ok_def)
  note resp = step_leaves [OF K' rt st]
  have "relies u d'" if "u \<in> set (us @ vs)" for u
  proof (rule relies_stable)
    show "relies u d" using inv that by (auto simp: threads_ok_def list_all_iff)
    show "OutputBufferLength (irps d' j) = OutputBufferLength (irps d j)" for j
      using resp by (simp add: leaves_def)
    assume "guards u \<noteq> []"
    moreover have "length (guards u) \<le> length ?gs" using that by (rule length_le_concat_map)
    moreover have "length (guards t) + length ?gs \<le> 1" using gs by (simp only: length_append)
    ultimately have "guards t = []" by (simp only: length_greater_0_conv [symmetric] length_0_conv [symmetric])
    then show "queue_list d' = queue_list d \<and> (PENDING_IRP d' = PENDING_IRP d \<or> PENDING_IRP d' = null_ptr)"
      using resp by (simp add: leaves_def)
  qed
  then have "list_all (\<lambda>t. relies t d') (us @ t' # vs)"
    using next_own(2) by (auto simp: list_all_iff)
  moreover have perm: "lock_mon (concat (map guards (us @ u # vs))) = lock_mon (guards u @ ?gs)"
    "length (concat (map guards (us @ u # vs))) = length (guards u @ ?gs)" if "length (guards u @ ?gs) \<le> 1" for u
    using that lock_mon_middle [of "guards u" "concat (map guards us)" "concat (map guards vs)"] by simp_all
  obtain cs where cs: "filter lock_call (trace d') = filter lock_call (trace d) @ cs" "lock_step t t' cs"
    using step_lock [OF K' relies_planned [OF rt] st] by blast
  note lk = lock_step_mon [OF cs(2) gs free]
  have "mon_run (filter lock_call (trace d)) mon0 = Some (lock_mon (guards t @ ?gs))"
    using inv perm(1) [OF gs] by (simp add: threads_ok_def)
  then have "mon_run (filter lock_call (trace d')) mon0 = Some (lock_mon (guards t' @ ?gs))"
    using lk(1) by (simp add: cs(1) mon_run_append)
  ultimately show ?thesis
    using lk(2) perm [OF lk(2)] unfolding threads_ok_def by simp
qed

section \<open>Runs of threads\<close>

text \<open>
  \<open>crun K obj ts d ls ts' d'\<close>: from the threads \<open>ts\<close> in state \<open>d\<close>, the steps \<open>ls\<close> (each the program counter and
  the state it was taken in) and any number of arrivals lead to \<open>ts'\<close> and \<open>d'\<close>. The I/O manager does not
  hand out an IRP that is still in use. Any thread that has not stopped may take the next step, except that a
  thread about to take the spinlock waits while the lock is held, be it by itself.
\<close>

inductive crun ::
  "kernel \<Rightarrow> driver_object \<Rightarrow> pc list \<Rightarrow> driver \<Rightarrow> (pc \<times> driver) list \<Rightarrow> pc list \<Rightarrow> driver \<Rightarrow> bool"
  for K :: kernel and obj :: driver_object and ts :: "pc list" and d :: driver where
  start: "crun K obj ts d [] ts d"
| arrival: "crun K obj ts d ls ts' d' \<Longrightarrow> valid_input x d' \<Longrightarrow>
    set (input_irps x) \<inter> set (concat (map hand ts')) = {} \<Longrightarrow>
    crun K obj ts d ls (ts' @ [Begin x]) (arrives x d')"
| thread: "crun K obj ts d ls (us @ t # vs) d' \<Longrightarrow> \<not> stopped t \<Longrightarrow>
    (acquires t \<Longrightarrow> lock_free d') \<Longrightarrow> step K obj t d' = (t', d'') \<Longrightarrow>
    crun K obj ts d (ls @ [(t, d')]) (us @ t' # vs) d''"

lemma threads_ok_arrival:
  assumes inv: "threads_ok ts d" and x: "valid_input x d"
    and new: "set (input_irps x) \<inter> set (concat (map hand ts)) = {}"
  shows "threads_ok (ts @ [Begin x]) (arrives x d)"
proof -
  have own: "owns None (concat (map blocks ts)) (concat (map hand ts)) (unlocked d)"
    using inv by (simp add: threads_ok_def)
  have rel: "relies u (arrives x d)" if "u \<in> set ts" for u
  proof (rule relies_stable)
    show "relies u d" using inv that by (auto simp: threads_ok_def list_all_iff)
    show "OutputBufferLength (irps (arrives x d) j) = OutputBufferLength (irps d j)" if "j \<in> set (hand u)" for j
      using new that \<open>u \<in> set ts\<close>
      by (cases x) (auto simp: arrives_def irp_arrives_def input_irps_def)
  qed (auto simp: arrives_def irp_arrives_def split: input.split)
  have "owns None (concat (map blocks ts)) (input_irps x @ concat (map hand ts)) (unlocked (arrives x d))"
  proof (cases x)
    case (IrpNotify major i r len)
    have "owns None (concat (map blocks ts)) (i # concat (map hand ts))
        (log_call (IrpArrive i len) ((unlocked d)\<lparr>irps := (irps (unlocked d))(i := r)\<rparr>))"
      using own x new IrpNotify by (intro owns_irp_arrive) (auto simp: valid_input_def input_irps_def)
    then show ?thesis using IrpNotify by (simp add: arrives_def irp_arrives_def input_irps_def)
  qed (use own in \<open>simp_all add: arrives_def input_irps_def\<close>)
  then have "owns None (concat (map blocks (ts @ [Begin x]))) (concat (map hand (ts @ [Begin x])))
      (unlocked (arrives x d))"
    by (rule owns_perm) simp_all
  moreover have "filter lock_call (trace (arrives x d)) = filter lock_call (trace d)"
    by (cases x) (simp_all add: arrives_def irp_arrives_def log_call_def)
  moreover have "relies (Begin x) (arrives x d)" using x by (simp add: relies_def valid_input_ok)
  ultimately show ?thesis using inv rel by (simp add: threads_ok_def list_all_iff)
qed

definition timely :: "(pc \<times> driver) list \<Rightarrow> bool" where
  "timely ls \<longleftrightarrow> list_all (\<lambda>(t, d). \<not> late_mark t d) ls"

lemma timely_snoc [simp]: "timely (ls @ [(t, d)]) \<longleftrightarrow> timely ls \<and> \<not> late_mark t d"
  by (simp add: timely_def)

lemma crun_ok:
  assumes "crun K obj ts d ls ts' d'" "threads_ok ts d" "shared_kernel_ok K" "wired obj" "timely ls"
  shows "threads_ok ts' d'"
  using assms
proof (induction rule: crun.induct)
  case start
  then show ?case by simp
next
  case (arrival ls ts' d' x)
  then show ?case using threads_ok_arrival by blast
next
  case (thread ls us t vs d' t' d'')
  then have "threads_ok (us @ t # vs) d'" "\<not> late_mark t d'" by simp_all
  then show ?case
    using threads_ok_step [OF _ thread.prems(2,3) _ thread.hyps(4)] threads_ok_free thread.hyps(3) by blast
qed

lemma threads_ok_idle: "threads_ok [] d \<longleftrightarrow> owns None [] [] (unlocked d) \<and>
    mon_run (filter lock_call (trace d)) mon0 = Some mon0"
  by (simp add: threads_ok_def lock_mon_def mon0_def)

lemma mon_step_lock_only:
  assumes "mon_step c m = Some m'"
  shows "if lock_call c then mon_step c (mon0\<lparr>m_lock := m_lock m\<rparr>) = Some (mon0\<lparr>m_lock := m_lock m'\<rparr>)
    else m_lock m' = m_lock m"
  using assms by (cases c) (auto simp: lock_call_def guarded_def split: if_splits option.splits)

lemma mon_run_lock_only:
  "mon_run h m = Some m' \<Longrightarrow>
   mon_run (filter lock_call h) (mon0\<lparr>m_lock := m_lock m\<rparr>) = Some (mon0\<lparr>m_lock := m_lock m'\<rparr>)"
proof (induction h arbitrary: m)
  case Nil
  then show ?case by simp
next
  case (Cons c h)
  then obtain m1 where s: "mon_step c m = Some m1" and r: "mon_run h m1 = Some m'"
    by (auto split: option.splits)
  from Cons.IH [OF r] mon_step_lock_only [OF s] show ?case by (simp split: if_splits)
qed

lemma driver_ok_threads:
  assumes "driver_ok d"
  shows "threads_ok [] d"
proof -
  obtain m where m: "mon_of d = Some m" "m_lock m = None"
    using assms unfolding driver_ok_def by (rule ownsE)
  have "mon0\<lparr>m_lock := m_lock mon0\<rparr> = mon0" "mon0\<lparr>m_lock := None\<rparr> = mon0" by (simp_all add: mon0_def)
  then have "mon_run (filter lock_call (trace d)) mon0 = Some mon0"
    using mon_run_lock_only [of "trace d" mon0 m] m by (simp add: mon_of_def)
  then show ?thesis using assms owns_unlocked by (auto simp: threads_ok_idle driver_ok_def)
qed

lemma crun_trans:
  assumes "crun K obj ts1 d1 ls ts2 d2" "crun K obj ts2 d2 ls' ts3 d3"
  shows "crun K obj ts1 d1 (ls @ ls') ts3 d3"
  using assms(2,1)
proof (induction rule: crun.induct)
  case start
  then show ?case by simp
next
  case (arrival ls' ts' d' x)
  then show ?case by (intro crun.arrival) simp_all
next
  case (thread ls' us t vs d' t' d'')
  then have "crun K obj ts1 d1 ((ls @ ls') @ [(t, d')]) (us @ t' # vs) d''" by (intro crun.thread) simp_all
  then show ?case by simp
qed

section \<open>Progress\<close>

text \<open>Arrivals add threads, steps use up their ranks.\<close>

lemma crun_bound:
  assumes "crun K obj ts d ls ts' d'"
  shows "length ts \<le> length ts'"
    "length ls + sum_list (map rank ts') \<le> sum_list (map rank ts) + 15 * (length ts' - length ts)"
proof -
  have "length ts \<le> length ts' \<and>
      length ls + sum_list (map rank ts') \<le> sum_list (map rank ts) + 15 * (length ts' - length ts)"
    using assms
  proof (induction rule: crun.induct)
    case (thread ls us t vs d' t' d'')
    then have "rank t' < rank t" using step_rank [of t K obj d'] by simp
    then show ?case using thread.IH by simp
  qed (auto simp: Suc_diff_le)
  then show "length ts \<le> length ts'"
    "length ls + sum_list (map rank ts') \<le> sum_list (map rank ts) + 15 * (length ts' - length ts)" by simp_all
qed

text \<open>The lock and the threads agree all along, whatever the order.\<close>

lemma crun_lock:
  assumes "crun K obj ts d ls ts' d'" "lock_inv ts d" "key_names_valid K"
  shows "lock_inv ts' d'"
  using assms
proof (induction rule: crun.induct)
  case (arrival ls ts' d' x)
  have "lock_free (arrives x d') = lock_free d'"
    by (cases x) (simp_all add: arrives_def irp_arrives_def log_call_def lock_free_def)
  moreover have "planned (Begin x)" using valid_input_ok [OF arrival.hyps(2)] by (simp add: planned_def)
  ultimately show ?case using arrival by (simp add: lock_inv_def)
next
  case (thread ls us t vs d' t' d'')
  then show ?case using lock_inv_step [of us t vs d' K obj t' d''] by blast
qed simp

text \<open>
  Some thread can always go on: if the lock is held, the thread that has it, which is not waiting for it; and
  if it is free, any thread.
\<close>

lemma some_thread_enabled:
  assumes inv: "lock_inv ts d" and t: "t \<in> set ts" "\<not> stopped t"
  shows "\<exists>us u vs. ts = us @ u # vs \<and> \<not> stopped u \<and> (acquires u \<longrightarrow> lock_free d)"
proof (cases "lock_free d")
  case True
  obtain us vs where "ts = us @ t # vs" using t(1) by (meson split_list)
  with True t(2) show ?thesis by blast
next
  case False
  then have "concat (map guards ts) \<noteq> []" using inv by (simp add: lock_inv_def)
  then obtain u where u: "u \<in> set ts" "guards u \<noteq> []" by auto
  then obtain us vs where "ts = us @ u # vs" by (meson split_list)
  moreover have "\<not> acquires u" "\<not> stopped u" using u(2) acquires_guards by (auto, cases u) simp_all
  ultimately show ?thesis by blast
qed

lemma crun_one:
  assumes "step K obj t d = (t', d')" "\<not> stopped t" "acquires t \<Longrightarrow> lock_free d"
  shows "crun K obj (us @ t # vs) d [(t, d)] (us @ t' # vs) d'"
  using crun.thread [OF crun.start assms(2) _ assms(1)] assms(3) by simp

lemma crun_completes:
  assumes "lock_inv ts d" "key_names_valid K"
  shows "\<exists>ls ts' d'. crun K obj ts d ls ts' d' \<and> length ts' = length ts \<and> list_all stopped ts'"
  using assms(1)
proof (induction "sum_list (map rank ts)" arbitrary: ts d rule: less_induct)
  case less
  show ?case
  proof (cases "list_all stopped ts")
    case True
    then show ?thesis using crun.start by blast
  next
    case False
    then obtain u where "u \<in> set ts" "\<not> stopped u" by (auto simp: list_all_iff)
    then obtain us t vs where t: "ts = us @ t # vs" "\<not> stopped t" "acquires t \<Longrightarrow> lock_free d"
      using some_thread_enabled [OF less.prems] by metis
    obtain t' d1 where st: "step K obj t d = (t', d1)" by (cases "step K obj t d")
    have "lock_inv (us @ t' # vs) d1"
      using lock_inv_step [OF _ assms(2) st t(3)] less.prems t(1) by simp
    moreover have "rank t' < rank t" using step_rank [OF t(2), of K obj d] st by simp
    ultimately obtain ls ts' d' where r: "crun K obj (us @ t' # vs) d1 ls ts' d'"
      "length ts' = length (us @ t' # vs)" "list_all stopped ts'"
      using less.hyps [of "us @ t' # vs" d1] t(1) by auto
    from crun_trans [OF crun_one [OF st t(2,3)] r(1)] show ?thesis using r(2,3) t(1) by auto
  qed
qed

text \<open>A thread that is left alone while nobody else has the lock does the whole routine.\<close>

lemma crun_alone:
  assumes inv: "lock_inv (us @ t # vs) d" and free: "concat (map guards (us @ vs)) = []"
    and P: "P t" "\<And>t d. P t \<Longrightarrow> P (fst (step K obj t d))" "\<And>x. \<not> P (Begin x)"
  shows "\<exists>ls t'. crun K obj (us @ t # vs) d ls (us @ t' # vs) (run_alone K obj t d) \<and> stopped t' \<and> P t' \<and>
    list_all (P \<circ> fst) ls"
  using P(1) inv
proof (induction "rank t" arbitrary: t d rule: less_induct)
  case less
  show ?case
  proof (cases "stopped t")
    case True
    then have "run_alone K obj t d = d" by (cases t) simp_all
    then have "crun K obj (us @ t # vs) d [] (us @ t # vs) (run_alone K obj t d)"
      using crun.start by simp
    then show ?thesis using True less.prems(1) by (intro exI [of _ "[]"] exI [of _ t]) simp
  next
    case False
    obtain t' d1 where st: "step K obj t d = (t', d1)" by (cases "step K obj t d")
    have lk: "acquires t \<Longrightarrow> lock_free d" using less.prems(2) free acquires_guards by (simp add: lock_inv_def)
    note one = crun_one [OF st False lk, of us vs]
    have rk: "rank t' < rank t" using step_rank [OF False, of K obj d] st by simp
    have inv': "lock_inv (us @ t' # vs) d1" by (rule lock_inv_step [OF less.prems(2) _ st lk]) (use P(3) less.prems(1) in auto)
    obtain ls u where ls: "crun K obj (us @ t' # vs) d1 ls (us @ u # vs) (run_alone K obj t' d1)"
      "stopped u" "P u" "list_all (P \<circ> fst) ls"
      using less.hyps [OF rk _ inv'] P(2) [OF less.prems(1), of d] st by auto
    from crun_trans [OF one ls(1)] have "crun K obj (us @ t # vs) d ((t, d) # ls) (us @ u # vs)
        (run_alone K obj t d)"
      using False st by (simp add: run_alone_step)
    moreover have "list_all (P \<circ> fst) ((t, d) # ls)" using ls(4) less.prems(1) by simp
    ultimately show ?thesis using ls(2,3) by blast
  qed
qed

end
