(* ===== verification/Edr_Linear.thy ===== *)
theory Edr_Linear
  imports Edr_Schedule
begin

text \<open>
  Interleaved threads and the abstract channel. Each operation of a thread takes effect on the channel in
  one of its steps: a submission when it takes the parked request or pushes, a request when it pops or
  parks, a cleanup when it takes the parked request. What is left after that step is promised: the reply
  the thread is going to give and the loss it is going to count. With promises counted in, every run of
  threads is a run of the channel, whatever the interleaving.
\<close>

section \<open>The channel without its counter\<close>

definition core :: "channel \<Rightarrow> u8 list list \<times> (ptr \<times> u32) option" where
  "core c = (ch_queue c, ch_waiting c)"

lemma chan_step_core:
  assumes "core c = core c'"
  shows "core (fst (chan_step x c)) = core (fst (chan_step x c'))" "snd (chan_step x c) = snd (chan_step x c')"
    "x \<noteq> Stamp \<Longrightarrow> ch_drops (fst (chan_step x c)) - ch_drops c = ch_drops (fst (chan_step x c')) - ch_drops c'"
  using assms by (cases x; auto simp: core_def chan_submit_def chan_get_def chan_cleanup_def
      split: option.splits list.splits)+

text \<open>How many events an operation loses, the allocations that failed included.\<close>

definition lost_step :: "chan_op \<Rightarrow> channel \<Rightarrow> nat" where
  "lost_step x c = (if x = Stamp then 0 else unat (ch_drops (fst (chan_step x c)) - ch_drops c))"

fun lost :: "chan_op list \<Rightarrow> channel \<Rightarrow> nat" where
  "lost [] c = 0"
| "lost (x # xs) c = lost_step x c + lost xs (fst (chan_step x c))"

lemma lost_step_core: "core c = core c' \<Longrightarrow> lost_step x c = lost_step x c'"
proof (cases "x = Stamp")
  case False
  then show "core c = core c' \<Longrightarrow> lost_step x c = lost_step x c'"
    using chan_step_core(3) [of c c' x] by (simp add: lost_step_def)
qed (simp add: lost_step_def)

lemma chan_run_core:
  assumes "core c = core c'"
  shows "core (fst (chan_run xs c)) = core (fst (chan_run xs c'))" "snd (chan_run xs c) = snd (chan_run xs c')"
    "lost xs c = lost xs c'"
proof -
  have "core (fst (chan_run xs c)) = core (fst (chan_run xs c')) \<and> snd (chan_run xs c) = snd (chan_run xs c') \<and>
      lost xs c = lost xs c'"
    using assms
  proof (induction xs arbitrary: c c')
    case Nil
    then show ?case by simp
  next
    case (Cons x xs)
    from Cons.IH [OF chan_step_core(1) [OF Cons.prems, of x]] chan_step_core(2) [OF Cons.prems, of x]
      lost_step_core [OF Cons.prems, of x]
    show ?case by (simp add: split_beta Let_def)
  qed
  then show "core (fst (chan_run xs c)) = core (fst (chan_run xs c'))" "snd (chan_run xs c) = snd (chan_run xs c')"
    "lost xs c = lost xs c'" by simp_all
qed

lemma lost_append: "lost (xs @ ys) c = lost xs c + lost ys (fst (chan_run xs c))"
  by (induction xs arbitrary: c) (simp_all add: split_beta Let_def)

text \<open>The losses are what the channel counts, and the failed allocations.\<close>

lemma lost_counted: "lost xs c = counted xs c + length (filter (\<lambda>x. x = Lose) xs)"
  by (induction xs arbitrary: c) (auto simp: lost_step_def)

section \<open>Where an operation takes effect\<close>

definition event_bytes :: "ptr \<Rightarrow> u32 \<Rightarrow> driver \<Rightarrow> u8 list" where
  "event_bytes p sz d = read_at 0 (unat sz) (heap d p)"

definition submit_lin :: "ptr \<Rightarrow> u32 \<Rightarrow> submit_pc \<Rightarrow> driver \<Rightarrow> chan_op list" where
  "submit_lin p sz s d =
    (case s of
       S_take q \<Rightarrow> if PENDING_IRP d = null_ptr then [] else [Submit (event_bytes p sz d)]
     | S_push q \<Rightarrow> [Submit (event_bytes p sz d)]
     | _ \<Rightarrow> [])"

definition get_lin :: "ptr \<Rightarrow> get_pc \<Rightarrow> driver \<Rightarrow> chan_op list" where
  "get_lin i g d =
    (case g of
       G_stack \<Rightarrow>
         if IoControlCode (irps d i) = IOCTL_WEDR_GET_EVENT then []
         else [Refuse i STATUS_INVALID_DEVICE_REQUEST]
     | G_pop q n \<Rightarrow> if queue_list d = [] then [] else [Get i n]
     | G_park q n \<Rightarrow> [Get i n]
     | _ \<Rightarrow> [])"

definition emit_lin :: "kernel \<Rightarrow> layout \<Rightarrow> emit_pc \<Rightarrow> driver \<Rightarrow> chan_op list" where
  "emit_lin K lay e d =
    (case e of
       E_alloc \<Rightarrow> if fst (alloc_event K (of_nat (size_of lay)) d) = null_ptr then [Lose] else []
     | E_drops p \<Rightarrow> [Stamp]
     | _ \<Rightarrow> [])"

definition begin_lin :: "driver_object \<Rightarrow> input \<Rightarrow> chan_op list" where
  "begin_lin obj x =
    (case x of
       IrpNotify major i r len \<Rightarrow>
         (case MajorFunction obj ! major of
            Some Dispatch_invalid \<Rightarrow> [Refuse i STATUS_INVALID_DEVICE_REQUEST]
          | Some Dispatch_create_close \<Rightarrow> [Refuse i STATUS_SUCCESS]
          | _ \<Rightarrow> [])
     | _ \<Rightarrow> [])"

definition lin :: "kernel \<Rightarrow> driver_object \<Rightarrow> pc \<Rightarrow> driver \<Rightarrow> chan_op list" where
  "lin K obj t d =
    (case t of
       Begin x \<Rightarrow> begin_lin obj x
     | Emit lay ty fill e \<Rightarrow> emit_lin K lay e d
     | Send p sz s \<Rightarrow> submit_lin p sz s d
     | Fetch i g \<Rightarrow> get_lin i g d
     | Clean i c \<Rightarrow> (case c of C_take \<Rightarrow> [Cleanup i] | C_cancel j \<Rightarrow> [])
     | _ \<Rightarrow> [])"

text \<open>The reply of a request that is completed with the buffer it has.\<close>

definition closing :: "ptr \<Rightarrow> u32 \<Rightarrow> u64 \<Rightarrow> driver \<Rightarrow> reply" where
  "closing i status info d =
    (i, status, info, if status = STATUS_SUCCESS then read_at 0 (unat info) (SystemBuffer (irps d i)) else [])"

definition too_small :: "ptr \<Rightarrow> u32 \<Rightarrow> reply" where
  "too_small i sz = (i, STATUS_BUFFER_TOO_SMALL, ucast sz, [])"

definition submit_promise :: "ptr \<Rightarrow> u32 \<Rightarrow> submit_pc \<Rightarrow> driver \<Rightarrow> reply list" where
  "submit_promise p sz s d =
    (case s of
       S_stack q i \<Rightarrow>
         [if sz \<le> OutputBufferLength (irps d i) then (i, STATUS_SUCCESS, ucast sz, event_bytes p sz d)
          else too_small i sz]
     | S_copy q i \<Rightarrow> [(i, STATUS_SUCCESS, ucast sz, event_bytes p sz d)]
     | S_drop q i fits \<Rightarrow> [if fits then closing i STATUS_SUCCESS (ucast sz) d else too_small i sz]
     | S_free i fits \<Rightarrow> [if fits then closing i STATUS_SUCCESS (ucast sz) d else too_small i sz]
     | S_count i \<Rightarrow> [too_small i sz]
     | _ \<Rightarrow> [])"

definition get_promise :: "ptr \<Rightarrow> get_pc \<Rightarrow> driver \<Rightarrow> reply list" where
  "get_promise i g d =
    (case g of
       G_drop q n s \<Rightarrow>
         [if n < slot_size s then too_small i (slot_size s)
          else (i, STATUS_SUCCESS, ucast (slot_size s), slot_bytes d s)]
     | G_copy s \<Rightarrow> [(i, STATUS_SUCCESS, ucast (slot_size s), slot_bytes d s)]
     | G_free s fits \<Rightarrow>
         [if fits then closing i STATUS_SUCCESS (ucast (slot_size s)) d else too_small i (slot_size s)]
     | G_count s \<Rightarrow> [too_small i (slot_size s)]
     | G_leave q parked \<Rightarrow> (if parked then [] else [(i, STATUS_UNSUCCESSFUL, 0, [])])
     | _ \<Rightarrow> [])"

definition promise :: "pc \<Rightarrow> driver \<Rightarrow> reply list" where
  "promise t d =
    (case t of
       Send p sz s \<Rightarrow> submit_promise p sz s d
     | Fetch i g \<Rightarrow> get_promise i g d
     | Clean i (C_cancel j) \<Rightarrow> [(j, STATUS_CANCELLED, 0, []), (i, STATUS_SUCCESS, 0, [])]
     | Complete i status info \<Rightarrow> [closing i status info d]
     | _ \<Rightarrow> [])"

text \<open>Losses that have happened and are not in \<open>DROP_COUNT\<close> yet.\<close>

definition uncounted :: "pc \<Rightarrow> driver \<Rightarrow> nat" where
  "uncounted t d =
    (case t of
       Send p sz (S_stack q i) \<Rightarrow> if sz \<le> OutputBufferLength (irps d i) then 0 else 1
     | Send p sz (S_drop q i fits) \<Rightarrow> if fits then 0 else 1
     | Send p sz (S_free i fits) \<Rightarrow> if fits then 0 else 1
     | Send p sz (S_count i) \<Rightarrow> 1
     | Fetch i (G_drop q n s) \<Rightarrow> if n < slot_size s then 1 else 0
     | Fetch i (G_free s fits) \<Rightarrow> if fits then 0 else 1
     | Fetch i (G_count s) \<Rightarrow> 1
     | _ \<Rightarrow> 0)"

text \<open>The losses a step moves into a header.\<close>

definition stamped :: "pc \<Rightarrow> driver \<Rightarrow> u32" where
  "stamped t d = (case t of Emit lay ty fill (E_drops p) \<Rightarrow> DROP_COUNT d | _ \<Rightarrow> 0)"

definition simulated :: "chan_op list \<Rightarrow> pc \<Rightarrow> driver \<Rightarrow> pc \<Rightarrow> driver \<Rightarrow> bool" where
  "simulated ops t d t' d' \<longleftrightarrow>
    core (chan_of d') = core (fst (chan_run ops (chan_of d))) \<and>
    mset (replies (trace d')) + mset (promise t' d') =
      mset (replies (trace d)) + mset (promise t d) + mset (snd (chan_run ops (chan_of d))) \<and>
    DROP_COUNT d' + of_nat (uncounted t' d') + stamped t d =
      DROP_COUNT d + of_nat (uncounted t d) + of_nat (lost ops (chan_of d))"

lemmas promise_defs = promise_def submit_promise_def get_promise_def closing_def too_small_def event_bytes_def
lemmas lin_defs = lin_def submit_lin_def get_lin_def emit_lin_def begin_lin_def event_bytes_def

section \<open>Each step\<close>

lemma core_frame:
  assumes "queue_list d' = queue_list d" "\<And>s. s \<in> set (queue_list d) \<Longrightarrow> heap d' (data s) = heap d (data s)"
    and "PENDING_IRP d' = PENDING_IRP d"
    and "OutputBufferLength (irps d' (PENDING_IRP d)) = OutputBufferLength (irps d (PENDING_IRP d))"
  shows "core (chan_of d') = core (chan_of d)"
  using assms by (auto simp: core_def chan_of_def slot_bytes_def)

lemma own_not_queued:
  assumes "owns lk ((p, n) # bs) iq d"
  shows "s \<in> set (queue_list d) \<Longrightarrow> data s \<noteq> p"
  using assms by (rule ownsE) (force simp: blocks_owned_def queue_blocks_def slot_block_def)

lemma alloc_event_memory:
  assumes "alloc_event K sz d = (p, d')"
  shows "irps d' = irps d" "q \<noteq> p \<or> p = null_ptr \<Longrightarrow> heap d' q = heap d q"
  using assms by (auto simp: alloc_event_def Let_def log_call_def bump_drop_def split: if_splits)

lemma alloc_step_simulated:
  assumes own': "owns None (blocks t' @ bs) (hand t' @ iq) (unlocked d')"
    and st: "emit_step K lay ty fill E_alloc d = (t', d')"
  shows "simulated (emit_lin K lay E_alloc d) (Emit lay ty fill E_alloc) d t' d'"
proof -
  obtain p d1 where a: "alloc_event K (of_nat (size_of lay)) d = (p, d1)"
    by (cases "alloc_event K (of_nat (size_of lay)) d")
  have st': "t' = (if p = null_ptr then if oom_panics K d then Hung else Done else Emit lay ty fill (E_zero p))"
    "d' = d1"
    using st a by (auto simp: emit_step_def Let_def)
  have tr: "replies (trace d1) = replies (trace d)"
    using trace_alloc_event [of K "of_nat (size_of lay)" d] a by (simp add: call_reply_def)
  note same = same_globals_alloc [of d K "of_nat (size_of lay)", unfolded a snd_conv]
  show ?thesis
  proof (cases "p = null_ptr")
    case True
    then have "simulates [Lose] d d1"
      using alloc_event_null_simulates [of K "of_nat (size_of lay)" d] a by simp
    then show ?thesis using True st' a tr
      by (simp add: simulated_def simulates_def emit_lin_def promise_def uncounted_def stamped_def lost_step_def)
        (simp add: chan_of_def)
  next
    case False
    have "heap d1 q = heap d q" if "q \<noteq> p" for q
      using alloc_event_memory(2) [OF a] that by blast
    moreover have "data s \<noteq> p" if "s \<in> set (queue_list d1)" for s
      using own' st' False that own_not_queued [of None p "size_of lay" bs "hand t' @ iq" "unlocked d1" s] by simp
    ultimately have "core (chan_of d1) = core (chan_of d)"
      using same_globalsD [OF same] by (intro core_frame) auto
    moreover have "DROP_COUNT d1 = DROP_COUNT d"
      using alloc_event_counters [of K "of_nat (size_of lay)" d] a False by simp
    ultimately show ?thesis using False st' a tr
      by (simp add: simulated_def emit_lin_def promise_def uncounted_def stamped_def)
  qed
qed

lemma fill_step_simulated:
  assumes own: "owns None ((p, size_of lay) # bs) iq (unlocked d)" and f: "event_filler lay True fill"
    and st: "emit_step K lay ty fill (E_fill p) d = (t', d')"
  shows "simulated (emit_lin K lay (E_fill p) d) (Emit lay ty fill (E_fill p)) d t' d'"
proof -
  have st': "t' = Send p (of_nat (size_of lay)) S_acquire" "d' = fill p d"
    using st by (simp_all add: emit_step_def Let_def)
  have fl: "fills p (size_of lay) d (fill p d)" by (rule event_filler.fill_fills [OF f TrueI])
  obtain cs where "trace (fill p d) = trace d @ cs" "list_all fill_call cs" using fl by (rule fills_trace)
  then have "replies (trace (fill p d)) = replies (trace d)" by (simp add: replies_fill_calls)
  moreover have "core (chan_of (fill p d)) = core (chan_of d)"
    using own own_not_queued [of None p "size_of lay" bs iq "unlocked d"] fillsD(16) [OF fl]
      same_globalsD [OF fills_same_globals [OF fl]]
    by (intro core_frame) auto
  ultimately show ?thesis using st' fillsD(5) [OF fl]
    by (simp add: simulated_def emit_lin_def promise_def submit_promise_def uncounted_def stamped_def)
qed

lemma emit_step_simulated:
  assumes own: "owns None (emit_blocks (size_of lay) e @ bs) iq (unlocked d)"
    and own': "owns None (blocks t' @ bs) (hand t' @ iq) (unlocked d')"
    and f: "event_filler lay True fill" and st: "emit_step K lay ty fill e d = (t', d')"
  shows "simulated (emit_lin K lay e d) (Emit lay ty fill e) d t' d'"
proof (cases e)
  case E_alloc
  then show ?thesis using alloc_step_simulated [OF own'] st by simp
next
  case (E_fill p)
  then show ?thesis using fill_step_simulated [OF _ f] own st by simp
next
  case (E_zero p)
  have "core (chan_of (zero_mem p n d)) = core (chan_of d)" for n
    using own E_zero own_not_queued [of None p "size_of lay" bs iq "unlocked d"]
    by (intro core_frame) (auto simp: zero_mem_def log_call_def)
  then show ?thesis using st E_zero
    by (auto simp: simulated_def emit_step_def Let_def emit_lin_def promise_def uncounted_def stamped_def)
      (simp_all add: zero_mem_def log_call_def call_reply_def)
next
  case (E_header p h)
  have "core (chan_of (write_mem p n b d)) = core (chan_of d)" for n b
    using own E_header own_not_queued [of None p "size_of lay" bs iq "unlocked d"]
    by (intro core_frame) (auto simp: write_mem_def log_call_def)
  then show ?thesis using st E_header
    by (auto simp: simulated_def emit_step_def Let_def emit_lin_def promise_def uncounted_def stamped_def)
      (simp_all add: write_mem_def log_call_def call_reply_def)
next
  case (E_drops p)
  then show ?thesis using st
    by (auto simp: simulated_def emit_step_def Let_def emit_lin_def promise_def uncounted_def stamped_def
        lost_step_def core_def chan_of_def slot_bytes_def)
next
  case (E_truncs p ts k)
  then show ?thesis using st
    by (auto simp: simulated_def emit_step_def Let_def emit_lin_def promise_def uncounted_def stamped_def
        core_def chan_of_def slot_bytes_def)
qed

lemmas ledger_defs = simulated_def promise_defs uncounted_def stamped_def

lemma core_eq [simp]:
  "core (chan_of (log_call c d)) = core (chan_of d)" "core (chan_of (bump_drop d)) = core (chan_of d)"
  "core (chan_of (free_pool p d)) = core (chan_of d)"
  "core (chan_of (copy_to_system_buffer i p n d)) = core (chan_of d)"
  "core (chan_of (mark_irp_pending i d)) = core (chan_of d)"
  "core (chan_of (snd (complete_irp i status info d))) = core (chan_of d)"
  by (rule core_frame; simp add: irp_op_defs free_pool_def log_call_def bump_drop_def Let_def)+

lemma push_step_simulated:
  assumes ring: "ring_ok d" and r: "submit_ok sz (S_push q) d" and st: "submit_step K p sz (S_push q) d = (t', d')"
  shows "simulated (submit_lin p sz (S_push q) d) (Send p sz (S_push q)) d t' d'"
proof -
  have none: "PENDING_IRP d = null_ptr" using r by (simp add: submit_ok_def)
  let ?d = "snd (queue_push_locked p sz d)"
  have st': "t' = Send p sz (S_leave q)" "d' = ?d" using st by (auto simp: submit_step_def split_beta)
  have heap: "heap ?d = heap d" by (simp add: frame_simps)
  have "chan_of ?d = fst (chan_submit (event_bytes p sz d) (chan_of d))"
    using none by (simp add: chan_of_def chan_submit_def push_queue_list [OF ring] slot_bytes_frame [OF heap]
        frame_simps map_tl) (simp add: slot_bytes_def event_bytes_def)
  moreover have "replies (trace ?d) = replies (trace d)" by (simp add: trace_push call_reply_def)
  moreover have "snd (chan_submit (event_bytes p sz d) (chan_of d)) = []"
    using none by (simp add: chan_submit_def chan_of_def)
  moreover have "DROP_COUNT ?d = DROP_COUNT d + of_nat (lost_step (Submit (event_bytes p sz d)) (chan_of d))"
    using none by (simp add: frame_simps lost_step_def chan_submit_def chan_of_def)
  ultimately show ?thesis using st'
    by (simp add: simulated_def submit_lin_def promise_def submit_promise_def uncounted_def stamped_def split_beta)
qed

lemma submit_step_simulated:
  assumes own: "owns None (submit_blocks (p, unat sz) s @ bs) (submit_irps s @ iq) (unlocked d)"
    and r: "submit_ok sz s d" and st: "submit_step K p sz s d = (t', d')"
  shows "simulated (submit_lin p sz s d) (Send p sz s) d t' d'"
proof (cases s)
  case (S_take q)
  show ?thesis
  proof (cases "PENDING_IRP d = null_ptr")
    case True
    then show ?thesis using st S_take
      by (auto simp: ledger_defs submit_lin_def submit_step_def take_pending_none)
  next
    case False
    then show ?thesis using st S_take
      by (auto simp: ledger_defs submit_lin_def submit_step_def take_pending_def chan_submit_def
          lost_step_def core_def chan_of_def slot_bytes_def word_le_nat_alt)
  qed
next
  case (S_count i)
  then show ?thesis using st
    by (auto simp: ledger_defs submit_lin_def submit_step_def core_eq) (simp_all add: bump_drop_def)
next
  case (S_push q)
  have "ring_ok d" using own by (auto elim: ownsE)
  then show ?thesis using push_step_simulated r st S_push by simp
qed (use st in \<open>auto simp: ledger_defs submit_lin_def submit_step_def SpinLockGuard_acquire_def SpinLockGuard_drop_def
    current_stack_location_def free_pool_def Let_def\<close>,
  simp_all add: copy_to_system_buffer_def Let_def log_call_def call_reply_def)

lemma pop_step_simulated:
  assumes ring: "ring_ok d" and st: "get_step K i (G_pop q n) d = (t', d')"
  shows "simulated (get_lin i (G_pop q n) d) (Fetch i (G_pop q n)) d t' d'"
proof -
  have fr: "heap (snd (queue_pop_locked d)) = heap d" "irps (snd (queue_pop_locked d)) = irps d"
    "PENDING_IRP (snd (queue_pop_locked d)) = PENDING_IRP d" "DROP_COUNT (snd (queue_pop_locked d)) = DROP_COUNT d"
    "replies (trace (snd (queue_pop_locked d))) = replies (trace d)"
    by (simp_all add: frame_simps trace_pop call_reply_def)
  show ?thesis
  proof (cases "queue_list d")
    case Nil
    then show ?thesis using st pop_empty [OF Nil]
      by (auto simp: ledger_defs get_lin_def get_step_def) (simp_all add: log_call_def call_reply_def)
  next
    case (Cons s ss)
    define d1 where "d1 = snd (queue_pop_locked d)"
    note pop = pop_Cons [OF ring Cons]
    have st': "t' = Fetch i (G_drop q n s)" "d' = d1"
      using st pop by (auto simp: get_step_def split_beta d1_def)
    have ch: "ch_queue (chan_of d) = slot_bytes d s # map (slot_bytes d) ss"
      "ch_waiting (chan_of d1) = ch_waiting (chan_of d)" "ch_queue (chan_of d1) = map (slot_bytes d) ss"
      using pop fr by (simp_all add: chan_of_def Cons d1_def slot_bytes_frame [OF fr(1)])
    have len: "length (slot_bytes d s) = unat (slot_size s)" by (simp add: slot_bytes_def)
    have "core (chan_of d1) = core (fst (chan_get i n (chan_of d)))"
      by (simp add: core_def chan_get_def ch)
    moreover have "snd (chan_get i n (chan_of d)) = promise t' d1"
      by (simp add: chan_get_def ch(1) st' promise_defs len word_less_nat_alt slot_bytes_frame [OF fr(1)] d1_def)
    moreover have "uncounted t' d1 = lost_step (Get i n) (chan_of d)"
      by (simp add: lost_step_def chan_get_def ch(1) st' uncounted_def len word_less_nat_alt)
    ultimately show ?thesis using Cons st' fr
      by (simp add: simulated_def get_lin_def stamped_def split_beta d1_def)
        (simp add: promise_def get_promise_def uncounted_def)
  qed
qed

lemma get_step_simulated:
  assumes own: "owns None (get_blocks g @ bs) (get_irps i g @ iq) (unlocked d)"
    and r: "get_ok i g d" and st: "get_step K i g d = (t', d')"
  shows "simulated (get_lin i g d) (Fetch i g) d t' d'"
proof -
  have null: "i \<noteq> null_ptr" if "i \<in> set (get_irps i g)"
    using own that by (rule_tac ownsE [OF own]) (auto simp: irps_owned_def)
  show ?thesis
  proof (cases g)
    case G_stack
    then show ?thesis using st
      by (auto simp: ledger_defs get_lin_def get_step_def current_stack_location_def lost_step_def)
        (simp_all add: log_call_def call_reply_def core_def)
  next
    case (G_pop q n)
    have "ring_ok d" using own by (auto elim: ownsE)
    then show ?thesis using pop_step_simulated st G_pop by simp
  next
    case (G_park q n)
    then have "i \<noteq> null_ptr" "queue_list d = []" "n = OutputBufferLength (irps d i)"
      using null r by (simp_all add: get_ok_def)
    then show ?thesis using st G_park
      by (auto simp: ledger_defs get_lin_def get_step_def park_irp_def chan_get_def lost_step_def core_def chan_of_def)
  qed (use st in \<open>auto simp: ledger_defs get_lin_def get_step_def SpinLockGuard_acquire_def SpinLockGuard_drop_def
      slot_bytes_def Let_def\<close>,
    simp_all add: irp_op_defs free_pool_def bump_drop_def Let_def log_call_def call_reply_def)
qed

lemma complete_replies:
  "replies (trace (snd (complete_irp i status info d))) = replies (trace d) @ [closing i status info d]"
  by (simp add: complete_irp_def Let_def log_call_def call_reply_def reply_of_def closing_def)

lemma cleanup_step_simulated:
  assumes own: "owns None bs (cleanup_irps i c @ iq) (unlocked d)" and st: "cleanup_step i c d = (t', d')"
  shows "simulated (lin K obj (Clean i c) d) (Clean i c) d t' d'"
proof (cases c)
  case C_take
  show ?thesis
  proof (cases "PENDING_IRP d = null_ptr")
    case True
    then show ?thesis using st C_take
      by (auto simp: ledger_defs lin_def cleanup_step_def take_pending_none chan_cleanup_def lost_step_def
          core_def chan_of_def)
  next
    case False
    then show ?thesis using st C_take
      by (auto simp: ledger_defs lin_def cleanup_step_def take_pending_def chan_cleanup_def lost_step_def
          core_def chan_of_def slot_bytes_def)
  qed
next
  case (C_cancel j)
  then show ?thesis using st complete_replies [of j STATUS_CANCELLED 0 d]
    by (auto simp: ledger_defs lin_def cleanup_step_def) (simp add: complete_irp_def Let_def log_call_def)
qed

lemma begin_step_simulated:
  assumes K: "key_names_valid K" "wired obj" and x: "input_ok x" and st: "begin_step K obj x d = (t', d')"
  shows "simulated (begin_lin obj x) (Begin x) d t' d'"
proof (cases "\<exists>major i r len. x = IrpNotify major i r len")
  case True
  then obtain major i r len where i: "x = IrpNotify major i r len" by blast
  then have "MajorFunction obj ! major = Some (routine_for major)"
    using K(2) x by (simp add: wired_def input_ok_def)
  then show ?thesis using st i
    by (auto simp: ledger_defs begin_lin_def begin_step_def lost_step_def core_def split: dispatch_routine.splits)
next
  case False
  obtain pl d1 where p: "plan K x d = (pl, d1)" by (cases "plan K x d")
  note q = quietD [OF plan_quiet(1) [OF K(1) x p]]
  have "core (chan_of d1) = core (chan_of d)"
    using same_globalsD [OF q(1)] q(2) by (intro core_frame) simp_all
  moreover have "begin_lin obj x = []" using False by (cases x) (auto simp: begin_lin_def)
  ultimately show ?thesis using st q(4,5)
    by (auto simp: begin_eq [OF False p] simulated_def promise_def uncounted_def stamped_def split: option.splits)
qed

lemma step_simulated:
  assumes own: "owns None (blocks t @ bs) (hand t @ iq) (unlocked d)" and r: "relies t d"
    and own': "owns None (blocks t' @ bs) (hand t' @ iq) (unlocked d')"
    and K: "key_names_valid K" "wired obj" and st: "step K obj t d = (t', d')"
  shows "simulated (lin K obj t d) t d t' d'"
proof (cases t)
  case Done
  then show ?thesis using st by (auto simp: simulated_def lin_def promise_def uncounted_def stamped_def)
next
  case Hung
  then show ?thesis using st by (auto simp: simulated_def lin_def promise_def uncounted_def stamped_def)
next
  case (Begin x)
  then show ?thesis using begin_step_simulated [OF K, of x d t' d'] r st by (simp add: relies_def lin_def)
next
  case (Emit lay ty fill e)
  then show ?thesis using emit_step_simulated [of lay e bs iq d t' d' fill K ty] own own' r st
    by (simp add: relies_def lin_def)
next
  case (Send p sz s)
  then show ?thesis using submit_step_simulated [of p sz s bs iq d K t' d'] own r st
    by (simp add: relies_def lin_def)
next
  case (Fetch i g)
  then show ?thesis using get_step_simulated [of g bs i iq d K t' d'] own r st by (simp add: relies_def lin_def)
next
  case (Clean i c)
  then show ?thesis using cleanup_step_simulated [of bs i c iq d t' d' K obj] own st by simp
next
  case (Complete i status info)
  then show ?thesis using st complete_replies [of i status info d]
    by (auto simp: simulated_def lin_def promise_def uncounted_def stamped_def)
      (simp add: complete_irp_def Let_def log_call_def)
qed

section \<open>What other threads promised stays promised\<close>

text \<open>A step writes only to memory and IRPs in the hands of its thread.\<close>

definition keeps_memory :: "pc \<Rightarrow> driver \<Rightarrow> pc \<Rightarrow> driver \<Rightarrow> bool" where
  "keeps_memory t d t' d' \<longleftrightarrow>
    (\<forall>q. q \<notin> fst ` set (blocks t @ blocks t') \<longrightarrow> heap d' q = heap d q) \<and>
    (\<forall>j. j \<notin> set (hand t) \<longrightarrow> SystemBuffer (irps d' j) = SystemBuffer (irps d j))"

lemma emit_keeps_memory:
  assumes f: "event_filler lay True fill" and st: "emit_step K lay ty fill e d = (t', d')"
  shows "keeps_memory (Emit lay ty fill e) d t' d'"
proof (cases e)
  case E_alloc
  obtain p d1 where a: "alloc_event K (of_nat (size_of lay)) d = (p, d1)"
    by (cases "alloc_event K (of_nat (size_of lay)) d")
  then show ?thesis using st E_alloc alloc_event_memory [OF a]
    by (cases "p = null_ptr") (auto simp: keeps_memory_def emit_step_def Let_def)
next
  case (E_fill p)
  then have "d' = fill p d" using st by (simp add: emit_step_def Let_def)
  then show ?thesis using E_fill fillsD(15,16) [OF event_filler.fill_fills [OF f TrueI, of p d]]
    by (auto simp: keeps_memory_def)
qed (use st in \<open>auto simp: keeps_memory_def emit_step_def Let_def zero_mem_def write_mem_def log_call_def\<close>)

lemma submit_keeps_memory:
  assumes "submit_step K p sz s d = (t', d')"
  shows "keeps_memory (Send p sz s) d t' d'"
proof (cases s)
  case (S_push q)
  then have "d' = snd (queue_push_locked p sz d)" using assms by (auto simp: submit_step_def split_beta)
  then show ?thesis by (simp add: keeps_memory_def frame_simps)
qed (use assms in \<open>auto simp: keeps_memory_def submit_step_def SpinLockGuard_acquire_def SpinLockGuard_drop_def
      Let_def take_pending_def irp_op_defs free_pool_def bump_drop_def log_call_def\<close>)

lemma get_keeps_memory:
  assumes "get_step K i g d = (t', d')"
  shows "keeps_memory (Fetch i g) d t' d'"
proof (cases g)
  case (G_pop q n)
  then have "d' = snd (queue_pop_locked d)" using assms by (auto simp: get_step_def split_beta)
  then show ?thesis by (simp add: keeps_memory_def frame_simps)
qed (use assms in \<open>auto simp: keeps_memory_def get_step_def SpinLockGuard_acquire_def SpinLockGuard_drop_def
      Let_def park_irp_def irp_op_defs free_pool_def bump_drop_def log_call_def split: if_splits\<close>)

lemma begin_keeps_memory:
  assumes "key_names_valid K" "input_ok x" "begin_step K obj x d = (t', d')"
  shows "heap d' = heap d" "irps d' = irps d"
proof -
  have "heap d' = heap d \<and> irps d' = irps d"
  proof (cases "\<exists>major i r len. x = IrpNotify major i r len")
    case True
    then show ?thesis using assms(3)
      by (auto simp: begin_step_def split: option.splits dispatch_routine.splits)
  next
    case False
    obtain pl d1 where p: "plan K x d = (pl, d1)" by (cases "plan K x d")
    then show ?thesis using assms(3) quietD(2,3) [OF plan_quiet(1) [OF assms(1,2) p]]
      by (auto simp: begin_eq [OF False p] split: option.splits)
  qed
  then show "heap d' = heap d" "irps d' = irps d" by simp_all
qed

lemma step_keeps_memory:
  assumes "key_names_valid K" "relies t d" "step K obj t d = (t', d')"
  shows "keeps_memory t d t' d'"
proof (cases t)
  case (Begin x)
  then show ?thesis using begin_keeps_memory [of K x obj d t' d'] assms by (simp add: relies_def keeps_memory_def)
next
  case (Emit lay ty fill e)
  then show ?thesis using emit_keeps_memory [of lay fill K ty e d t' d'] assms by (simp add: relies_def)
next
  case (Send p sz s)
  then show ?thesis using submit_keeps_memory [of K p sz s d t' d'] assms by simp
next
  case (Fetch i g)
  then show ?thesis using get_keeps_memory [of K i g d t' d'] assms by simp
next
  case (Clean i c)
  then show ?thesis using assms
    by (cases c) (auto simp: keeps_memory_def cleanup_step_def take_pending_def complete_irp_def log_call_def Let_def)
qed (use assms in \<open>auto simp: keeps_memory_def complete_irp_def log_call_def Let_def\<close>)

lemma promise_stable:
  assumes "\<And>q. q \<in> fst ` set (blocks u) \<Longrightarrow> heap d' q = heap d q"
    and "\<And>j. j \<in> set (hand u) \<Longrightarrow> SystemBuffer (irps d' j) = SystemBuffer (irps d j) \<and>
      OutputBufferLength (irps d' j) = OutputBufferLength (irps d j)"
  shows "promise u d' = promise u d" "uncounted u d' = uncounted u d"
proof -
  have "promise u d' = promise u d \<and> uncounted u d' = uncounted u d"
  proof (cases u)
    case (Send p sz s)
    then show ?thesis using assms by (cases s) (simp_all add: promise_defs uncounted_def)
  next
    case (Fetch i g)
    then show ?thesis using assms
      by (cases g) (simp_all add: promise_defs uncounted_def slot_bytes_def slot_block_def)
  next
    case (Clean i c)
    then show ?thesis by (cases c) (simp_all add: promise_def uncounted_def)
  qed (use assms in \<open>simp_all add: promise_def uncounted_def closing_def\<close>)
  then show "promise u d' = promise u d" "uncounted u d' = uncounted u d" by simp_all
qed

section \<open>Runs of threads are runs of the channel\<close>

definition promises :: "pc list \<Rightarrow> driver \<Rightarrow> reply multiset" where
  "promises ts d = mset (concat (map (\<lambda>t. promise t d) ts))"

definition all_uncounted :: "pc list \<Rightarrow> driver \<Rightarrow> nat" where
  "all_uncounted ts d = sum_list (map (\<lambda>t. uncounted t d) ts)"

definition lin_ops :: "kernel \<Rightarrow> driver_object \<Rightarrow> (pc \<times> driver) list \<Rightarrow> chan_op list" where
  "lin_ops K obj ls = concat (map (\<lambda>(t, d). lin K obj t d) ls)"

definition all_stamped :: "(pc \<times> driver) list \<Rightarrow> u32" where
  "all_stamped ls = sum_list (map (\<lambda>(t, d). stamped t d) ls)"

definition simulated_run ::
  "chan_op list \<Rightarrow> u32 \<Rightarrow> pc list \<Rightarrow> driver \<Rightarrow> pc list \<Rightarrow> driver \<Rightarrow> bool" where
  "simulated_run ops st ts d ts' d' \<longleftrightarrow>
    core (chan_of d') = core (fst (chan_run ops (chan_of d))) \<and>
    mset (replies (trace d')) + promises ts' d' =
      mset (replies (trace d)) + promises ts d + mset (snd (chan_run ops (chan_of d))) \<and>
    DROP_COUNT d' + of_nat (all_uncounted ts' d') + st =
      DROP_COUNT d + of_nat (all_uncounted ts d) + of_nat (lost ops (chan_of d))"

lemma simulated_run_trans:
  assumes "simulated_run xs a ts1 d1 ts2 d2" "simulated_run ys b ts2 d2 ts3 d3"
  shows "simulated_run (xs @ ys) (a + b) ts1 d1 ts3 d3"
proof -
  let ?c = "fst (chan_run xs (chan_of d1))"
  have c: "core (chan_of d2) = core ?c" using assms(1) by (simp add: simulated_run_def)
  note r = chan_run_core [OF c, of ys]
  have run: "chan_run (xs @ ys) (chan_of d1) =
      (fst (chan_run ys ?c), snd (chan_run xs (chan_of d1)) @ snd (chan_run ys ?c))"
    by (simp add: chan_run_append split_beta Let_def)
  have "DROP_COUNT d3 + of_nat (all_uncounted ts3 d3) + (a + b) =
      (DROP_COUNT d3 + of_nat (all_uncounted ts3 d3) + b) + a" by (simp add: algebra_simps)
  also have "\<dots> = DROP_COUNT d2 + of_nat (all_uncounted ts2 d2) + a + of_nat (lost ys (chan_of d2))"
    using assms(2) by (simp add: simulated_run_def algebra_simps)
  also have "\<dots> = DROP_COUNT d1 + of_nat (all_uncounted ts1 d1) + of_nat (lost (xs @ ys) (chan_of d1))"
    using assms(1) by (simp add: simulated_run_def lost_append r(3) algebra_simps)
  finally show ?thesis using assms r(1,2) by (simp add: simulated_run_def run ac_simps)
qed

lemma owns_apart:
  assumes "owns st (as @ bs) (iz @ js) d"
  shows "fst ` set as \<inter> fst ` set bs = {}" "set iz \<inter> set js = {}"
proof -
  from assms have "distinct (map fst (as @ bs))" by (rule ownsE) (simp add: blocks_owned_def Int_Un_distrib)
  then show "fst ` set as \<inter> fst ` set bs = {}" by simp
  from assms have "distinct (iz @ js)" by (rule ownsE) (simp add: irps_owned_def)
  then show "set iz \<inter> set js = {}" by simp
qed

text \<open>A step of one thread changes nothing the other threads hold.\<close>

lemma step_keeps_others:
  assumes inv: "threads_ok (us @ t # vs) d" and K: "shared_kernel_ok K" "wired obj"
    and timely: "\<not> late_mark t d" and st: "step K obj t d = (t', d')" and u: "u \<in> set (us @ vs)"
  shows "q \<in> fst ` set (blocks u) \<Longrightarrow> heap d' q = heap d q"
    and "j \<in> set (hand u) \<Longrightarrow> SystemBuffer (irps d' j) = SystemBuffer (irps d j) \<and>
      OutputBufferLength (irps d' j) = OutputBufferLength (irps d j)"
proof -
  let ?bs = "concat (map blocks (us @ vs))" and ?iq = "concat (map hand (us @ vs))"
  have K': "key_names_valid K" using K(1) by (simp add: shared_kernel_ok_def)
  have rt: "relies t d" using inv by (simp add: threads_ok_def)
  have own: "owns None (blocks t @ ?bs) (hand t @ ?iq) (unlocked d)"
    using inv [unfolded threads_ok_def, THEN conjunct1] by (rule owns_perm) simp_all
  note apart = owns_apart [OF own] owns_apart [OF step_owns(1) [OF own rt K timely st]]
  note mem = step_keeps_memory [OF K' rt st, unfolded keeps_memory_def]
  show "heap d' q = heap d q" if "q \<in> fst ` set (blocks u)"
  proof -
    have "q \<in> fst ` set ?bs" using u that by auto
    then have "q \<notin> fst ` set (blocks t @ blocks t')"
      using apart(1,3) by (simp only: set_append image_Un Un_iff) blast
    then show ?thesis using mem by blast
  qed
  show "SystemBuffer (irps d' j) = SystemBuffer (irps d j) \<and>
      OutputBufferLength (irps d' j) = OutputBufferLength (irps d j)" if "j \<in> set (hand u)"
  proof -
    have "j \<in> set ?iq" using u that by auto
    then have "j \<notin> set (hand t)" using apart(2) by blast
    then show ?thesis using mem step_leaves [OF K' rt st] by (simp add: leaves_def)
  qed
qed

lemma threads_step_simulated:
  assumes inv: "threads_ok (us @ t # vs) d" and K: "shared_kernel_ok K" "wired obj"
    and timely: "\<not> late_mark t d" and st: "step K obj t d = (t', d')"
  shows "simulated_run (lin K obj t d) (stamped t d) (us @ t # vs) d (us @ t' # vs) d'"
proof -
  let ?bs = "concat (map blocks (us @ vs))" and ?iq = "concat (map hand (us @ vs))"
  have K': "key_names_valid K" using K(1) by (simp add: shared_kernel_ok_def)
  have rt: "relies t d" using inv by (simp add: threads_ok_def)
  have own: "owns None (blocks t @ ?bs) (hand t @ ?iq) (unlocked d)"
    using inv [unfolded threads_ok_def, THEN conjunct1] by (rule owns_perm) simp_all
  note sim = step_simulated [OF own rt step_owns(1) [OF own rt K timely st] K' K(2) st]
  have stable: "promise u d' = promise u d \<and> uncounted u d' = uncounted u d" if u: "u \<in> set (us @ vs)" for u
    using promise_stable [OF step_keeps_others(1) [OF inv K timely st u]
        step_keeps_others(2) [OF inv K timely st u]] by simp
  have "map (\<lambda>t. promise t d') xs = map (\<lambda>t. promise t d) xs \<and>
      map (\<lambda>t. uncounted t d') xs = map (\<lambda>t. uncounted t d) xs" if "set xs \<subseteq> set (us @ vs)" for xs
    using that stable by (auto intro!: map_cong)
  from this [of us] this [of vs] have same: "map (\<lambda>t. promise t d') us = map (\<lambda>t. promise t d) us"
    "map (\<lambda>t. promise t d') vs = map (\<lambda>t. promise t d) vs"
    "map (\<lambda>t. uncounted t d') us = map (\<lambda>t. uncounted t d) us"
    "map (\<lambda>t. uncounted t d') vs = map (\<lambda>t. uncounted t d) vs" by simp_all
  let ?o = "mset (concat (map (\<lambda>t. promise t d) us)) + mset (concat (map (\<lambda>t. promise t d) vs))"
    and ?u = "sum_list (map (\<lambda>t. uncounted t d) us) + sum_list (map (\<lambda>t. uncounted t d) vs)"
  have p: "promises (us @ t # vs) d = mset (promise t d) + ?o" "promises (us @ t' # vs) d' = mset (promise t' d') + ?o"
    by (simp_all add: promises_def same)
  have n: "all_uncounted (us @ t # vs) d = uncounted t d + ?u"
    "all_uncounted (us @ t' # vs) d' = uncounted t' d' + ?u"
    by (simp_all add: all_uncounted_def same)
  show ?thesis
    unfolding simulated_run_def p n using sim by (simp add: simulated_def add.assoc)
qed

lemma arrival_simulated:
  assumes inv: "threads_ok ts d" and x: "valid_input x d"
    and new: "set (input_irps x) \<inter> set (concat (map hand ts)) = {}"
  shows "simulated_run [] 0 ts d (ts @ [Begin x]) (arrives x d)"
proof -
  have idle: "promise (Begin x) e = [] \<and> uncounted (Begin x) e = 0" for e
    by (simp add: promise_def uncounted_def)
  have core: "core (chan_of (arrives x d)) = core (chan_of d)"
    using x by (intro core_frame) (auto simp: arrives_def irp_arrives_def valid_input_def split: input.splits)
  have "promise u (arrives x d) = promise u d \<and> uncounted u (arrives x d) = uncounted u d" if "u \<in> set ts" for u
  proof -
    have "irps (arrives x d) j = irps d j" if "j \<in> set (hand u)" for j
      using new that \<open>u \<in> set ts\<close> by (cases x) (auto simp: arrives_def irp_arrives_def input_irps_def)
    moreover have "heap (arrives x d) = heap d" by (cases x) (simp_all add: arrives_def irp_arrives_def)
    ultimately show ?thesis using promise_stable [of u "arrives x d" d] by simp
  qed
  then have "promises (ts @ [Begin x]) (arrives x d) = promises ts d"
    "all_uncounted (ts @ [Begin x]) (arrives x d) = all_uncounted ts d"
    by (simp_all add: promises_def all_uncounted_def idle cong: map_cong)
  moreover have "replies (trace (arrives x d)) = replies (trace d)" "DROP_COUNT (arrives x d) = DROP_COUNT d"
    by (simp_all add: arrives_def irp_arrives_def log_call_def call_reply_def split: input.splits)
  ultimately show ?thesis using core
    by (simp add: simulated_run_def)
qed

lemma crun_simulated:
  assumes "crun K obj ts d ls ts' d'" "threads_ok ts d" "shared_kernel_ok K" "wired obj" "timely ls"
  shows "simulated_run (lin_ops K obj ls) (all_stamped ls) ts d ts' d'"
  using assms
proof (induction rule: crun.induct)
  case start
  then show ?case by (simp add: simulated_run_def lin_ops_def all_stamped_def)
next
  case (arrival ls ts' d' x)
  then have "threads_ok ts' d'" using crun_ok by blast
  from simulated_run_trans [OF arrival.IH arrival_simulated [OF this arrival.hyps(2,3)]] arrival.prems
  show ?case by simp
next
  case (thread ls us t vs d' t' d'')
  then have "threads_ok (us @ t # vs) d'" "\<not> late_mark t d'" using crun_ok by auto
  from simulated_run_trans [OF thread.IH threads_step_simulated [OF this(1) thread.prems(2,3) this(2) thread.hyps(4)]]
    thread.prems
  show ?case by (simp add: lin_ops_def all_stamped_def)
qed

end
