(* ===== verification/Edr_Race.thy ===== *)
theory Edr_Race
  imports Edr_System
begin

text \<open>
  What can happen between the two halves of parking a request. \<open>dispatch_device_control\<close> publishes the
  IRP in \<open>PENDING_IRP\<close> under the lock and marks it pending only after releasing the lock; in between,
  a callback on another processor may take the IRP and complete it. The halves are separated here,
  shown to compose to the routine, and interleaved with a callback.
\<close>

section \<open>The two halves\<close>

text \<open>The lock section of the routine for an empty queue, up to the release of the lock.\<close>

definition device_control_park :: "kernel \<Rightarrow> ptr \<Rightarrow> driver \<Rightarrow> driver" where
  "device_control_park K i d =
    (let (stack, d) = current_stack_location i d;
         (guard, d) = SpinLockGuard_acquire K d;
         (popped, d) = queue_pop_locked d;
         (parked, d) = park_irp i d
     in SpinLockGuard_drop guard d)"

lemma device_control_halves:
  assumes "queue_list d = []" "PENDING_IRP d = null_ptr"
    and "IoControlCode (irps d i) = IOCTL_WEDR_GET_EVENT"
  shows "dispatch_device_control K i d = (STATUS_PENDING, mark_irp_pending i (device_control_park K i d))"
    and "PENDING_IRP (device_control_park K i d) = i"
proof -
  define q where "q = ret_KeAcquireSpinLockRaiseToDpc K (trace d @ [IrpAccess i])"
  define a where "a = d\<lparr>trace := trace d @ [IrpAccess i, KeAcquireSpinLockRaiseToDpc q]\<rparr>"
  have pop: "queue_pop_locked a = (None, log_call QueueAccess a)"
    using assms(1) by (intro pop_empty) (simp add: a_def)
  note defs = dispatch_device_control_def device_control_park_def SpinLockGuard_acquire_def
    SpinLockGuard_drop_def current_stack_location_def park_irp_def Let_def log_call_def
  show "dispatch_device_control K i d = (STATUS_PENDING, mark_irp_pending i (device_control_park K i d))"
    "PENDING_IRP (device_control_park K i d) = i"
    using assms(2,3) pop
    by (simp_all add: defs a_def [symmetric] q_def [symmetric]) (simp_all add: a_def log_call_def)
qed

lemma device_control_park_owns:
  assumes own: "owns None bs (i # iq) d" and e: "queue_list d = []" and none: "PENDING_IRP d = null_ptr"
  shows "owns None bs iq (device_control_park K i d)"
proof -
  define c where "c = log_call (IrpAccess i) d"
  define q where "q = ret_KeAcquireSpinLockRaiseToDpc K (trace c)"
  define a where "a = log_call (KeAcquireSpinLockRaiseToDpc q) c"
  have c: "owns None bs (i # iq) c"
    unfolding c_def using own by (rule owns_irp_access) (simp_all add: log_call_def same_globals_def)
  have a: "owns (Some q) bs (i # iq) a" unfolding a_def by (rule owns_acquire [OF c])
  have ea: "queue_list a = []" using e by (simp add: a_def c_def)
  then have pop: "queue_pop_locked a = (None, log_call QueueAccess a)" by (rule pop_empty)
  have p: "owns (Some q) bs (i # iq) (log_call QueueAccess a)"
    using owns_pop_none(1) [OF a] by (simp add: pop)
  have n: "PENDING_IRP (log_call QueueAccess a) = null_ptr" "queue_list (log_call QueueAccess a) = []"
    using none ea by (simp_all add: a_def c_def) (simp add: log_call_def)
  have "owns None bs iq (log_call (KeReleaseSpinLock q) ((log_call QueueAccess a)\<lparr>PENDING_IRP := i\<rparr>))"
    using owns_park [OF p n] by (rule owns_release)
  then show ?thesis
    using n(1) pop by (simp add: device_control_park_def current_stack_location_def SpinLockGuard_acquire_def
        SpinLockGuard_drop_def park_irp_def Let_def flip: c_def q_def a_def)
qed

lemma no_irps_held:
  assumes "driver_ok d" "PENDING_IRP d = null_ptr"
  shows "mon_of (mark_irp_pending i d) = None"
proof -
  obtain m where m: "mon_of d = Some m" "irps_owned [] m d"
    using assms(1) unfolding driver_ok_def by (rule ownsE)
  have "m_irps m i = None" using m(2) assms(2) unfolding irps_owned_def by (cases "m_irps m i") auto
  then show ?thesis
    using m(1) by (simp add: mark_irp_pending_def current_stack_location_def mon_simps)
qed

section \<open>The window\<close>

lemma race_window:
  assumes "driver_ok d" "pool_fresh K" "queue_list d = []" "PENDING_IRP d = null_ptr"
    and "i \<noteq> null_ptr" "unat (OutputBufferLength r) \<le> len" "IoControlCode r = IOCTL_WEDR_GET_EVENT"
    and "a = irp_arrives i r len d" "parked = device_control_park K i a"
    and "fst (alloc_event_for K ThreadExitEvent (event_type_u16 ThreadExit) parked) \<noteq> null_ptr"
  shows "dispatch_device_control K i a = (STATUS_PENDING, mark_irp_pending i parked) \<and>
    mon_of (mark_irp_pending i parked) \<noteq> None \<and>
    mon_of (thread_notify K process_id thread_id 0 parked) \<noteq> None \<and>
    mon_of (mark_irp_pending i (thread_notify K process_id thread_id 0 parked)) = None"
proof -
  let ?t = "thread_notify K process_id thread_id 0 parked"
  have a: "queue_list a = []" "PENDING_IRP a = null_ptr" "IoControlCode (irps a i) = IOCTL_WEDR_GET_EVENT"
    using assms(3,4,7) unfolding assms(8) irp_arrives_def by simp_all (simp_all add: log_call_def)
  have own: "owns None [] [i] a"
    unfolding assms(8) using assms(1,4,5,6) by (intro irp_arrives_owns) simp_all
  note halves = device_control_halves [OF a, of K, folded assms(9)]
  have park: "owns None [] [] parked"
    unfolding assms(9) using own a(1,2) by (rule device_control_park_owns)
  have t: "owns None [] [] ?t" using park assms(2) by (rule thread_notify_owns)
  have "simulates (thread_ops K process_id thread_id 0 parked) parked ?t"
    using park assms(2) by (rule thread_notify_simulates)
  then have "ch_waiting (chan_of ?t) = None"
    using assms(10) halves(2) assms(5)
    by (simp add: simulates_def thread_ops_def emit_ops_def split_beta Let_def)
      (simp add: chan_of_def chan_submit_def)
  then have "PENDING_IRP ?t = null_ptr" by (simp add: chan_of_def split: if_splits)
  then have "mon_of (mark_irp_pending i ?t) = None"
    using t by (intro no_irps_held) (simp_all add: driver_ok_def)
  moreover have "mon_of ?t \<noteq> None" using t by (auto elim: ownsE)
  moreover have "mon_of (snd (dispatch_device_control K i a)) \<noteq> None"
    using dispatch_device_control_owns [OF own, of K] by (auto elim: ownsE)
  ultimately show ?thesis using halves(1) by simp
qed

end
