(* ===== verification/Edr_Concurrent.thy ===== *)
theory Edr_Concurrent
  imports Edr_Linear Edr_Race
begin

text \<open>
  The driver under any interleaving of its callbacks and requests. The loaded driver starts with no
  thread; notifications and IRPs arrive at any moment, each as a new thread, and any thread that is not
  waiting for the spinlock may take the next step. What the theorems promise holds in every state on the
  way, with some threads in the middle of their routines.
\<close>

section \<open>What the steps of a run rely on\<close>

lemma crun_relies:
  assumes "crun K obj ts d ls ts' d'" "threads_ok ts d" "shared_kernel_ok K" "wired obj" "timely ls"
  shows "list_all (\<lambda>(t, d). relies t d) ls"
  using assms
proof (induction rule: crun.induct)
  case (thread ls us t vs d' t' d'')
  then have "threads_ok (us @ t # vs) d'" using crun_ok by auto
  then show ?case using thread by (simp add: threads_ok_def)
qed simp_all

lemma lin_nonempty:
  assumes "relies t d"
  shows "[] \<notin> set (concat (map submitted (lin K obj t d)))"
proof (cases t)
  case (Begin x)
  then show ?thesis
    by (auto simp: lin_defs split: input.splits option.splits dispatch_routine.splits)
next
  case (Emit lay ty fill e)
  then show ?thesis by (cases e) (simp_all add: lin_defs)
next
  case (Send p sz s)
  then have "0 < unat sz" using assms by (simp add: relies_defs word_less_nat_alt)
  then have "read_at 0 (unat sz) (heap d p) \<noteq> []" by (simp add: read_at_def)
  then show ?thesis using Send by (cases s) (simp_all add: lin_defs)
next
  case (Fetch i g)
  then show ?thesis by (cases g) (simp_all add: lin_defs)
next
  case (Clean i c)
  then show ?thesis by (cases c) (simp_all add: lin_defs)
qed (simp_all add: lin_def)

lemma lin_ops_nonempty:
  "list_all (\<lambda>(t, d). relies t d) ls \<Longrightarrow> [] \<notin> set (concat (map submitted (lin_ops K obj ls)))"
  using lin_nonempty by (induction ls) (auto simp: lin_ops_def)

text \<open>Threads that have finished promise nothing and have nothing left to count.\<close>

lemma finished_promises [simp]:
  "promises (replicate n Done) d = {#}" "all_uncounted (replicate n Done) d = 0"
  by (induction n) (simp_all add: promises_def all_uncounted_def promise_def uncounted_def)

section \<open>Nothing is completed under the lock\<close>

lemma holder_completes_nothing:
  assumes "guards t \<noteq> []" "step K obj t d = (t', d')"
  shows "replies (trace d') = replies (trace d)"
proof (cases t)
  case (Send p sz s)
  then show ?thesis using assms
    by (cases s) (auto simp: submit_step_def take_pending_def irp_op_defs SpinLockGuard_drop_def split_beta
        trace_push call_reply_def Let_def log_call_def)
next
  case (Fetch i g)
  then show ?thesis using assms
    by (cases g) (auto simp: get_step_def park_irp_def irp_op_defs SpinLockGuard_drop_def split_beta
        trace_pop call_reply_def Let_def log_call_def)
qed (use assms in simp_all)

section \<open>No deadlock\<close>

lemma crun_enabled:
  assumes r: "crun K obj ts0 d ls ts d'" and inv: "lock_inv ts0 d" and K: "key_names_valid K"
  shows "list_all stopped ts \<or>
    (\<exists>us t vs. ts = us @ t # vs \<and> \<not> stopped t \<and>
       crun K obj ts0 d (ls @ [(t, d')]) (us @ fst (step K obj t d') # vs) (snd (step K obj t d')))"
proof (cases "list_all stopped ts")
  case False
  then obtain u where "u \<in> set ts" "\<not> stopped u" by (auto simp: list_all_iff)
  then obtain us t vs where t: "ts = us @ t # vs" "\<not> stopped t" "acquires t \<Longrightarrow> lock_free d'"
    using some_thread_enabled [OF crun_lock [OF r inv K]] by metis
  have "crun K obj ts0 d (ls @ [(t, d')]) (us @ fst (step K obj t d') # vs) (snd (step K obj t d'))"
    using r t by (intro crun.thread) simp_all
  with t(1,2) show ?thesis by (intro disjI2 exI [of _ us] exI [of _ t] exI [of _ vs] conjI)
qed simp

lemma driver_ok_lock: "driver_ok d \<Longrightarrow> lock_inv [] d"
  by (rule threads_ok_lock [OF driver_ok_threads])

text \<open>When all threads have stopped, every request has been answered but the parked one.\<close>

lemma stopped_hands: "list_all stopped ts \<Longrightarrow> concat (map hand ts) = []"
proof (induction ts)
  case (Cons t ts)
  then show ?case by (cases t) simp_all
qed simp

lemma stopped_requests:
  assumes ok: "threads_ok ts d" and stop: "list_all stopped ts"
  shows "\<exists>m. mon_run (filter (\<lambda>c. \<not> lock_call c) (trace d)) mon0 = Some m \<and>
    {i. m_irps m i \<noteq> None} = {PENDING_IRP d} - {null_ptr}"
proof -
  have "owns None (concat (map blocks ts)) [] (unlocked d)"
    using ok stopped_hands [OF stop] by (simp add: threads_ok_def)
  then obtain m where "mon_of (unlocked d) = Some m" "irps_owned [] m (unlocked d)" by (rule ownsE)
  then show ?thesis by (intro exI [of _ m]) (auto simp: mon_of_def irps_owned_def)
qed

section \<open>A concrete interleaving\<close>

lemma unlocked_bound:
  "sum_list (map block_bound (filter (\<lambda>c. \<not> lock_call c) h)) = sum_list (map block_bound h)"
  by (induction h) (auto simp: block_bound_def lock_call_def split: kcall.splits)

lemma sample_shared_kernel_ok [simp]: "shared_kernel_ok sample_kernel"
proof -
  have "m_live m (next_block h) = None" if "mon_run (filter (\<lambda>c. \<not> lock_call c) h) mon0 = Some m" for h m
    using next_block_fresh [OF that] by (simp add: next_block_def unlocked_bound)
  then have "pool_fresh_shared sample_kernel" by (simp add: pool_fresh_shared_def Let_def sample_kernel_def)
  then show ?thesis using sample_kernel_ok by (simp add: shared_kernel_ok_def kernel_ok_def)
qed

text \<open>Threads of notifications have no request to mark.\<close>

definition notifies :: "pc \<Rightarrow> bool" where
  "notifies t = (case t of Begin (IrpNotify major i r len) \<Rightarrow> False | Fetch i g \<Rightarrow> False | _ \<Rightarrow> True)"

lemma notifies_step: "notifies t \<Longrightarrow> notifies (fst (step K obj t d))"
proof (cases t)
  case (Begin x)
  then show "notifies t \<Longrightarrow> notifies (fst (step K obj t d))"
    by (cases x) (auto simp: notifies_def begin_step_def split: option.splits prod.splits)
next
  case (Emit lay ty fill e)
  then show ?thesis by (cases e) (simp_all add: notifies_def emit_step_def Let_def split_beta)
next
  case (Send p sz s)
  then show ?thesis by (cases s) (simp_all add: notifies_def submit_step_def Let_def split_beta)
next
  case (Clean i c)
  then show ?thesis by (cases c) (simp_all add: notifies_def cleanup_step_def Let_def split_beta)
qed (simp_all add: notifies_def)

lemma notifies_timely: "list_all (notifies \<circ> fst) ls \<Longrightarrow> timely ls"
proof (induction ls)
  case (Cons l ls)
  then have "\<not> late_mark (fst l) (snd l)"
    by (auto simp: notifies_def late_mark_def split: pc.splits)
  with Cons show ?case by (simp add: timely_def split_beta)
qed (simp add: timely_def)

text \<open>And once its event has been allocated, such a thread does not panic.\<close>

definition allocated :: "pc \<Rightarrow> bool" where
  "allocated t = (case t of Hung \<Rightarrow> False | Begin x \<Rightarrow> False | Emit lay ty fill e \<Rightarrow> e \<noteq> E_alloc | _ \<Rightarrow> True)"

lemma allocated_step: "allocated t \<Longrightarrow> allocated (fst (step K obj t d))"
proof (cases t)
  case (Emit lay ty fill e)
  then show "allocated t \<Longrightarrow> allocated (fst (step K obj t d))"
    by (cases e) (simp_all add: allocated_def emit_step_def Let_def split_beta)
next
  case (Send p sz s)
  then show ?thesis by (cases s) (simp_all add: allocated_def submit_step_def Let_def split_beta)
next
  case (Fetch i g)
  then show ?thesis by (cases g) (simp_all add: allocated_def get_step_def Let_def split_beta)
next
  case (Clean i c)
  then show ?thesis by (cases c) (simp_all add: allocated_def cleanup_step_def Let_def split_beta)
qed (simp_all add: allocated_def)

lemma crun_alone_notifies:
  assumes "lock_inv (us @ t # vs) d" "concat (map guards (us @ vs)) = []" "notifies t" "allocated t"
  obtains ls where "crun K obj (us @ t # vs) d ls (us @ Done # vs) (run_alone K obj t d)" "timely ls"
proof -
  obtain ls t' where r: "crun K obj (us @ t # vs) d ls (us @ t' # vs) (run_alone K obj t d)" "stopped t'"
    "notifies t' \<and> allocated t'" "list_all ((\<lambda>t. notifies t \<and> allocated t) \<circ> fst) ls"
    using crun_alone [where P = "\<lambda>t. notifies t \<and> allocated t", OF assms(1,2), of K obj] assms(3,4)
      notifies_step [of _ K obj] allocated_step [of _ K obj] by (auto simp: allocated_def)
  have "t' = Done" using r(2,3) by (cases t') (simp_all add: allocated_def)
  moreover have "timely ls" using r(4) by (intro notifies_timely) (simp add: list_all_iff)
  ultimately show thesis using r(1) that by blast
qed

lemma crun_first:
  assumes "step K obj t d = (t', d')" "\<not> stopped t" "acquires t \<Longrightarrow> lock_free d"
    and "crun K obj (us @ t' # vs) d' ls ts' d''"
  shows "crun K obj (us @ t # vs) d ((t, d) # ls) ts' d''"
  using crun_trans [OF crun_one [OF assms(1-3)] assms(4)] by simp

text \<open>A thread exit that gets its memory, from the allocation on and from the notification on.\<close>

lemma crun_alone_emit:
  assumes "t = Emit lay ty fill E_alloc" "fst (alloc_event K (of_nat (size_of lay)) d) \<noteq> null_ptr"
    and inv: "lock_inv (us @ t # vs) d" and free: "concat (map guards (us @ vs)) = []"
  obtains ls where "crun K obj (us @ t # vs) d ls (us @ Done # vs) (run_alone K obj t d)" "timely ls"
proof -
  let ?t = "Emit lay ty fill (E_zero (fst (alloc_event K (of_nat (size_of lay)) d)))"
    and ?d = "snd (alloc_event K (of_nat (size_of lay)) d)"
  have st: "step K obj t d = (?t, ?d)" using assms(1,2) by (simp add: emit_step_def split_beta Let_def)
  have go: "\<not> stopped t" "acquires t \<Longrightarrow> lock_free d" "\<not> late_mark t d"
    using assms(1) by (simp_all add: acquires_def late_mark_def)
  obtain ls where "crun K obj (us @ ?t # vs) ?d ls (us @ Done # vs) (run_alone K obj ?t ?d)" "timely ls"
    by (rule crun_alone_notifies [OF lock_inv_step [OF inv _ st go(2)] free])
      (simp_all add: notifies_def allocated_def assms(1))
  then show thesis
    using that [of "(t, d) # ls"] crun_first [OF st go(1,2)] go(3) st run_alone_step [OF go(1), of K obj d]
    by (simp add: timely_def)
qed

lemma crun_alone_exit:
  assumes t: "t = Begin (ThreadNotify pid tid 0)"
    and mem: "fst (alloc_event K (of_nat (size_of ThreadExitEvent)) d) \<noteq> null_ptr"
    and inv: "lock_inv (us @ t # vs) d" and free: "concat (map guards (us @ vs)) = []"
  obtains ls where "crun K obj (us @ t # vs) d ls (us @ Done # vs) (run_alone K obj t d)" "timely ls"
proof -
  let ?t = "Emit ThreadExitEvent ThreadExit (fill_thread_exit (ucast pid) (ucast tid)) E_alloc"
  have st: "step K obj t d = (?t, d)" using t by (simp add: begin_step_def plan_def)
  have go: "\<not> stopped t" "acquires t \<Longrightarrow> lock_free d" "\<not> late_mark t d"
    using t by (simp_all add: acquires_def late_mark_def)
  obtain ls where "crun K obj (us @ ?t # vs) d ls (us @ Done # vs) (run_alone K obj ?t d)" "timely ls"
    by (rule crun_alone_emit [OF refl mem _ free])
      (use inv t thread_exit.event_filler_axioms in \<open>simp add: lock_inv_def planned_def\<close>)
  then show thesis
    using that [of "(t, d) # ls"] crun_first [OF st go(1,2)] go(3) st run_alone_step [OF go(1), of K obj d]
    by (simp add: timely_def)
qed

lemma timely_append [simp]: "timely (xs @ ys) \<longleftrightarrow> timely xs \<and> timely ys"
  by (simp add: timely_def)

lemma timely_Cons [simp]: "timely ((t, d) # ls) \<longleftrightarrow> \<not> late_mark t d \<and> timely ls"
  by (simp add: timely_def)

text \<open>Two thread exits, the second of which begins before the first and ends after it.\<close>

definition sample_pair :: driver where
  "sample_pair =
    run_alone sample_kernel sample_wired
      (Emit ThreadExitEvent ThreadExit (fill_thread_exit 8 3) E_alloc)
      (run_alone sample_kernel sample_wired (Begin (ThreadNotify 7 9 0)) sample_loaded)"

lemma sample_crun:
  obtains ls where "crun sample_kernel sample_wired [] sample_loaded ls [Done, Done] sample_pair" "timely ls"
proof -
  let ?x = "Begin (ThreadNotify 7 9 0)" and ?y = "Begin (ThreadNotify 8 3 0)"
    and ?e = "Emit ThreadExitEvent ThreadExit (fill_thread_exit 8 3) E_alloc"
    and ?run = "crun sample_kernel sample_wired"
  have "?run [] sample_loaded [] ([] @ [?x]) (arrives (ThreadNotify 7 9 0) sample_loaded)"
    by (intro crun.arrival crun.start) (simp_all add: valid_input_def input_irps_def)
  then have "?run [] sample_loaded [] [?x] sample_loaded" by (simp add: arrives_def)
  then have "?run [] sample_loaded [] ([?x] @ [?y]) (arrives (ThreadNotify 8 3 0) sample_loaded)"
    by (intro crun.arrival) (simp_all add: valid_input_def input_irps_def)
  then have a: "?run [] sample_loaded [] ([?x] @ ?y # []) sample_loaded" by (simp add: arrives_def)
  have "?run ([?x] @ ?y # []) sample_loaded [(?y, sample_loaded)] ([?x] @ ?e # []) sample_loaded"
    by (rule crun_one) (simp_all add: begin_step_def plan_def acquires_def)
  note a = crun_trans [OF a this]
  have mem: "fst (alloc_event sample_kernel sz d) \<noteq> null_ptr" for sz d
    by (simp add: alloc_event_def Let_def sample_kernel_def next_block_def)
  have K: "key_names_valid sample_kernel" using sample_kernel_ok by (simp add: kernel_ok_def)
  have "driver_ok sample_loaded"
    using loads_ok(1) [OF sample_loads] sample_kernel_ok by (simp add: kernel_ok_def)
  note inv = crun_lock [OF a driver_ok_lock [OF this] K]
  obtain l1 where l1: "?run ([] @ ?x # [?e]) sample_loaded l1 ([] @ Done # [?e])
      (run_alone sample_kernel sample_wired ?x sample_loaded)" "timely l1"
    by (rule crun_alone_exit [OF refl mem, of "[]" 7 9 "[?e]"]) (use inv in simp_all)
  have "crun sample_kernel sample_wired [] sample_loaded ([(?y, sample_loaded)] @ l1) [Done, ?e]
      (run_alone sample_kernel sample_wired ?x sample_loaded)"
    using crun_trans [of _ _ _ _ _ "[?x, ?e]"] a l1(1) by fastforce
  note inv = crun_lock [OF this driver_ok_lock [OF \<open>driver_ok sample_loaded\<close>] K]
  obtain l2 where l2: "?run ([Done] @ ?e # []) (run_alone sample_kernel sample_wired ?x sample_loaded)
      l2 ([Done] @ Done # []) sample_pair" "timely l2"
    by (rule crun_alone_emit [OF refl mem, of "[Done]" ThreadExitEvent ThreadExit "fill_thread_exit 8 3" "[]"])
      (use inv in \<open>simp_all add: sample_pair_def\<close>)
  have "?run [] sample_loaded ((?y, sample_loaded) # l1 @ l2) [Done, Done] sample_pair"
    using crun_trans [OF crun_trans [of _ _ _ _ _ "[?x, ?e]"], of _ _ _ _ _ _ _ "[Done, ?e]"] a l1(1) l2(1) by fastforce
  moreover have "timely ((?y, sample_loaded) # l1 @ l2)" using l1(2) l2(2) by (simp add: late_mark_def)
  ultimately show thesis using that by blast
qed

section \<open>A request that is parked and not yet marked\<close>

lemma parking_run:
  assumes "queue_list d = []" "PENDING_IRP d = null_ptr" "wired obj" "i \<noteq> null_ptr"
    and "unat (OutputBufferLength r) \<le> len" "IoControlCode r = IOCTL_WEDR_GET_EVENT"
    and "parked = device_control_park K i (irp_arrives i r len d)" and free: "lock_free d"
  shows "\<exists>ls. crun K obj [] d ls [Fetch i G_mark] parked \<and> timely ls"
proof -
  let ?x = "IrpNotify IRP_MJ_DEVICE_CONTROL i r len"
  define a where "a = irp_arrives i r len d"
  define a1 where "a1 = snd (current_stack_location i a)"
  define g where "g = fst (SpinLockGuard_acquire K a1)"
  define a2 where "a2 = snd (SpinLockGuard_acquire K a1)"
  define a3 where "a3 = snd (queue_pop_locked a2)"
  define a4 where "a4 = snd (park_irp i a3)"
  let ?n = "OutputBufferLength (irps a i)"
  have q: "queue_list a2 = []" "PENDING_IRP a3 = null_ptr"
    using assms(1,2) by (simp_all add: a3_def a2_def a1_def a_def irp_arrives_def current_stack_location_def
        SpinLockGuard_acquire_def Let_def frame_simps)
  have pop: "queue_pop_locked a2 = (None, a3)" using pop_empty [OF q(1)] by (simp add: a3_def)
  have parked: "parked = SpinLockGuard_drop g a4" "fst (park_irp i a3)"
    using q(2) by (simp_all add: assms(7) device_control_park_def split_beta Let_def park_irp_def a_def a1_def g_def
        a2_def a3_def a4_def)
  have code: "IoControlCode (irps a i) = IOCTL_WEDR_GET_EVENT"
    using assms(6) by (simp add: a_def irp_arrives_def)
  have lk: "lock_free a1"
    using free by (simp add: a1_def a_def irp_arrives_def current_stack_location_def lock_free_def log_call_def)
  have mj: "MajorFunction obj ! IRP_MJ_DEVICE_CONTROL = Some Dispatch_device_control"
    using assms(3) by (simp add: wired_def routine_for_def irp_mj_defs)
  note steps = mj lk parked code pop acquires_def a1_def [symmetric] a4_def [symmetric]
    prod_eq_iff [of "SpinLockGuard_acquire K a1"] g_def [symmetric] a2_def [symmetric]
  have stack: "current_stack_location i a = (irps a i, a1)"
    by (simp add: a1_def current_stack_location_def)
  have arr: "crun K obj [] d [] ([] @ [Begin ?x]) a"
    using crun.arrival [OF crun.start, of ?x d "[]" K obj] assms
    by (simp add: valid_input_def input_irps_def arrives_def a_def irp_mj_defs)
  let ?ls = "[(Begin ?x, a), (Fetch i G_stack, a), (Fetch i (G_acquire ?n), a1), (Fetch i (G_pop g ?n), a2),
    (Fetch i (G_park g ?n), a3), (Fetch i (G_leave g True), a4)]"
  have "crun K obj ([] @ Begin ?x # []) a ?ls ([] @ Fetch i G_mark # []) parked"
    by ((rule crun_first [rotated 3])+, rule crun.start)
      (simp_all add: begin_step_def get_step_def split_beta steps stack)
  from crun_trans [OF arr this] have "crun K obj [] d ?ls [Fetch i G_mark] parked" by simp
  moreover have "timely ?ls" by (simp add: late_mark_def) (simp add: timely_def)
  ultimately show ?thesis by blast
qed

section \<open>Properties\<close>

text \<open>
  C12. Progress around the spinlock. Threads wait for the lock itself: a step that takes it is possible only
  while it is free. In every state of every interleaving the lock is held exactly while one thread is in a lock
  section, and by no more than one; so while a thread has something left to do, some thread can take a step,
  and the lock is never waited for in vain. A run has at most fifteen steps for each notification or request,
  and from every state the threads that are there can be run until all have stopped, with the lock free
  again. When all have stopped and no request was marked after its completion, every request that came in
  has been answered but the parked one.
\<close>

theorem threads_always_finish:
  assumes "shared_kernel_ok K" "wired obj" "driver_ok d" "crun K obj [] d ls ts d'"
  shows "length ls \<le> 15 * length ts \<and>
    length (concat (map guards ts)) \<le> 1 \<and> (lock_free d' \<longleftrightarrow> concat (map guards ts) = []) \<and>
    (list_all stopped ts \<or>
      (\<exists>us t vs. ts = us @ t # vs \<and> \<not> stopped t \<and>
         crun K obj [] d (ls @ [(t, d')]) (us @ fst (step K obj t d') # vs) (snd (step K obj t d')))) \<and>
    (\<exists>ls' ts' d''. crun K obj ts d' ls' ts' d'' \<and> length ts' = length ts \<and> list_all stopped ts' \<and>
       lock_free d'') \<and>
    (timely ls \<and> list_all stopped ts \<longrightarrow>
      (\<exists>m. mon_run (filter (\<lambda>c. \<not> lock_call c) (trace d')) mon0 = Some m \<and>
         {i. m_irps m i \<noteq> None} = {PENDING_IRP d'} - {null_ptr}))"
proof (intro conjI)
  have K: "key_names_valid K" using assms(1) by (simp add: shared_kernel_ok_def)
  have inv0: "lock_inv [] d" by (rule driver_ok_lock [OF assms(3)])
  have inv: "lock_inv ts d'" by (rule crun_lock [OF assms(4) inv0 K])
  show "length ls \<le> 15 * length ts" using crun_bound(2) [OF assms(4)] by simp
  show "length (concat (map guards ts)) \<le> 1" "lock_free d' \<longleftrightarrow> concat (map guards ts) = []"
    using inv unfolding lock_inv_def by blast+
  show "list_all stopped ts \<or>
      (\<exists>us t vs. ts = us @ t # vs \<and> \<not> stopped t \<and>
         crun K obj [] d (ls @ [(t, d')]) (us @ fst (step K obj t d') # vs) (snd (step K obj t d')))"
    by (rule crun_enabled [OF assms(4) inv0 K])
  obtain ls' ts' d'' where r: "crun K obj ts d' ls' ts' d''" "length ts' = length ts" "list_all stopped ts'"
    using crun_completes [OF inv K] by blast
  moreover have "lock_free d''" by (rule lock_inv_stopped [OF crun_lock [OF r(1) inv K] r(3)])
  ultimately show "\<exists>ls' ts' d''. crun K obj ts d' ls' ts' d'' \<and> length ts' = length ts \<and>
      list_all stopped ts' \<and> lock_free d''" by blast
  show "timely ls \<and> list_all stopped ts \<longrightarrow>
      (\<exists>m. mon_run (filter (\<lambda>c. \<not> lock_call c) (trace d')) mon0 = Some m \<and>
         {i. m_irps m i \<noteq> None} = {PENDING_IRP d'} - {null_ptr})"
    using crun_ok [OF assms(4) driver_ok_threads [OF assms(3)] assms(1,2)] stopped_requests by blast
qed

theorem threads_always_finish_witness:
  "lock_free sample_pair \<and>
    (\<exists>m. mon_run (filter (\<lambda>c. \<not> lock_call c) (trace sample_pair)) mon0 = Some m \<and>
       {i. m_irps m i \<noteq> None} = {PENDING_IRP sample_pair} - {null_ptr}) \<and>
    (\<exists>ls' ts' d''. crun sample_kernel sample_wired [Begin (ThreadNotify 7 9 0)] sample_loaded ls' ts' d'' \<and>
       length ts' = 1 \<and> list_all stopped ts' \<and> lock_free d'')"
proof -
  have l: "driver_ok sample_loaded" "wired sample_wired"
    using loads_ok [OF sample_loads] sample_kernel_ok by (simp_all add: kernel_ok_def)
  obtain ls where ls: "crun sample_kernel sample_wired [] sample_loaded ls [Done, Done] sample_pair" "timely ls"
    by (rule sample_crun)
  have "crun sample_kernel sample_wired [] sample_loaded [] ([] @ [Begin (ThreadNotify 7 9 0)])
      (arrives (ThreadNotify 7 9 0) sample_loaded)"
    by (intro crun.arrival crun.start) (simp_all add: valid_input_def input_irps_def)
  then have "crun sample_kernel sample_wired [] sample_loaded [] [Begin (ThreadNotify 7 9 0)] sample_loaded"
    by (simp add: arrives_def)
  note one = threads_always_finish [OF sample_shared_kernel_ok l(2,1) this]
  note two = threads_always_finish [OF sample_shared_kernel_ok l(2,1) ls(1)]
  have "lock_free sample_pair" using two by simp
  moreover have "\<exists>m. mon_run (filter (\<lambda>c. \<not> lock_call c) (trace sample_pair)) mon0 = Some m \<and>
      {i. m_irps m i \<noteq> None} = {PENDING_IRP sample_pair} - {null_ptr}"
    using two ls(2) by simp
  moreover have "\<exists>ls' ts' d''. crun sample_kernel sample_wired [Begin (ThreadNotify 7 9 0)] sample_loaded ls' ts' d'' \<and>
      length ts' = 1 \<and> list_all stopped ts' \<and> lock_free d''"
    using one by simp
  ultimately show ?thesis by blast
qed

text \<open>
  C37. The run the other properties leave out. A request arrives at an idle driver and is parked; before
  its thread marks it pending, a thread notification on another processor builds an event, finds the parked
  request and completes it. Up to there every use of the kernel is allowed; the next step of the first
  thread marks an IRP the driver no longer owns. Had the notification come later, the same thread would have
  marked an IRP it owns.
\<close>

theorem mark_irp_pending_after_completion:
  assumes "driver_ok d" "pool_fresh K" "queue_list d = []" "PENDING_IRP d = null_ptr" "wired obj"
    and "i \<noteq> null_ptr" "unat (OutputBufferLength r) \<le> len" "IoControlCode r = IOCTL_WEDR_GET_EVENT"
    and "parked = device_control_park K i (irp_arrives i r len d)"
    and "fst (alloc_event_for K ThreadExitEvent (event_type_u16 ThreadExit) parked) \<noteq> null_ptr"
    and "d' = thread_notify K process_id thread_id 0 parked"
  shows "\<exists>ls. crun K obj [] d ls [Fetch i G_mark, Done] d' \<and> timely ls \<and> mon_of d' \<noteq> None \<and>
    step K obj (Fetch i G_mark) d' = (Done, mark_irp_pending i d') \<and>
    mon_of (mark_irp_pending i d') = None \<and> mon_of (mark_irp_pending i parked) \<noteq> None"
proof -
  note w = race_window [OF assms(1-4,6-8) refl assms(9,10), of process_id thread_id, folded assms(11)]
  have free: "lock_free d" using driver_ok_lock [OF assms(1)] by (simp add: lock_inv_def)
  obtain l1 where l1: "crun K obj [] d l1 [Fetch i G_mark] parked" "timely l1"
    using parking_run [OF assms(3-9) free] by blast
  let ?x = "ThreadNotify process_id thread_id 0"
  have "crun K obj [] d l1 ([Fetch i G_mark] @ [Begin ?x]) (arrives ?x parked)"
    using l1(1) by (rule crun.arrival) (simp_all add: valid_input_def input_irps_def)
  then have a: "crun K obj [] d l1 ([Fetch i G_mark] @ Begin ?x # []) parked" by (simp add: arrives_def)
  have "lock_free parked"
    by (simp add: assms(9) device_control_park_def SpinLockGuard_drop_def lock_free_def log_call_def split_beta Let_def)
  then have inv: "lock_inv ([Fetch i G_mark] @ Begin ?x # []) parked"
    by (simp add: lock_inv_def planned_def input_ok_def)
  obtain l2 where l2: "crun K obj ([Fetch i G_mark] @ Begin ?x # []) parked l2 ([Fetch i G_mark] @ Done # [])
      (run_alone K obj (Begin ?x) parked)" "timely l2"
    by (rule crun_alone_exit [OF refl _ inv]) (use assms(10) in \<open>simp_all add: fst_alloc_event_for\<close>)
  have "run_alone K obj (Begin ?x) parked = d'"
    using alone_handles [of ?x parked K obj] by (simp add: valid_input_def arrives_def handle_input_def assms(11))
  then have "crun K obj [] d (l1 @ l2) [Fetch i G_mark, Done] d'" using crun_trans [OF a l2(1)] by simp
  then show ?thesis using w l1(2) l2(2) by (intro exI [of _ "l1 @ l2"]) (simp add: get_step_def)
qed

theorem mark_irp_pending_after_completion_witness:
  "\<exists>ls d'. crun sample_kernel sample_wired [] sample_driver ls [Fetch 5 G_mark, Done] d' \<and>
    mon_of d' \<noteq> None \<and> mon_of (mark_irp_pending 5 d') = None"
proof -
  have w: "wired sample_wired" using loads_ok(3) [OF sample_loads] sample_kernel_ok by (simp add: kernel_ok_def)
  have p: "queue_list sample_driver = []" "PENDING_IRP sample_driver = null_ptr" "(5 :: nat) \<noteq> null_ptr"
    "unat (OutputBufferLength (irps sample_driver 5)) \<le> 0x4000"
    "IoControlCode (irps sample_driver 5) = IOCTL_WEDR_GET_EVENT"
    by (simp_all add: sample_driver_def initial_driver_def queue_list_def ioctl_value)
  show ?thesis
    using mark_irp_pending_after_completion [OF sample_driver_ok sample_pool_fresh(1) p(1,2) w p(3-5) refl
        sample_alloc(1) refl, of 7 9] by blast
qed

end
