(* ===== verification/Edr_Wire.thy ===== *)
theory Edr_Wire
  imports Edr_Concurrent
begin

text \<open>
  What the agent can rely on when it parses a reply. The bytes of an event are well typed when they have
  the size of one of the packed structures and begin with a header that says so. The header is written
  before the fields, so this needs that no callback writes into the header afterwards, and that no other
  thread reaches the block before it is submitted.
\<close>

section \<open>Well-typed bytes\<close>

definition event_types :: "EventType list" where
  "event_types =
    [ProcessCreate, ProcessExit, ImageLoad, RegistryModify, ThreadCreate, ThreadExit, ProcessHandleAccess]"

lemma event_types_all [simp]: "ty \<in> set event_types"
  by (cases ty) (simp_all add: event_types_def)

definition header_for :: "EventType \<Rightarrow> event_header \<Rightarrow> bool" where
  "header_for ty h \<longleftrightarrow> version h = EVENT_VERSION \<and> htype h = event_type_u16 ty \<and>
    hsize h = of_nat (size_of (event_layout ty))"

definition as_block :: "u8 list \<Rightarrow> block" where
  "as_block bs = (\<lambda>i. if i < length bs then bs ! i else 0)"

definition typed_event :: "u8 list \<Rightarrow> bool" where
  "typed_event bs \<longleftrightarrow> list_ex (\<lambda>ty. length bs = size_of (event_layout ty) \<and>
    header_for ty (read_header (as_block bs))) event_types"

lemma event_sizes: "24 \<le> size_of (event_layout ty)" "size_of (event_layout ty) < 2 ^ 32"
  by (cases ty; simp)+

lemma read_header_prefix:
  assumes "24 \<le> n"
  shows "read_header (as_block (read_at 0 n b)) = read_header b"
proof -
  have "read_at k m (as_block (read_at 0 n b)) = read_at k m b" if "k + m \<le> 24" for k m
    using that assms by (intro nth_equalityI) (auto simp: read_at_def as_block_def)
  then show ?thesis by (simp add: read_header_def get_u16_def get_u32_def get_u64_def get_field_def layout_simps)
qed

lemma event_bytes_typed:
  assumes "header_for ty (read_header (heap d p))" "sz = of_nat (size_of (event_layout ty))"
  shows "typed_event (event_bytes p sz d)"
proof -
  have "unat sz = size_of (event_layout ty)" using assms(2) event_sizes(2) [of ty] by (simp add: unat_size_of)
  then show ?thesis using assms(1) event_sizes(1) [of ty]
    by (auto simp: typed_event_def list_ex_iff event_bytes_def read_header_prefix intro!: bexI [of _ ty])
qed

section \<open>Callbacks leave the header alone\<close>

text \<open>The contract of a callback with the header: an \<open>event_filler\<close> for the structure of its event type.\<close>

locale header_keeper = event_filler lay valid fill
  for lay :: layout and valid :: bool and fill :: "ptr \<Rightarrow> driver \<Rightarrow> driver" +
  fixes ty :: EventType
  assumes own_layout: "lay = event_layout ty"
    and keeps_header: "valid \<Longrightarrow> read_header (heap (fill p d) p) = read_header (heap d p)"
begin

lemma filled_header: "valid \<Longrightarrow> header_for ty (read_header (heap d p)) \<Longrightarrow>
  header_for ty (read_header (heap (fill p d) p))"
  by (simp add: keeps_header)

lemma filled_typed:
  assumes valid "header_for ty (read_header (heap d p))"
  shows "typed_event (event_bytes p (of_nat (size_of lay)) (fill p d))"
  using filled_header [OF assms] by (rule event_bytes_typed) (simp add: own_layout)

end

lemma put_keeps_header [simp]:
  "24 \<le> off \<Longrightarrow> 24 \<le> off' \<Longrightarrow> read_header (put_string off off' cap src b) = read_header b"
  "24 \<le> off \<Longrightarrow> 24 \<le> off' \<Longrightarrow> read_header (put_units off off' us b) = read_header b"
  "read_header (put_preview info b) = read_header b"
  by (simp_all add: put_string_def put_units_def put_preview_def)

interpretation process_exit_wire: header_keeper ProcessExitEvent True "fill_process_exit K pid process" ProcessExit
  for K pid process
  by unfold_locales (simp_all add: fill_process_exit_def Let_def, simp add: ProcessExitEvent_def EventHeader_def)

interpretation process_create_wire:
  header_keeper ProcessCreateEvent "create_info_valid info" "fill_process_create pid info" ProcessCreate
  for pid info
  by unfold_locales (simp_all add: heap_fill_process_create)

interpretation image_load_wire:
  header_keeper ImageLoadEvent "pus_valid name" "fill_image_load pid name info" ImageLoad
  for pid name info
  by unfold_locales (simp_all add: heap_fill_image_load put_image_info_def split: option.split)

interpretation thread_create_wire: header_keeper ThreadCreateEvent True "fill_thread_create K pid tid" ThreadCreate
  for K pid tid
  by unfold_locales (simp_all add: fill_thread_create_def, simp add: ThreadCreateEvent_def EventHeader_def)

interpretation thread_exit_wire: header_keeper ThreadExitEvent True "fill_thread_exit pid tid" ThreadExit
  for pid tid
  by unfold_locales (simp_all add: fill_thread_exit_def, simp add: ThreadExitEvent_def EventHeader_def)

interpretation handle_access_wire:
  header_keeper ProcessHandleAccessEvent True "fill_handle_access source target desired original op" ProcessHandleAccess
  for source target desired original op
  by unfold_locales (simp_all add: fill_handle_access_def, simp add: ProcessHandleAccessEvent_def EventHeader_def)

interpretation registry_wire:
  header_keeper RegistryEvent "reg_arg_valid argument1 arg \<and> us = copied 512 (reg_path K arg d0)"
    "planned_fill K arg (padded 512 us) (length us)" RegistryModify
  for argument1 arg us K d0
proof unfold_locales
  fix p d
  assume v: "reg_arg_valid argument1 arg \<and> us = copied 512 (reg_path K arg d0)"
  then have "event_filler RegistryEvent True (planned_fill K arg (padded 512 us) (length us))"
    using planned_filler path_fits_copied by blast
  then show "fills p (size_of RegistryEvent) d (planned_fill K arg (padded 512 us) (length us) p d)"
    using event_filler.fill_fills by blast
  show "read_header (heap (planned_fill K arg (padded 512 us) (length us) p d) p) = read_header (heap d p)"
  proof (cases "has_info arg")
    case True
    have "read_header (preview_field arg b) = read_header b" "read_header (value_name_field arg b) = read_header b"
      "read_header (set_value_fields arg b) = read_header b" for b
      by (cases arg; simp add: preview_field_def value_name_field_def set_value_fields_def)+
    then show ?thesis
      by (simp only: heap_planned_fill [OF conjunct1 [OF v] True conjunct2 [OF v], of p d]) simp
  next
    case False
    then show ?thesis by (cases arg) (simp_all add: has_info_def planned_fill_def)
  qed
qed simp_all

section \<open>Threads keep their events well typed\<close>

text \<open>What a thread knows about the event it is building.\<close>

definition emit_typed :: "layout \<Rightarrow> EventType \<Rightarrow> filler \<Rightarrow> emit_pc \<Rightarrow> driver \<Rightarrow> bool" where
  "emit_typed lay ty fill e d \<longleftrightarrow> header_keeper lay True fill ty \<and>
    (case e of
       E_header p h \<Rightarrow> header_for ty h
     | E_fill p \<Rightarrow> header_for ty (read_header (heap d p))
     | _ \<Rightarrow> True)"

definition submit_typed :: "ptr \<Rightarrow> u32 \<Rightarrow> submit_pc \<Rightarrow> driver \<Rightarrow> bool" where
  "submit_typed p sz s d =
    (case s of
       S_acquire \<Rightarrow> typed_event (event_bytes p sz d)
     | S_take q \<Rightarrow> typed_event (event_bytes p sz d)
     | S_push q \<Rightarrow> typed_event (event_bytes p sz d)
     | _ \<Rightarrow> True)"

definition typed :: "pc \<Rightarrow> driver \<Rightarrow> bool" where
  "typed t d =
    (case t of
       Emit lay ty fill e \<Rightarrow> emit_typed lay ty fill e d
     | Send p sz s \<Rightarrow> submit_typed p sz s d
     | _ \<Rightarrow> True)"

lemmas typed_defs = typed_def emit_typed_def submit_typed_def

lemma header_keeper_valid: "header_keeper lay valid fill ty \<Longrightarrow> valid \<Longrightarrow> header_keeper lay True fill ty"
  by (metis header_keeper_def header_keeper_axioms_def event_filler_valid)

lemma plan_keeps_header:
  assumes K: "key_names_valid K" and x: "input_ok x" and p: "plan K x d = (Some (lay, ty, fill), d')"
  shows "header_keeper lay True fill ty"
proof -
  note keepers = process_exit_wire.header_keeper_axioms thread_create_wire.header_keeper_axioms
    thread_exit_wire.header_keeper_axioms handle_access_wire.header_keeper_axioms
    header_keeper_valid [OF process_create_wire.header_keeper_axioms]
    header_keeper_valid [OF image_load_wire.header_keeper_axioms]
  show ?thesis
  proof (cases x)
    case (RegistryNotify a arg)
    obtain f d1 where r: "registry_plan K arg d = (f, d1)" by (cases "registry_plan K arg d")
    have v: "reg_arg_valid a arg" using x RegistryNotify by (simp add: input_ok_def)
    show ?thesis using p RegistryNotify r registry_plan_spec(2) [OF K v r]
        header_keeper_valid [OF registry_wire.header_keeper_axioms, OF conjI [OF v refl]]
      by (auto simp: plan_def split: if_splits)
  next
    case (ProcessNotify process pid ci)
    then show ?thesis using p x keepers
      by (cases ci) (auto simp: plan_def input_ok_def process_info_valid_def)
  next
    case (ObjectNotify info)
    then show ?thesis using p keepers by (auto simp: plan_def)
  qed (use p x keepers in \<open>auto simp: plan_def input_ok_def split: if_splits\<close>)
qed

lemma emit_step_typed:
  assumes "emit_typed lay ty fill e d" "emit_step K lay ty fill e d = (t', d')"
  shows "typed t' d'"
proof -
  have k: "header_keeper lay True fill ty" using assms(1) by (simp add: emit_typed_def)
  show ?thesis
  proof (cases e)
    case E_alloc
    then show ?thesis using assms(2) k
      by (cases "fst (alloc_event K (of_nat (size_of lay)) d) = null_ptr")
        (auto simp: emit_step_def typed_defs Let_def split_beta)
  next
    case (E_truncs p ts n)
    then show ?thesis using assms(2) k header_keeper.own_layout [OF k]
      by (auto simp: emit_step_def typed_defs header_for_def)
  next
    case (E_header p h)
    then show ?thesis using assms k
      by (auto simp: emit_step_def typed_defs read_header_write)
  next
    case (E_fill p)
    then show ?thesis using assms header_keeper.filled_typed [OF k TrueI]
      by (auto simp: emit_step_def typed_defs)
  qed (use assms(2) k in \<open>auto simp: emit_step_def typed_defs\<close>)
qed

lemma submit_step_typed:
  assumes "submit_typed p sz s d" "submit_step K p sz s d = (t', d')"
  shows "typed t' d'"
  using assms by (cases s) (auto simp: submit_step_def typed_defs SpinLockGuard_acquire_def take_pending_def
      event_bytes_def Let_def split_beta)

lemma step_typed:
  assumes "key_names_valid K" "relies t d" "typed t d" "step K obj t d = (t', d')"
  shows "typed t' d'"
proof (cases t)
  case (Begin x)
  show ?thesis
  proof (cases "\<exists>major i r len. x = IrpNotify major i r len")
    case True
    then show ?thesis using assms(4) Begin
      by (auto simp: begin_step_def typed_def split: option.splits dispatch_routine.splits)
  next
    case False
    obtain pl d1 where p: "plan K x d = (pl, d1)" by (cases "plan K x d")
    have ok: "input_ok x" using assms(2) Begin by (simp add: relies_def)
    show ?thesis using assms(4) Begin plan_keeps_header [OF assms(1) ok] p
      by (auto simp: begin_eq [OF False p] typed_defs split: option.splits)
  qed
next
  case (Emit lay ty fill e)
  then show ?thesis using emit_step_typed [of lay ty fill e d K t' d'] assms by (simp add: typed_def)
next
  case (Send p sz s)
  then show ?thesis using submit_step_typed [of p sz s d K t' d'] assms by (simp add: typed_def)
next
  case (Fetch i g)
  then show ?thesis using assms(4)
    by (cases g) (auto simp: get_step_def typed_def Let_def split_beta)
next
  case (Clean i c)
  then show ?thesis using assms(4)
    by (cases c) (auto simp: cleanup_step_def typed_def take_pending_def split: if_splits)
qed (use assms in \<open>simp_all add: typed_def\<close>)

lemma typed_stable:
  assumes "typed u d" "\<And>q. q \<in> fst ` set (blocks u) \<Longrightarrow> heap d' q = heap d q"
  shows "typed u d'"
proof (cases u)
  case (Emit lay ty fill e)
  then show ?thesis using assms by (cases e) (simp_all add: typed_defs)
next
  case (Send p sz s)
  then show ?thesis using assms by (cases s) (simp_all add: typed_defs event_bytes_def)
qed (simp_all add: typed_def)

lemma threads_step_typed:
  assumes inv: "threads_ok (us @ t # vs) d" and K: "shared_kernel_ok K" "wired obj"
    and timely: "\<not> late_mark t d" and st: "step K obj t d = (t', d')"
    and ty: "list_all (\<lambda>u. typed u d) (us @ t # vs)"
  shows "list_all (\<lambda>u. typed u d') (us @ t' # vs)"
proof -
  have K': "key_names_valid K" using K(1) by (simp add: shared_kernel_ok_def)
  have rt: "relies t d" using inv by (simp add: threads_ok_def)
  have "typed u d'" if u: "u \<in> set (us @ vs)" for u
  proof (rule typed_stable)
    show "typed u d" using ty u by (auto simp: list_all_iff)
    show "heap d' q = heap d q" if "q \<in> fst ` set (blocks u)" for q
      using step_keeps_others(1) [OF inv K timely st u that] .
  qed
  moreover have "typed t' d'" using step_typed [OF K' rt _ st] ty by simp
  ultimately show ?thesis by (auto simp: list_all_iff)
qed

lemma crun_typed:
  assumes "crun K obj ts d ls ts' d'" "threads_ok ts d" "shared_kernel_ok K" "wired obj" "timely ls"
    and "list_all (\<lambda>u. typed u d) ts"
  shows "list_all (\<lambda>u. typed u d') ts' \<and> list_all (\<lambda>(t, e). typed t e) ls"
  using assms
proof (induction rule: crun.induct)
  case start
  then show ?case by simp
next
  case (arrival ls ts' d' x)
  have "heap (arrives x d') = heap d'" by (cases x) (simp_all add: arrives_def irp_arrives_def)
  then have "typed u (arrives x d')" if "u \<in> set ts'" for u
    using arrival.IH [OF arrival.prems] that typed_stable [of u d' "arrives x d'"] by (simp add: list_all_iff)
  then show ?case using arrival.IH [OF arrival.prems] by (simp add: list_all_iff) (simp add: typed_def)
next
  case (thread ls us t vs d' t' d'')
  then have "threads_ok (us @ t # vs) d'" "\<not> late_mark t d'" using crun_ok by auto
  from threads_step_typed [OF this(1) thread.prems(2,3) this(2) thread.hyps(4)] thread.IH thread.prems
  show ?case by (simp add: timely_def)
qed

lemma lin_typed:
  assumes "typed t d"
  shows "list_all typed_event (concat (map submitted (lin K obj t d)))"
proof (cases t)
  case (Begin x)
  then show ?thesis
    by (auto simp: lin_defs split: input.splits option.splits dispatch_routine.splits)
next
  case (Emit lay ty fill e)
  then show ?thesis by (cases e) (simp_all add: lin_defs)
next
  case (Send p sz s)
  then show ?thesis using assms by (cases s) (simp_all add: lin_def submit_lin_def typed_defs)
next
  case (Fetch i g)
  then show ?thesis by (cases g) (simp_all add: lin_defs)
next
  case (Clean i c)
  then show ?thesis by (cases c) (simp_all add: lin_defs)
qed (simp_all add: lin_def)

lemma lin_ops_typed:
  "list_all (\<lambda>(t, d). typed t d) ls \<Longrightarrow> list_all typed_event (concat (map submitted (lin_ops K obj ls)))"
  using lin_typed by (induction ls) (auto simp: lin_ops_def)

lemma subseq_set: "subseq xs ys \<Longrightarrow> set xs \<subseteq> set ys"
  by (auto elim: list_emb_set)

lemma events_of_mono: "set xs \<subseteq> set ys \<Longrightarrow> set (events_of xs) \<subseteq> set (events_of ys)"
  unfolding events_of_def by (simp only: set_filter set_map) blast

end
