(* ===== verification/Edr_Stages.thy ===== *)
theory Edr_Stages
  imports Edr_Wire
begin

text \<open>
  Loading and unloading while callbacks and requests are running. \<open>driver_entry\<close> and \<open>driver_unload\<close> are cut
  into their numbered stages, and between two stages the threads of notifications and requests that have
  arrived may take any number of steps. More arrivals are allowed than the kernel makes: a callback may
  arrive before it is registered. What is relied on is the documented behaviour of the removals: when the
  last of them has returned, no callback is running and none will be called, and the I/O manager unloads a
  driver only when no request is in flight.
\<close>

section \<open>Stages\<close>

text \<open>The next stage of \<open>driver_entry\<close> or \<open>driver_unload\<close>, with \<open>failed_count\<close>.\<close>

datatype phase =
    Register_process nat | Register_image nat | Register_registry nat | Register_thread nat
  | Register_object nat | Report nat
  | Running
  | Remove_object | Remove_thread | Remove_registry | Remove_image | Remove_process
  | Cancel | Drain | Delete | Unloaded

definition report :: "nat \<Rightarrow> driver \<Rightarrow> driver" where
  "report failed_count d = log_call (DbgPrint (if failed_count > 0 then ''[WazabiEDR] ready (degraded)''
     else ''[WazabiEDR] ready'')) d"

primrec advance :: "kernel \<Rightarrow> phase \<Rightarrow> driver \<Rightarrow> phase \<times> driver" where
  "advance K (Register_process n) d = (let (n, d) = register_process K (n, d) in (Register_image n, d))"
| "advance K (Register_image n) d = (let (n, d) = register_image K (n, d) in (Register_registry n, d))"
| "advance K (Register_registry n) d = (let (n, d) = register_registry K (n, d) in (Register_thread n, d))"
| "advance K (Register_thread n) d = (let (n, d) = register_thread K (n, d) in (Register_object n, d))"
| "advance K (Register_object n) d = (let (n, d) = register_object K (n, d) in (Report n, d))"
| "advance K (Report n) d = (Running, report n d)"
| "advance K Running d = (Remove_object, log_call (DbgPrint ''[WazabiEDR] DriverUnload - stopping'') d)"
| "advance K Remove_object d = (Remove_thread, unregister_object d)"
| "advance K Remove_thread d = (Remove_registry, unregister_thread d)"
| "advance K Remove_registry d = (Remove_image, unregister_registry d)"
| "advance K Remove_image d = (Remove_process, unregister_image d)"
| "advance K Remove_process d = (Cancel, unregister_process K d)"
| "advance K Cancel d = (Drain, cancel_pending d)"
| "advance K Drain d = (Delete, drain_queue K d)"
| "advance K Delete d =
     (Unloaded, log_call (DbgPrint ''[WazabiEDR] DriverUnload - bye'') (delete_device d))"
| "advance K Unloaded d = (Unloaded, d)"

text \<open>The stages before the first registration, when nobody else can run in the driver.\<close>

definition begin_load :: "kernel \<Rightarrow> driver \<Rightarrow> (u32 + unit) \<times> driver" where
  "begin_load K d =
    create_device K (log_call KeInitializeSpinLock (log_call (DbgPrint ''[WazabiEDR] DriverEntry called'') d))"

fun stages :: "nat \<Rightarrow> kernel \<Rightarrow> phase \<Rightarrow> driver \<Rightarrow> phase \<times> driver" where
  "stages 0 K ph d = (ph, d)"
| "stages (Suc n) K ph d = (let (ph, d) = advance K ph d in stages n K ph d)"

text \<open>With nothing in between, the stages are the two routines.\<close>

lemma stages_load_running: "fst (stages 6 K (Register_process 0) d) = Running"
  by (simp add: split_beta eval_nat_numeral)

lemma stages_load_run:
  assumes "begin_load K d = (Inr u, d1)"
  shows "driver_entry K obj d = (STATUS_SUCCESS, wire_dispatch obj, snd (stages 6 K (Register_process 0) d1))"
  using assms by (simp add: begin_load_def driver_entry_def Let_def split_beta report_def eval_nat_numeral)

lemma stages_load:
  assumes "begin_load K d = (Inr u, d1)"
  shows "driver_entry K obj d = (STATUS_SUCCESS, wire_dispatch obj, d') \<longleftrightarrow>
    stages 6 K (Register_process 0) d1 = (Running, d')"
  using stages_load_running [of K d1] by (auto simp: stages_load_run [OF assms] prod_eq_iff)

lemma stages_unload: "stages 9 K Running d = (Unloaded, driver_unload K d)"
  by (simp add: driver_unload_def unregister_callbacks_def Let_def eval_nat_numeral)

lemma load_fails:
  assumes "begin_load K d = (Inl status, d')"
  shows "driver_entry K obj d = (status, wire_dispatch obj, d')"
  using assms by (simp add: begin_load_def driver_entry_def Let_def)

section \<open>Runs with stages\<close>

definition active :: "phase \<Rightarrow> bool" where
  "active ph \<longleftrightarrow> ph \<notin> {Cancel, Drain, Delete, Unloaded}"

text \<open>
  The last removal returns when no callback is running, so that a callback that has panicked keeps it from
  returning; the rest of unloading is alone. The drain takes the spinlock and, like a thread, waits until it
  is free.
\<close>

definition settled :: "phase \<Rightarrow> pc list \<Rightarrow> bool" where
  "settled ph ts \<longleftrightarrow> active ph \<and> ph \<noteq> Remove_process \<or> ts = replicate (length ts) Done"

inductive life ::
  "kernel \<Rightarrow> driver_object \<Rightarrow> driver \<Rightarrow> (pc \<times> driver) list \<Rightarrow> phase \<Rightarrow> pc list \<Rightarrow> driver \<Rightarrow> bool"
  for K :: kernel and obj :: driver_object and d0 :: driver where
  loading: "life K obj d0 [] (Register_process 0) [] d0"
| stage: "life K obj d0 ls ph ts d \<Longrightarrow> settled ph ts \<Longrightarrow> (ph = Drain \<Longrightarrow> lock_free d) \<Longrightarrow>
    advance K ph d = (ph', d') \<Longrightarrow> life K obj d0 ls ph' ts d'"
| threads: "life K obj d0 ls ph ts d \<Longrightarrow> active ph \<Longrightarrow> crun K obj ts d ls' ts' d' \<Longrightarrow>
    life K obj d0 (ls @ ls') ph ts' d'"

text \<open>Where loading starts to be observable.\<close>

definition starts :: "kernel \<Rightarrow> driver_object \<Rightarrow> driver \<Rightarrow> bool" where
  "starts K obj d \<longleftrightarrow> (\<exists>obj0 buf hp ir. length (MajorFunction obj0) = 28 \<and> obj = wire_dispatch obj0 \<and>
    begin_load K (initial_driver buf hp ir) = (Inr (), d))"

section \<open>What a stage touches\<close>

definition stage_frame :: "driver \<Rightarrow> driver \<Rightarrow> bool" where
  "stage_frame d d' \<longleftrightarrow> heap d' = heap d \<and> irps d' = irps d \<and> QUEUE_BUF d' = QUEUE_BUF d \<and>
    QUEUE_HEAD d' = QUEUE_HEAD d \<and> QUEUE_TAIL d' = QUEUE_TAIL d \<and> QUEUE_LEN d' = QUEUE_LEN d \<and>
    PENDING_IRP d' = PENDING_IRP d \<and> DROP_COUNT d' = DROP_COUNT d \<and> TRUNC_COUNT d' = TRUNC_COUNT d \<and>
    filter lock_call (trace d') = filter lock_call (trace d) \<and> replies (trace d') = replies (trace d)"

lemma stage_frameD:
  assumes "stage_frame d d'"
  shows "heap d' = heap d" "irps d' = irps d" "PENDING_IRP d' = PENDING_IRP d" "queue_list d' = queue_list d"
    "DROP_COUNT d' = DROP_COUNT d" "filter lock_call (trace d') = filter lock_call (trace d)"
    "replies (trace d') = replies (trace d)"
  using assms queue_list_frame [of d' d] by (simp_all add: stage_frame_def)

lemmas register_defs = register_process_def register_image_def register_registry_def register_thread_def
  register_object_def

lemma advance_frame:
  assumes "active ph" "advance K ph d = (ph', d')"
  shows "stage_frame d d'"
proof -
  have "stage_frame d (snd (advance K ph d))"
    using assms(1)
    by (cases ph) (simp_all add: active_def stage_frame_def register_defs unregister_defs report_def Let_def
        split_beta log_call_def lock_call_def call_reply_def)
  then show ?thesis using assms(2) by simp
qed

text \<open>A stage asks the kernel at most once, so what it does to the trace without the lock is the same stage.\<close>

lemma unlocked_registers:
  "unlocked (snd (register_process K (n, d))) = snd (register_process
     (K\<lparr>ret_PsSetCreateProcessNotifyRoutineEx := \<lambda>h. ret_PsSetCreateProcessNotifyRoutineEx K (trace d)\<rparr>) (n, unlocked d))"
  "unlocked (snd (register_image K (n, d))) = snd (register_image
     (K\<lparr>ret_PsSetLoadImageNotifyRoutine := \<lambda>h. ret_PsSetLoadImageNotifyRoutine K (trace d)\<rparr>) (n, unlocked d))"
  "unlocked (snd (register_registry K (n, d))) = snd (register_registry
     (K\<lparr>ret_CmRegisterCallback := \<lambda>h. ret_CmRegisterCallback K (trace d)\<rparr>) (n, unlocked d))"
  "unlocked (snd (register_thread K (n, d))) = snd (register_thread
     (K\<lparr>ret_PsSetCreateThreadNotifyRoutine := \<lambda>h. ret_PsSetCreateThreadNotifyRoutine K (trace d)\<rparr>) (n, unlocked d))"
  "unlocked (snd (register_object K (n, d))) = snd (register_object
     (K\<lparr>ret_ObRegisterCallbacks := \<lambda>h. ret_ObRegisterCallbacks K (trace d)\<rparr>) (n, unlocked d))"
  by (simp_all add: register_defs unlocked_def log_call_def Let_def split_beta lock_call_def)

lemma unlocked_unregisters:
  "unlocked (unregister_object d) = unregister_object (unlocked d)"
  "unlocked (unregister_thread d) = unregister_thread (unlocked d)"
  "unlocked (unregister_registry d) = unregister_registry (unlocked d)"
  "unlocked (unregister_image d) = unregister_image (unlocked d)"
  "unlocked (unregister_process K d) = unregister_process
     (K\<lparr>ret_PsSetCreateProcessNotifyRoutineEx :=
        \<lambda>h. ret_PsSetCreateProcessNotifyRoutineEx K (trace d)\<rparr>) (unlocked d)"
  by (simp_all add: unregister_defs unlocked_def log_call_def Let_def lock_call_def)

lemma unlocked_finish:
  "unlocked (cancel_pending d) = cancel_pending (unlocked d)"
  "unlocked (delete_device d) = delete_device (unlocked d)"
  by (simp_all add: cancel_pending_def take_pending_def complete_irp_def delete_device_def unlocked_def
      log_call_def Let_def lock_call_def)

section \<open>The phase and the registrations\<close>

text \<open>What a phase knows to be unregistered, and from when on nothing is parked or queued.\<close>

primrec flags_ok :: "phase \<Rightarrow> driver \<Rightarrow> bool" where
  "flags_ok (Register_process n) d = unregistered d"
| "flags_ok (Register_image n) d \<longleftrightarrow> \<not> IMAGE_CALLBACK_REGISTERED d \<and> \<not> REGISTRY_CALLBACK_REGISTERED d \<and>
     \<not> THREAD_CALLBACK_REGISTERED d \<and> OBJECT_CALLBACK_HANDLE d = null_ptr"
| "flags_ok (Register_registry n) d \<longleftrightarrow> \<not> REGISTRY_CALLBACK_REGISTERED d \<and>
     \<not> THREAD_CALLBACK_REGISTERED d \<and> OBJECT_CALLBACK_HANDLE d = null_ptr"
| "flags_ok (Register_thread n) d \<longleftrightarrow> \<not> THREAD_CALLBACK_REGISTERED d \<and> OBJECT_CALLBACK_HANDLE d = null_ptr"
| "flags_ok (Register_object n) d \<longleftrightarrow> OBJECT_CALLBACK_HANDLE d = null_ptr"
| "flags_ok (Report n) d = True"
| "flags_ok Running d = True"
| "flags_ok Remove_object d = True"
| "flags_ok Remove_thread d \<longleftrightarrow> OBJECT_CALLBACK_HANDLE d = null_ptr"
| "flags_ok Remove_registry d \<longleftrightarrow> OBJECT_CALLBACK_HANDLE d = null_ptr \<and> \<not> THREAD_CALLBACK_REGISTERED d"
| "flags_ok Remove_image d \<longleftrightarrow> OBJECT_CALLBACK_HANDLE d = null_ptr \<and> \<not> THREAD_CALLBACK_REGISTERED d \<and>
     \<not> REGISTRY_CALLBACK_REGISTERED d"
| "flags_ok Remove_process d \<longleftrightarrow> OBJECT_CALLBACK_HANDLE d = null_ptr \<and> \<not> THREAD_CALLBACK_REGISTERED d \<and>
     \<not> REGISTRY_CALLBACK_REGISTERED d \<and> \<not> IMAGE_CALLBACK_REGISTERED d"
| "flags_ok Cancel d = unregistered d"
| "flags_ok Drain d \<longleftrightarrow> unregistered d \<and> PENDING_IRP d = null_ptr"
| "flags_ok Delete d \<longleftrightarrow> unregistered d \<and> PENDING_IRP d = null_ptr \<and> queue_list d = []"
| "flags_ok Unloaded d \<longleftrightarrow> unregistered d \<and> PENDING_IRP d = null_ptr \<and> queue_list d = []"

lemma flags_ok_registrations:
  "active ph \<Longrightarrow> registrations d' = registrations d \<Longrightarrow> flags_ok ph d' = flags_ok ph d"
  by (cases ph) (simp_all add: registrations_def unregistered_def active_def)

lemma advance_flags:
  assumes "active ph" "flags_ok ph d" "advance K ph d = (ph', d')"
  shows "flags_ok ph' d'" "CONTROL_DEVICE d' = CONTROL_DEVICE d" "ph' \<noteq> Unloaded"
proof -
  have "flags_ok (fst (advance K ph d)) (snd (advance K ph d)) \<and>
      CONTROL_DEVICE (snd (advance K ph d)) = CONTROL_DEVICE d \<and> fst (advance K ph d) \<noteq> Unloaded"
    using assms(1,2)
    by (cases ph) (simp_all add: active_def register_defs unregister_defs report_def Let_def split_beta log_call_def
        unregistered_def)
  then show "flags_ok ph' d'" "CONTROL_DEVICE d' = CONTROL_DEVICE d" "ph' \<noteq> Unloaded" using assms(3) by simp_all
qed

lemma advance_owns:
  assumes "active ph" "flags_ok ph d" "handles_valid K" "advance K ph d = (ph', d')"
    and own: "owns None bs iq (unlocked d)"
  shows "owns None bs iq (unlocked d')"
proof -
  have K: "handles_valid (K\<lparr>ret_ObRegisterCallbacks := \<lambda>h. ret_ObRegisterCallbacks K h'\<rparr>)" for h'
    using assms(3) by (simp add: handles_valid_def)
  have flags: "PROCESS_CALLBACK_REGISTERED (unlocked d) = PROCESS_CALLBACK_REGISTERED d"
    "IMAGE_CALLBACK_REGISTERED (unlocked d) = IMAGE_CALLBACK_REGISTERED d"
    "REGISTRY_CALLBACK_REGISTERED (unlocked d) = REGISTRY_CALLBACK_REGISTERED d"
    "THREAD_CALLBACK_REGISTERED (unlocked d) = THREAD_CALLBACK_REGISTERED d"
    "OBJECT_CALLBACK_HANDLE (unlocked d) = OBJECT_CALLBACK_HANDLE d" by (simp_all add: unlocked_def)
  note regs = register_process_owns [OF own] register_image_owns [OF own] register_registry_owns [OF own]
    register_thread_owns [OF own] register_object_owns [OF own _ K]
  note unregs = unregister_object_owns [OF own] unregister_thread_owns [OF own] unregister_registry_owns [OF own]
    unregister_image_owns [OF own] unregister_process_owns [OF own]
  have "owns None bs iq (unlocked (snd (advance K ph d)))"
    using assms(1,2) regs unregs owns_dbg_print [OF own]
    by (cases ph) (simp_all add: active_def split_beta unlocked_registers unlocked_unregisters report_def flags
        unregistered_def lock_call_def)
  then show ?thesis using assms(4) by simp
qed

section \<open>Threads leave the registrations alone\<close>

lemma step_registrations:
  assumes "key_names_valid K" "planned t" "step K obj t d = (t', d')"
  shows "registrations d' = registrations d"
proof (cases t)
  case (Begin x)
  show ?thesis
  proof (cases "\<exists>major i r len. x = IrpNotify major i r len")
    case True
    then show ?thesis using assms(3) Begin
      by (auto simp: begin_step_def registrations_def log_call_def split: option.splits dispatch_routine.splits)
  next
    case False
    obtain pl d1 where p: "plan K x d = (pl, d1)" by (cases "plan K x d")
    have ok: "input_ok x" using assms(2) Begin by (simp add: planned_def)
    show ?thesis using assms(3) Begin registrations_same [OF quietD(1) [OF plan_quiet(1) [OF assms(1) ok p]]]
      by (auto simp: begin_eq [OF False p] split: option.splits)
  qed
next
  case (Emit lay ty fill e)
  then have f: "event_filler lay True fill" using assms(2) by (simp add: planned_def)
  show ?thesis
    using Emit assms(3) registrations_fills [OF event_filler.fill_fills [OF f TrueI]]
      registrations_same [OF same_globals_alloc]
    by (cases e) (auto simp: emit_step_def Let_def split_beta,
      simp_all add: registrations_def zero_mem_def write_mem_def log_call_def)
next
  case (Send p sz s)
  then show ?thesis using assms(3)
    by (cases s) (auto simp: submit_step_def Let_def split_beta registrations_def SpinLockGuard_acquire_def
        SpinLockGuard_drop_def take_pending_def irp_op_defs free_pool_def bump_drop_def log_call_def frame_simps)
next
  case (Fetch i g)
  then show ?thesis using assms(3)
    by (cases g) (auto simp: get_step_def Let_def split_beta registrations_def SpinLockGuard_acquire_def
        SpinLockGuard_drop_def park_irp_def irp_op_defs free_pool_def bump_drop_def log_call_def frame_simps
        split: if_splits)
next
  case (Clean i c)
  then show ?thesis using assms(3)
    by (cases c) (auto simp: cleanup_step_def Let_def registrations_def take_pending_def irp_op_defs log_call_def)
qed (use assms in \<open>auto simp: registrations_def irp_op_defs log_call_def Let_def\<close>)

lemma crun_registrations:
  assumes "crun K obj ts d ls ts' d'" "lock_inv ts d" "key_names_valid K"
  shows "registrations d' = registrations d"
  using assms
proof (induction rule: crun.induct)
  case start
  then show ?case by simp
next
  case (arrival ls ts' d' x)
  then show ?case by (cases x) (simp_all add: arrives_def irp_arrives_def log_call_def registrations_def)
next
  case (thread ls us t vs d' t' d'')
  then have "lock_inv (us @ t # vs) d'" using crun_lock by blast
  then have "planned t" by (simp add: lock_inv_def)
  then have "registrations d'' = registrations d'" using step_registrations thread by blast
  then show ?case using thread by simp
qed

section \<open>The end of unloading\<close>

lemma threads_ok_done:
  "threads_ok (replicate n Done) d \<longleftrightarrow> owns None [] [] (unlocked d) \<and>
    mon_run (filter lock_call (trace d)) mon0 = Some mon0"
proof -
  have "concat (map f (replicate n Done)) = []" if "f Done = []" for f :: "pc \<Rightarrow> 'a list"
    using that by (induction n) simp_all
  then show ?thesis by (simp add: threads_ok_def list_all_iff relies_def lock_mon_def mon0_def)
qed

lemma lock_drain_loop:
  "\<exists>n. filter lock_call (trace (drain_loop d)) = filter lock_call (trace d) @ replicate n QueueAccess"
proof (induction d rule: drain_loop.induct)
  case (1 d)
  have tr: "filter lock_call (trace (snd (queue_pop_locked d))) = filter lock_call (trace d) @ [QueueAccess]"
    by (simp add: trace_pop)
  show ?case
  proof (cases "fst (queue_pop_locked d)")
    case None
    then have "drain_loop d = snd (queue_pop_locked d)" by (subst drain_loop.simps) (simp add: split_beta)
    then show ?thesis using tr by (intro exI [of _ 1]) simp
  next
    case (Some s)
    let ?d = "free_pool (data s) (snd (queue_pop_locked d))"
    have e: "drain_loop d = drain_loop ?d"
      using Some by (subst drain_loop.simps) (simp add: split_beta)
    obtain n where "filter lock_call (trace (drain_loop ?d)) = filter lock_call (trace ?d) @ replicate n QueueAccess"
      using 1 [of "Some s" "snd (queue_pop_locked d)" s] Some by (auto simp: prod_eq_iff)
    then show ?thesis using tr
      by (intro exI [of _ "Suc n"]) (simp add: e free_pool_def log_call_def)
  qed
qed

lemma drain_loop_frame:
  "queue_list (drain_loop d) = [] \<and> PENDING_IRP (drain_loop d) = PENDING_IRP d \<and>
   registrations (drain_loop d) = registrations d"
proof (induction d rule: drain_loop.induct)
  case (1 d)
  obtain r d1 where pop: "queue_pop_locked d = (r, d1)" by (cases "queue_pop_locked d")
  have f: "PENDING_IRP d1 = PENDING_IRP d" "registrations d1 = registrations d"
    using pop frame_simps by (metis snd_conv, simp add: registrations_def, metis frame_simps snd_conv)
  show ?case
  proof (cases r)
    case None
    then have "drain_loop d = d1" by (subst drain_loop.simps) (simp add: pop)
    moreover have "queue_list d1 = []" using pop None
      by (auto simp: queue_pop_locked_def queue_list_def Let_def log_call_def split: if_splits)
    ultimately show ?thesis using f by simp
  next
    case (Some s)
    then have e: "drain_loop d = drain_loop (free_pool (data s) d1)"
      by (subst drain_loop.simps) (simp add: pop)
    show ?thesis using 1 [OF pop [symmetric] Some] f
      by (simp add: e) (simp add: free_pool_def log_call_def registrations_def)
  qed
qed

lemma drain_loop_unlocked:
  "owns None bs iq (unlocked d) \<Longrightarrow> owns None bs iq (unlocked (drain_loop d))"
proof (induction d rule: drain_loop.induct)
  case (1 d)
  obtain r d1 where pop: "queue_pop_locked d = (r, d1)" by (cases "queue_pop_locked d")
  note own = pop_step_owns [OF 1(2) pop]
  show ?case
  proof (cases r)
    case None
    then have "drain_loop d = d1" by (subst drain_loop.simps) (simp add: pop)
    then show ?thesis using own None by simp
  next
    case (Some s)
    then have e: "drain_loop d = drain_loop (free_pool (data s) d1)"
      by (subst drain_loop.simps) (simp add: pop)
    have "owns None bs iq (free_pool (data s) (unlocked d1))"
      using own(1) Some by (intro owns_free_pool) (simp add: slot_block_def)
    then show ?thesis using 1(1) [OF pop [symmetric] Some] by (simp add: e)
  qed
qed

lemma drain_queue_frame:
  "queue_list (drain_queue K d) = []" "PENDING_IRP (drain_queue K d) = PENDING_IRP d"
  "registrations (drain_queue K d) = registrations d" "lock_free (drain_queue K d)"
  using drain_loop_frame [of "snd (SpinLockGuard_acquire K d)"]
  by (simp_all add: drain_queue_def SpinLockGuard_acquire_def SpinLockGuard_drop_def Let_def split_beta)
    (simp_all add: log_call_def registrations_def lock_free_def)

lemma drain_queue_unlocked:
  assumes "owns None bs iq (unlocked d)"
  shows "owns None bs iq (unlocked (drain_queue K d))"
    "mon_run (filter lock_call (trace d)) mon0 = Some mon0 \<Longrightarrow>
      mon_run (filter lock_call (trace (drain_queue K d))) mon0 = Some mon0"
proof -
  define q where "q = ret_KeAcquireSpinLockRaiseToDpc K (trace d)"
  define a where "a = log_call (KeAcquireSpinLockRaiseToDpc q) d"
  have e: "drain_queue K d = log_call (KeReleaseSpinLock q) (drain_loop a)"
    by (simp add: drain_queue_def SpinLockGuard_acquire_def SpinLockGuard_drop_def Let_def q_def a_def)
  have a: "owns None bs iq (unlocked a)" using assms by (simp add: a_def)
  note s = drain_loop_unlocked [OF a]
  show "owns None bs iq (unlocked (drain_queue K d))" using s by (simp add: e)
  have acc: "mon_run (replicate n QueueAccess) (mon0\<lparr>m_lock := Some q\<rparr>) = Some (mon0\<lparr>m_lock := Some q\<rparr>)" for n
    by (induction n) simp_all
  have reset: "mon0\<lparr>m_lock := None\<rparr> = mon0" and unheld: "m_lock mon0 = None" by (simp_all add: mon0_def)
  obtain n where "filter lock_call (trace (drain_loop a)) = filter lock_call (trace a) @ replicate n QueueAccess"
    using lock_drain_loop by blast
  then have "filter lock_call (trace (drain_queue K d)) =
      filter lock_call (trace d) @ KeAcquireSpinLockRaiseToDpc q # replicate n QueueAccess @ [KeReleaseSpinLock q]"
    by (simp add: e a_def)
  then show "mon_run (filter lock_call (trace (drain_queue K d))) mon0 = Some mon0"
    if "mon_run (filter lock_call (trace d)) mon0 = Some mon0"
    using that by (simp add: mon_run_append acc reset unheld)
qed

section \<open>The invariant of a whole life\<close>

definition life_ok :: "phase \<Rightarrow> pc list \<Rightarrow> driver \<Rightarrow> bool" where
  "life_ok ph ts d \<longleftrightarrow> threads_ok ts d \<and> flags_ok ph d \<and> (CONTROL_DEVICE d \<noteq> null_ptr \<longleftrightarrow> ph \<noteq> Unloaded) \<and>
    (active ph \<or> ts = replicate (length ts) Done)"

lemma threads_ok_stage:
  assumes inv: "threads_ok ts d" and fr: "stage_frame d d'"
    and own: "\<And>bs iq. owns None bs iq (unlocked d) \<Longrightarrow> owns None bs iq (unlocked d')"
  shows "threads_ok ts d'"
proof -
  have "relies t d'" if "t \<in> set ts" for t
  proof (rule relies_stable)
    show "relies t d" using inv that by (simp add: threads_ok_def list_all_iff)
  qed (simp_all add: stage_frameD [OF fr])
  then show ?thesis using inv own by (simp add: threads_ok_def list_all_iff stage_frameD [OF fr])
qed

lemma advance_active_ok:
  assumes inv: "life_ok ph ts d" and act: "active ph" and go: "settled ph ts" and K: "handles_valid K"
    and st: "advance K ph d = (ph', d')"
  shows "life_ok ph' ts d'"
proof -
  have ok: "threads_ok ts d" "flags_ok ph d" "CONTROL_DEVICE d \<noteq> null_ptr \<longleftrightarrow> ph \<noteq> Unloaded"
    using inv by (simp_all add: life_ok_def)
  note fl = advance_flags [OF act ok(2) st]
  have "threads_ok ts d'"
    using ok(1) advance_frame [OF act st] advance_owns [OF act ok(2) K st] by (rule threads_ok_stage)
  moreover have "ph = Remove_process" if "\<not> active ph'"
    using st act that by (cases ph) (auto simp: active_def split_beta)
  ultimately show ?thesis using fl ok(3) act go by (auto simp: life_ok_def settled_def active_def)
qed

lemma cancel_pending_frame:
  "PENDING_IRP (cancel_pending d) = null_ptr" "registrations (cancel_pending d) = registrations d"
  "filter lock_call (trace (cancel_pending d)) = filter lock_call (trace d)"
  by (simp_all add: cancel_pending_def take_pending_def complete_irp_def Let_def log_call_def registrations_def)

lemma unregistered_registrations: "registrations d' = registrations d \<Longrightarrow> unregistered d' = unregistered d"
  by (simp add: registrations_def unregistered_def)

lemma delete_device_unlocked:
  assumes own: "owns None [] [] (unlocked d)" and fl: "flags_ok Delete d" and dev: "CONTROL_DEVICE d \<noteq> null_ptr"
  shows "owns None [] [] (unlocked (delete_device d))" "CONTROL_DEVICE (delete_device d) = null_ptr"
    "flags_ok Unloaded (delete_device d)"
    "filter lock_call (trace (delete_device d)) = filter lock_call (trace d)"
proof -
  show "CONTROL_DEVICE (delete_device d) = null_ptr" "flags_ok Unloaded (delete_device d)"
    "filter lock_call (trace (delete_device d)) = filter lock_call (trace d)"
    using fl queue_list_frame [of "delete_device d" d]
    by (simp_all add: delete_device_def Let_def log_call_def lock_call_def unregistered_def)
  have "owns None [] [] (delete_device (unlocked d))"
    by (rule owns_unregister [OF own, where mupd = "\<lambda>m. m\<lparr>m_symlink := False, m_device := None\<rparr>" and
          cs = "[IoDeleteSymbolicLink (wstr16 SYMLINK_NAME), IoDeleteDevice (CONTROL_DEVICE (unlocked d))]"])
      (use dev in \<open>simp_all add: delete_device_def Let_def log_call_def regs_agree_def\<close>, simp_all add: unlocked_def)
  then show "owns None [] [] (unlocked (delete_device d))" by (simp add: unlocked_finish)
qed

lemma advance_last_ok:
  assumes inv: "life_ok ph ts d" and act: "\<not> active ph" and st: "advance K ph d = (ph', d')"
  shows "life_ok ph' ts d'"
proof -
  have ts: "ts = replicate (length ts) Done" using inv act by (simp add: life_ok_def)
  have own: "owns None [] [] (unlocked d)" and lk: "mon_run (filter lock_call (trace d)) mon0 = Some mon0"
    and fl: "flags_ok ph d" and dev: "CONTROL_DEVICE d \<noteq> null_ptr \<longleftrightarrow> ph \<noteq> Unloaded"
    using inv threads_ok_done [of "length ts" d] ts by (auto simp: life_ok_def)
  have "owns None [] [] (unlocked d') \<and> mon_run (filter lock_call (trace d')) mon0 = Some mon0 \<and>
      flags_ok ph' d' \<and> (CONTROL_DEVICE d' \<noteq> null_ptr \<longleftrightarrow> ph' \<noteq> Unloaded) \<and> \<not> active ph'"
  proof (cases ph)
    case Cancel
    then have e: "ph' = Drain" "d' = cancel_pending d" using st by simp_all
    have "CONTROL_DEVICE d' = CONTROL_DEVICE d" using cancel_pending_frame(2) [of d] by (simp add: e registrations_def)
    then show ?thesis
      using cancel_pending_spec(1) [OF own] cancel_pending_frame [of d] lk fl dev Cancel
        unregistered_registrations [of "cancel_pending d" d]
      by (simp add: e unlocked_finish active_def)
  next
    case Drain
    then have e: "ph' = Delete" "d' = drain_queue K d" using st by simp_all
    note q = drain_queue_unlocked [OF own, of K] and f = drain_queue_frame [of K d]
    have "CONTROL_DEVICE d' = CONTROL_DEVICE d" using f(3) by (simp add: e registrations_def)
    then show ?thesis
      using q(1) q(2) [OF lk] f(1,2) unregistered_registrations [OF f(3)] fl dev Drain by (simp add: e active_def)
  next
    case Delete
    then have e: "ph' = Unloaded" "d' = log_call (DbgPrint ''[WazabiEDR] DriverUnload - bye'') (delete_device d)"
      using st by simp_all
    have "CONTROL_DEVICE d \<noteq> null_ptr" using dev Delete by simp
    note q = delete_device_unlocked [OF own fl [unfolded Delete] this]
    show ?thesis
      using owns_dbg_print [OF q(1)] q lk by (simp add: e active_def) (simp add: log_call_def unregistered_def)
  next
    case Unloaded
    then show ?thesis using st own lk fl dev act by simp
  qed (use act in \<open>simp_all add: active_def\<close>)
  then show ?thesis using ts threads_ok_done [of "length ts" d'] by (simp add: life_ok_def)
qed

lemma begin_load_ok:
  assumes "starts K obj d" "handles_valid K"
  shows "life_ok (Register_process 0) [] d" "wired obj"
    "chan_of d = \<lparr>ch_queue = [], ch_waiting = None, ch_drops = 0\<rparr>" "replies (trace d) = []"
proof -
  obtain obj0 buf hp ir where l: "length (MajorFunction obj0) = 28" "obj = wire_dispatch obj0"
    "begin_load K (initial_driver buf hp ir) = (Inr (), d)"
    using assms(1) by (auto simp: starts_def)
  let ?i = "initial_driver buf hp ir"
  let ?d0 = "log_call KeInitializeSpinLock (log_call (DbgPrint ''[WazabiEDR] DriverEntry called'') ?i)"
  have cd: "create_device K ?d0 = (Inr (), d)" using l(3) by (simp add: begin_load_def)
  have "owns None [] [] (log_call (DbgPrint ''[WazabiEDR] DriverEntry called'') ?i)"
    using driver_ok_initial unfolding driver_ok_def by (rule owns_dbg_print)
  then have own0: "owns None [] [] ?d0" by (rule owns_call) auto
  have "CONTROL_DEVICE ?d0 = null_ptr" "unregistered ?d0"
    by (simp_all add: log_call_def initial_driver_def unregistered_def)
  note c = create_device_owns [OF own0 this(1) assms(2) cd] and un = this(2)
  have "driver_ok d" using c(1) by (simp add: driver_ok_def)
  then show "life_ok (Register_process 0) [] d"
    using driver_ok_threads c(2,3) un by (simp add: life_ok_def active_def)
  show "wired obj"
    using l(1,2) wire_dispatch_nth [of obj0] by (simp add: wired_def IRP_MJ_MAXIMUM_FUNCTION_def)
  have "channel_frame ?i ?d0"
    by (rule channel_frame_trans [OF channel_frame_log channel_frame_log]) (simp_all add: call_reply_def)
  then have "channel_frame ?i d" using channel_frame_create_device [of ?d0 K] channel_frame_trans cd by fastforce
  then show "chan_of d = \<lparr>ch_queue = [], ch_waiting = None, ch_drops = 0\<rparr>" "replies (trace d) = []"
    by (simp_all add: channel_frame_def) (simp_all add: chan_of_def initial_driver_def queue_list_def)
qed

lemma life_invariant:
  assumes "life K obj d0 ls ph ts d" "starts K obj d0" "shared_kernel_ok K" "timely ls"
  shows "life_ok ph ts d"
  using assms
proof (induction rule: life.induct)
  case loading
  then show ?case using begin_load_ok(1) by (simp add: shared_kernel_ok_def)
next
  case (stage ls ph ts d ph' d')
  then have inv: "life_ok ph ts d" "handles_valid K" by (simp_all add: shared_kernel_ok_def)
  then show ?case
    using advance_active_ok [OF inv(1) _ stage.hyps(2) inv(2) stage.hyps(4)] advance_last_ok [OF inv(1) _ stage.hyps(4)]
    by blast
next
  case (threads ls ph ts d ls' ts' d')
  then have inv: "life_ok ph ts d" "timely ls'" by simp_all
  have w: "wired obj" using begin_load_ok(2) threads.prems by (simp add: shared_kernel_ok_def)
  have ok: "threads_ok ts d" using inv(1) by (simp add: life_ok_def)
  note prems = threads.hyps(3) ok threads.prems(2) w inv(2)
  have "registrations d' = registrations d"
    using crun_registrations [OF threads.hyps(3) threads_ok_lock [OF ok]] threads.prems(2)
    by (simp add: shared_kernel_ok_def)
  then show ?case
    using inv(1) crun_ok [OF prems] threads.hyps(2) flags_ok_registrations [of ph d' d]
    by (simp add: life_ok_def) (simp add: registrations_def active_def)
qed

text \<open>
  What holds of the lock, the registrations and the teardown without any condition on the order of the steps:
  the lock agrees with the threads, and each phase of unloading finds done what the phases before it do.
\<close>

definition life_flow :: "phase \<Rightarrow> pc list \<Rightarrow> driver \<Rightarrow> bool" where
  "life_flow ph ts d \<longleftrightarrow> lock_inv ts d \<and> flags_ok ph d \<and> (ph = Unloaded \<longrightarrow> CONTROL_DEVICE d = null_ptr) \<and>
    (active ph \<or> ts = replicate (length ts) Done)"

lemma lock_inv_calls:
  assumes "filter lock_call (trace d') = filter lock_call (trace d)"
  shows "lock_inv ts d' = lock_inv ts d"
  using assms lock_after_filter [of False "trace d'"] lock_after_filter [of False "trace d"]
  by (simp add: lock_inv_def lock_free_def)

lemma lock_inv_done: "lock_inv (replicate n Done) d \<longleftrightarrow> lock_free d"
proof -
  have "concat (map guards (replicate n Done)) = []" by (induction n) simp_all
  then show ?thesis by (auto simp: lock_inv_def list_all_iff planned_def simp del: concat_eq_Nil_conv)
qed

lemma advance_last_flow:
  assumes inv: "life_flow ph ts d" and act: "\<not> active ph" and st: "advance K ph d = (ph', d')"
  shows "life_flow ph' ts d'"
proof -
  have ts: "ts = replicate (length ts) Done" and lk: "lock_inv ts d" and fl: "flags_ok ph d"
    and dev: "ph = Unloaded \<longrightarrow> CONTROL_DEVICE d = null_ptr"
    using inv act by (auto simp: life_flow_def)
  have "lock_inv ts d' \<and> flags_ok ph' d' \<and> (ph' = Unloaded \<longrightarrow> CONTROL_DEVICE d' = null_ptr)"
  proof (cases ph)
    case Cancel
    then show ?thesis
      using st cancel_pending_frame [of d] lk fl unregistered_registrations [of "cancel_pending d" d]
        lock_inv_calls [of "cancel_pending d" d] by auto
  next
    case Drain
    note f = drain_queue_frame [of K d]
    have "lock_inv ts (drain_queue K d)" using f(4) ts lock_inv_done [of "length ts" "drain_queue K d"] by metis
    then show ?thesis using Drain st f fl unregistered_registrations [OF f(3)] by auto
  next
    case Delete
    let ?d = "log_call (DbgPrint ''[WazabiEDR] DriverUnload - bye'') (delete_device d)"
    have "filter lock_call (trace ?d) = filter lock_call (trace d)"
      by (simp add: delete_device_def log_call_def lock_call_def Let_def)
    moreover have "queue_list ?d = queue_list d" by (rule queue_list_frame) (simp_all add: delete_device_def log_call_def Let_def)
    moreover have "unregistered ?d = unregistered d" "PENDING_IRP ?d = PENDING_IRP d" "CONTROL_DEVICE ?d = null_ptr"
      by (simp_all add: delete_device_def log_call_def Let_def unregistered_def)
    ultimately show ?thesis using Delete st fl lk lock_inv_calls [of ?d d] by auto
  next
    case Unloaded
    then show ?thesis using st lk fl dev by simp
  qed (use act in \<open>simp_all add: active_def\<close>)
  moreover have "\<not> active ph'" using st act by (cases ph) (auto simp: active_def)
  ultimately show ?thesis using ts by (simp add: life_flow_def)
qed

lemma starts_flow:
  assumes "starts K obj d"
  shows "life_flow (Register_process 0) [] d"
proof -
  obtain buf hp ir where "begin_load K (initial_driver buf hp ir) = (Inr (), d)"
    using assms by (auto simp: starts_def)
  then have d: "d = snd (begin_load K (initial_driver buf hp ir))" by simp
  show ?thesis
    by (simp add: d life_flow_def lock_inv_def lock_free_def begin_load_def create_device_def Let_def split_beta
        log_call_def initial_driver_def unregistered_def active_def)
qed

lemma life_flows:
  assumes "life K obj d0 ls ph ts d" "starts K obj d0" "key_names_valid K"
  shows "life_flow ph ts d"
  using assms
proof (induction rule: life.induct)
  case loading
  then show ?case by (simp add: starts_flow)
next
  case (stage ls ph ts d ph' d')
  then have inv: "life_flow ph ts d" by simp
  show ?case
  proof (cases "active ph")
    case True
    have fl: "flags_ok ph d" "lock_inv ts d" using inv by (simp_all add: life_flow_def)
    have "lock_inv ts d'"
      using fl(2) lock_inv_calls [OF stage_frameD(6) [OF advance_frame [OF True stage.hyps(4)]]] by simp
    moreover have "ph = Remove_process" if "\<not> active ph'"
      using stage.hyps(4) True that by (cases ph) (auto simp: active_def split_beta)
    ultimately show ?thesis
      using advance_flags [OF True fl(1) stage.hyps(4)] True stage.hyps(2)
      by (auto simp: life_flow_def settled_def)
  next
    case False
    then show ?thesis using advance_last_flow [OF inv _ stage.hyps(4)] by simp
  qed
next
  case (threads ls ph ts d ls' ts' d')
  then have inv: "life_flow ph ts d" by simp
  then have lk: "lock_inv ts d" by (simp add: life_flow_def)
  have "registrations d' = registrations d" by (rule crun_registrations [OF threads.hyps(3) lk threads.prems(2)])
  then show ?case
    using inv crun_lock [OF threads.hyps(3) lk threads.prems(2)] threads.hyps(2) flags_ok_registrations [of ph d' d]
    by (auto simp: life_flow_def active_def)
qed

text \<open>While threads run, a life is a run of the channel.\<close>

lemma stage_simulated:
  assumes fr: "stage_frame d d'"
  shows "simulated_run [] 0 ts d ts d'"
proof -
  have "promise t d' = promise t d \<and> uncounted t d' = uncounted t d" for t
    using promise_stable [of t d' d] by (simp add: stage_frameD [OF fr])
  then have "promises ts d' = promises ts d" "all_uncounted ts d' = all_uncounted ts d"
    by (simp_all add: promises_def all_uncounted_def)
  moreover have "core (chan_of d') = core (chan_of d)"
    by (rule core_frame) (simp_all add: stage_frameD [OF fr])
  ultimately show ?thesis by (simp add: simulated_run_def stage_frameD [OF fr])
qed

lemma active_before:
  assumes "advance K ph d = (ph', d')" "active ph'"
  shows "active ph"
  using assms by (cases ph) (auto simp: active_def)

lemma life_simulated:
  assumes "life K obj d0 ls ph ts d" "starts K obj d0" "shared_kernel_ok K" "timely ls" "active ph"
  shows "simulated_run (lin_ops K obj ls) (all_stamped ls) [] d0 ts d"
    "list_all (\<lambda>(t, e). relies t e \<and> typed t e) ls" "list_all (\<lambda>t. typed t d) ts"
proof -
  have "simulated_run (lin_ops K obj ls) (all_stamped ls) [] d0 ts d \<and>
      list_all (\<lambda>(t, e). relies t e \<and> typed t e) ls \<and> list_all (\<lambda>t. typed t d) ts"
    using assms
  proof (induction rule: life.induct)
    case loading
    then show ?case by (simp add: simulated_run_def lin_ops_def all_stamped_def)
  next
    case (stage ls ph ts d ph' d')
    have act: "active ph" using stage.hyps(4) stage.prems(4) by (rule active_before)
    note fr = advance_frame [OF act stage.hyps(4)] and ih = stage.IH [OF stage.prems(1-3) act]
    have "typed t d'" if "t \<in> set ts" for t
      using ih that typed_stable [of t d d'] by (simp add: list_all_iff stage_frameD [OF fr])
    then show ?case
      using ih simulated_run_trans [OF _ stage_simulated [OF fr]] by (fastforce simp: list_all_iff)
  next
    case (threads ls ph ts d ls' ts' d')
    then have ih: "simulated_run (lin_ops K obj ls) (all_stamped ls) [] d0 ts d"
      "list_all (\<lambda>(t, e). relies t e \<and> typed t e) ls" "list_all (\<lambda>t. typed t d) ts" and t: "timely ls'"
      by simp_all
    have "life_ok ph ts d" using life_invariant threads by simp
    then have ok: "threads_ok ts d" by (simp add: life_ok_def)
    have w: "wired obj" using begin_load_ok(2) threads.prems by (simp add: shared_kernel_ok_def)
    note prems = threads.hyps(3) ok threads.prems(2) w t
    have "lin_ops K obj (ls @ ls') = lin_ops K obj ls @ lin_ops K obj ls'"
      "all_stamped (ls @ ls') = all_stamped ls + all_stamped ls'" by (simp_all add: lin_ops_def all_stamped_def)
    then show ?case
      using simulated_run_trans [OF ih(1) crun_simulated [OF prems]] crun_typed [OF prems ih(3)]
        crun_relies [OF prems] ih(2) by (auto simp: list_all_iff)
  qed
  then show "simulated_run (lin_ops K obj ls) (all_stamped ls) [] d0 ts d"
    "list_all (\<lambda>(t, e). relies t e \<and> typed t e) ls" "list_all (\<lambda>t. typed t d) ts" by simp_all
qed

end
