(* ===== verification/Edr_Reported.thy ===== *)
theory Edr_Reported
  imports Edr_Wire
begin

text \<open>
  How losses reach the agent. A loss is added to \<open>DROP_COUNT\<close>; the next event to be stamped takes the count
  into its header and sets it back to zero. From then on the count travels with the event: in the hands of
  the thread that builds it, then wherever the event goes.
\<close>

section \<open>Counts that travel\<close>

definition header_drops :: "u8 list \<Rightarrow> u32" where
  "header_drops e = drop_count (read_header (as_block e))"

text \<open>The count a thread has taken and not yet submitted.\<close>

definition emit_carries :: "emit_pc \<Rightarrow> driver \<Rightarrow> u32" where
  "emit_carries e d =
    (case e of
       E_truncs p ts n \<Rightarrow> n
     | E_header p h \<Rightarrow> drop_count h
     | E_fill p \<Rightarrow> drop_count (read_header (heap d p))
     | _ \<Rightarrow> 0)"

definition submit_carries :: "ptr \<Rightarrow> u32 \<Rightarrow> submit_pc \<Rightarrow> driver \<Rightarrow> u32" where
  "submit_carries p sz s d =
    (case s of
       S_acquire \<Rightarrow> header_drops (event_bytes p sz d)
     | S_take q \<Rightarrow> header_drops (event_bytes p sz d)
     | S_push q \<Rightarrow> header_drops (event_bytes p sz d)
     | _ \<Rightarrow> 0)"

definition carries :: "pc \<Rightarrow> driver \<Rightarrow> u32" where
  "carries t d =
    (case t of
       Emit lay ty fill e \<Rightarrow> emit_carries e d
     | Send p sz s \<Rightarrow> submit_carries p sz s d
     | _ \<Rightarrow> 0)"

lemmas carries_defs = carries_def emit_carries_def submit_carries_def

definition all_carried :: "pc list \<Rightarrow> driver \<Rightarrow> u32" where
  "all_carried ts d = sum_list (map (\<lambda>t. carries t d) ts)"

definition sent_drops :: "chan_op list \<Rightarrow> u32" where
  "sent_drops ops = sum_list (map header_drops (concat (map submitted ops)))"

lemma sent_drops_append [simp]: "sent_drops (xs @ ys) = sent_drops xs + sent_drops ys"
  by (simp add: sent_drops_def)

lemma header_drops_bytes: "24 \<le> unat sz \<Longrightarrow> header_drops (event_bytes p sz d) = drop_count (read_header (heap d p))"
  by (simp add: header_drops_def event_bytes_def read_header_prefix)

section \<open>Each step\<close>

lemma emit_step_carries:
  assumes "emit_typed lay ty fill e d" "emit_step K lay ty fill e d = (t', d')"
  shows "carries t' d' = emit_carries e d + stamped (Emit lay ty fill e) d"
proof -
  have k: "header_keeper lay True fill ty" using assms(1) by (simp add: emit_typed_def)
  show ?thesis
  proof (cases e)
    case E_alloc
    then show ?thesis using assms(2)
      by (cases "fst (alloc_event K (of_nat (size_of lay)) d) = null_ptr")
        (auto simp: emit_step_def carries_defs stamped_def Let_def split_beta)
  next
    case (E_header p h)
    then show ?thesis using assms by (auto simp: emit_step_def carries_defs stamped_def read_header_write)
  next
    case (E_fill p)
    have "unat (of_nat (size_of lay) :: u32) = size_of lay"
      using header_keeper.own_layout [OF k] event_sizes(2) by (simp add: unat_size_of)
    then have "24 \<le> unat (of_nat (size_of lay) :: u32)"
      using header_keeper.own_layout [OF k] event_sizes(1) by simp
    then show ?thesis using assms(2) E_fill header_keeper.keeps_header [OF k TrueI]
      by (auto simp: emit_step_def carries_defs stamped_def header_drops_bytes)
  qed (use assms(2) in \<open>auto simp: emit_step_def carries_defs stamped_def\<close>)
qed

lemma submit_step_carries:
  assumes "submit_step K p sz s d = (t', d')"
  shows "carries t' d' + sent_drops (submit_lin p sz s d) = submit_carries p sz s d"
proof (cases s)
  case (S_take q)
  then show ?thesis using assms
    by (cases "PENDING_IRP d = null_ptr")
      (auto simp: submit_step_def submit_lin_def carries_defs sent_drops_def take_pending_def event_bytes_def)
qed (use assms in \<open>auto simp: submit_step_def submit_lin_def carries_defs sent_drops_def event_bytes_def
      SpinLockGuard_acquire_def Let_def split_beta\<close>)

lemma step_carries:
  assumes "typed t d" "step K obj t d = (t', d')"
  shows "carries t' d' + sent_drops (lin K obj t d) = carries t d + stamped t d"
proof (cases t)
  case (Begin x)
  then show ?thesis using assms(2)
    by (auto simp: begin_step_def carries_defs stamped_def lin_def begin_lin_def sent_drops_def
        split: input.splits option.splits dispatch_routine.splits prod.splits)
next
  case (Emit lay ty fill e)
  then have "sent_drops (lin K obj t d) = 0"
    by (cases e) (simp_all add: lin_def emit_lin_def sent_drops_def)
  then show ?thesis using Emit assms emit_step_carries [of lay ty fill e d K t' d']
    by (simp add: typed_def) (simp add: carries_def)
next
  case (Send p sz s)
  then show ?thesis using assms(2) submit_step_carries [of K p sz s d t' d']
    by (simp add: lin_def stamped_def) (simp add: carries_def)
next
  case (Fetch i g)
  then have "sent_drops (lin K obj t d) = 0" by (cases g) (simp_all add: lin_def get_lin_def sent_drops_def)
  then show ?thesis using Fetch assms(2)
    by (cases g) (auto simp: get_step_def carries_def stamped_def Let_def split_beta)
next
  case (Clean i c)
  then show ?thesis using assms(2)
    by (cases c) (auto simp: cleanup_step_def carries_def stamped_def lin_def sent_drops_def take_pending_def split: if_splits)
qed (use assms in \<open>auto simp: carries_def stamped_def lin_def sent_drops_def\<close>)

section \<open>Whole runs\<close>

lemma carries_stable:
  assumes "\<And>q. q \<in> fst ` set (blocks u) \<Longrightarrow> heap d' q = heap d q"
  shows "carries u d' = carries u d"
proof (cases u)
  case (Emit lay ty fill e)
  then show ?thesis using assms by (cases e) (simp_all add: carries_defs)
next
  case (Send p sz s)
  then show ?thesis using assms by (cases s) (simp_all add: carries_defs event_bytes_def)
qed (simp_all add: carries_def)

lemma carry_over:
  fixes X Y S A B :: u32
  assumes "X + c = Y + c'" "c' + s = c + st" "Y + S = B + A"
  shows "X + (S + s) = B + (A + st)"
proof -
  have "X + (S + s) + (c + c') = (X + c) + S + (c' + s)" by (simp add: algebra_simps)
  also have "\<dots> = (Y + S) + st + (c + c')" unfolding assms(1,2) by (simp add: algebra_simps)
  also have "\<dots> = B + (A + st) + (c + c')" unfolding assms(3) by (simp add: algebra_simps)
  finally show ?thesis by (simp only: add_right_cancel)
qed

lemma crun_carries:
  assumes "crun K obj ts d ls ts' d'" "threads_ok ts d" "shared_kernel_ok K" "wired obj" "timely ls"
    and "list_all (\<lambda>u. typed u d) ts"
  shows "all_carried ts' d' + sent_drops (lin_ops K obj ls) = all_carried ts d + all_stamped ls"
  using assms
proof (induction rule: crun.induct)
  case start
  then show ?case by (simp add: lin_ops_def sent_drops_def all_stamped_def)
next
  case (arrival ls ts' d' x)
  have "heap (arrives x d') = heap d'" by (cases x) (simp_all add: arrives_def irp_arrives_def)
  then have "carries u (arrives x d') = carries u d'" for u
    using carries_stable [of u "arrives x d'" d'] by simp
  moreover have "carries (Begin x) d' = 0" by (simp add: carries_def)
  ultimately have "all_carried (ts' @ [Begin x]) (arrives x d') = all_carried ts' d'" by (simp add: all_carried_def)
  then show ?case using arrival by simp
next
  case (thread ls us t vs d' t' d'')
  have t: "timely ls" "\<not> late_mark t d'" using thread.prems(4) by simp_all
  note prems = thread.hyps(1) thread.prems(1-3) t(1)
  have ok: "threads_ok (us @ t # vs) d'" using crun_ok [OF prems] .
  have "typed t d'" using crun_typed [OF prems thread.prems(5)] by simp
  note one = step_carries [OF this thread.hyps(4)]
  have "carries u d'' = carries u d'" if "u \<in> set (us @ vs)" for u
    using step_keeps_others(1) [OF ok thread.prems(2,3) t(2) thread.hyps(4) that] by (rule carries_stable)
  then have "all_carried (us @ t' # vs) d'' + carries t d' = all_carried (us @ t # vs) d' + carries t' d''"
    by (simp add: all_carried_def cong: map_cong)
  moreover have "sent_drops (lin_ops K obj (ls @ [(t, d')])) = sent_drops (lin_ops K obj ls) + sent_drops (lin K obj t d')"
    "all_stamped (ls @ [(t, d')]) = all_stamped ls + stamped t d'"
    by (simp_all add: lin_ops_def all_stamped_def)
  moreover have "all_carried (us @ t # vs) d' + sent_drops (lin_ops K obj ls) = all_carried ts d + all_stamped ls"
    using thread.IH thread.prems t by blast
  ultimately show ?case using carry_over [OF _ one] by simp
qed

end
