(* ===== verification/Edr_Life.thy ===== *)
theory Edr_Life
  imports Edr_Stages Edr_Reported
begin

text \<open>
  The driver from loading to unloading under any interleaving: what holds in every state on the way, what
  the agent receives, what the loss counters report, and that unloading gives everything back. Most of it holds as
  long as no request has been marked pending after its completion (\<open>timely\<close>): a defect of the driver, shown in
  \<open>Edr_Concurrent\<close>, makes such runs possible, and nothing is claimed of them from the late mark on.
\<close>

section \<open>Every state on the way\<close>

lemma threads_ok_safe:
  assumes ok: "threads_ok ts d"
  obtains m where "mon_run (filter (\<lambda>c. \<not> lock_call c) (trace d)) mon0 = Some m"
    "m_live m = map_of (concat (map blocks ts) @ queue_blocks d)"
    "distinct (map fst (concat (map blocks ts) @ queue_blocks d))"
    "{i. m_irps m i \<noteq> None} = set (concat (map hand ts)) \<union> ({PENDING_IRP d} - {null_ptr})"
    "distinct (concat (map hand ts))" "PENDING_IRP d \<notin> set (concat (map hand ts))"
    "no_loans m" "regs_agree m d" "ring_ok d" "PENDING_IRP d = null_ptr \<or> queue_list d = []"
proof -
  have "owns None (concat (map blocks ts)) (concat (map hand ts)) (unlocked d)"
    using ok by (simp add: threads_ok_def)
  then obtain m where m: "ring_ok d" "mon_run (filter (\<lambda>c. \<not> lock_call c) (trace d)) mon0 = Some m"
    "no_loans m" "regs_agree m (unlocked d)" "blocks_owned (concat (map blocks ts)) m (unlocked d)"
    "irps_owned (concat (map hand ts)) m (unlocked d)"
    by (rule ownsE) (simp add: mon_of_def)
  have q: "queue_blocks (unlocked d) = queue_blocks d" by (simp add: queue_blocks_def)
  show thesis
  proof (rule that [OF m(2)])
    show "m_live m = map_of (concat (map blocks ts) @ queue_blocks d)"
      "distinct (map fst (concat (map blocks ts) @ queue_blocks d))"
      using m(5) unfolding blocks_owned_def q by blast+
    show "{i. m_irps m i \<noteq> None} = set (concat (map hand ts)) \<union> ({PENDING_IRP d} - {null_ptr})"
      "distinct (concat (map hand ts))" "PENDING_IRP d \<notin> set (concat (map hand ts))"
      "PENDING_IRP d = null_ptr \<or> queue_list d = []"
      using m(6) unfolding irps_owned_def unlocked_simps by blast+
    show "regs_agree m d" using m(4) by (simp add: regs_agree_def unlocked_def)
  qed (rule m(3), rule m(1))
qed

section \<open>The channel of a life\<close>

lemma life_channel:
  assumes K: "shared_kernel_ok K" and l: "starts K obj d0" "life K obj d0 ls ph ts d" "timely ls" "active ph"
    and c: "c = \<lparr>ch_queue = [], ch_waiting = None, ch_drops = 0\<rparr>" and r: "r = chan_run (lin_ops K obj ls) c"
  shows "ch_queue (chan_of d) = ch_queue (fst r)" "ch_waiting (chan_of d) = ch_waiting (fst r)"
    "mset (replies (trace d)) + promises ts d = mset (snd r)"
    "DROP_COUNT d + of_nat (all_uncounted ts d) + all_stamped ls = of_nat (lost (lin_ops K obj ls) c)"
    "subseq (events_of (snd r) @ ch_queue (fst r)) (concat (map submitted (lin_ops K obj ls)))"
    "length (concat (map submitted (lin_ops K obj ls))) =
      length (events_of (snd r)) + length (ch_queue (fst r)) + counted (lin_ops K obj ls) c"
proof -
  have "handles_valid K" using K by (simp add: shared_kernel_ok_def)
  note idle = begin_load_ok(3,4) [OF l(1) this]
  note s = life_simulated [OF l(2,1) K l(3,4)]
  have d: "DROP_COUNT d0 = 0" using idle(1) by (simp add: chan_of_def)
  have ok: "chan_ok c" by (simp add: c chan_ok_def)
  show "ch_queue (chan_of d) = ch_queue (fst r)" "ch_waiting (chan_of d) = ch_waiting (fst r)"
    "mset (replies (trace d)) + promises ts d = mset (snd r)"
    using s(1) by (simp_all add: simulated_run_def core_def idle r c promises_def)
  show "DROP_COUNT d + of_nat (all_uncounted ts d) + all_stamped ls = of_nat (lost (lin_ops K obj ls) c)"
    using s(1) by (simp add: simulated_run_def idle r c d all_uncounted_def)
  show "subseq (events_of (snd r) @ ch_queue (fst r)) (concat (map submitted (lin_ops K obj ls)))"
    using chan_run_order [OF ok, of "lin_ops K obj ls"] by (simp add: r c)
  have "list_all (\<lambda>(t, e). relies t e) ls" using s(2) by (auto simp: list_all_iff)
  then show "length (concat (map submitted (lin_ops K obj ls))) =
      length (events_of (snd r)) + length (ch_queue (fst r)) + counted (lin_ops K obj ls) c"
    using chan_run_conservation [OF ok, of "lin_ops K obj ls"] lin_ops_nonempty [of ls K obj]
    by (simp add: r c del: set_concat)
qed

lemma life_typed:
  assumes "shared_kernel_ok K" "starts K obj d0" "life K obj d0 ls ph ts d" "timely ls" "active ph"
  shows "list_all typed_event (concat (map submitted (lin_ops K obj ls)))"
proof -
  have "list_all (\<lambda>(t, e). typed t e) ls"
    using life_simulated(2) [OF assms(3,2,1,4,5)] by (auto simp: list_all_iff)
  then show ?thesis by (rule lin_ops_typed)
qed

lemma carry_join:
  fixes a b :: u32
  assumes "a + s = A" "b + s' = a + B"
  shows "b + (s + s') = A + B"
proof -
  have "b + (s + s') = (b + s') + s" by (simp only: ac_simps)
  also have "\<dots> = (a + s) + B" unfolding assms(2) by (simp only: ac_simps)
  finally show ?thesis unfolding assms(1) .
qed

lemma life_carries:
  assumes "life K obj d0 ls ph ts d" "starts K obj d0" "shared_kernel_ok K" "timely ls" "active ph"
  shows "all_carried ts d + sent_drops (lin_ops K obj ls) = all_stamped ls"
  using assms
proof (induction rule: life.induct)
  case loading
  then show ?case by (simp add: all_carried_def lin_ops_def sent_drops_def all_stamped_def)
next
  case (stage ls ph ts d ph' d')
  have act: "active ph" using stage.hyps(4) stage.prems(4) by (rule active_before)
  have "carries t d' = carries t d" for t
    using carries_stable [of t d' d] by (simp add: stage_frameD [OF advance_frame [OF act stage.hyps(4)]])
  then have "all_carried ts d' = all_carried ts d" by (simp add: all_carried_def)
  then show ?case using stage act by simp
next
  case (threads ls ph ts d ls' ts' d')
  have t: "timely ls" "timely ls'" using threads.prems(3) by simp_all
  have "life_ok ph ts d" using life_invariant [OF threads.hyps(1) threads.prems(1,2) t(1)] .
  then have ok: "threads_ok ts d" by (simp add: life_ok_def)
  have w: "wired obj" using begin_load_ok(2) threads.prems by (simp add: shared_kernel_ok_def)
  have ty: "list_all (\<lambda>u. typed u d) ts"
    using life_simulated(3) [OF threads.hyps(1) threads.prems(1,2) t(1) threads.prems(4)] .
  have "lin_ops K obj (ls @ ls') = lin_ops K obj ls @ lin_ops K obj ls'"
    "all_stamped (ls @ ls') = all_stamped ls + all_stamped ls'" by (simp_all add: lin_ops_def all_stamped_def)
  moreover have "all_carried ts d + sent_drops (lin_ops K obj ls) = all_stamped ls" using threads t by simp
  moreover have "all_carried ts' d' + sent_drops (lin_ops K obj ls') = all_carried ts d + all_stamped ls'"
    using crun_carries [OF threads.hyps(3) ok threads.prems(2) w t(2) ty] .
  ultimately show ?case using carry_join [of "all_carried ts d"] by simp
qed

text \<open>What a subsequence leaves out, and the counts it leaves out with it.\<close>

lemma subseq_rest_ex: "subseq xs ys \<Longrightarrow> \<exists>zs. mset ys = mset xs + mset zs"
proof (induction rule: list_emb.induct)
  case (list_emb_Cons xs ys y)
  then obtain zs where "mset ys = mset xs + mset zs" by blast
  then have "mset (y # ys) = mset xs + mset (y # zs)" by simp
  then show ?case by (rule exI)
qed (auto intro: exI)

lemma subseq_rest:
  assumes "subseq xs ys"
  obtains zs where "mset ys = mset xs + mset zs" "length ys = length xs + length zs"
proof -
  obtain zs where zs: "mset ys = mset xs + mset zs" using subseq_rest_ex [OF assms] by blast
  moreover have "length ys = length xs + length zs" using arg_cong [OF zs, of size] by simp
  ultimately show thesis by (rule that)
qed

lemma sum_header_drops:
  assumes "mset ys = mset xs + mset zs"
  shows "sum_list (map header_drops ys) = sum_list (map header_drops xs) + sum_list (map header_drops zs)"
proof -
  have "sum_list (map header_drops us) = (\<Sum>e \<in># mset us. header_drops e)" for us
    by (simp flip: sum_mset_sum_list)
  then show ?thesis by (simp add: assms)
qed

section \<open>The cookie of the registry callback\<close>

text \<open>The key object of an operation on an open key.\<close>

definition opened_key :: "reg_argument \<Rightarrow> ptr option" where
  "opened_key arg =
    (case arg of SetValueArg i \<Rightarrow> Some (sv_Object i) | DeleteValueArg i \<Rightarrow> Some (dv_Object i)
     | DeleteKeyArg i \<Rightarrow> Some (dk_Object i) | RenameKeyArg i \<Rightarrow> Some (rk_Object i) | _ \<Rightarrow> None)"

definition before_cookie :: "phase \<Rightarrow> bool" where
  "before_cookie ph =
    (case ph of Register_process n \<Rightarrow> True | Register_image n \<Rightarrow> True | Register_registry n \<Rightarrow> True | _ \<Rightarrow> False)"

lemma life_cookie:
  assumes "life K obj d0 ls ph ts d" "starts K obj d0" "key_names_valid K" "before_cookie ph"
  shows "REGISTRY_CALLBACK_COOKIE d = 0"
  using assms
proof (induction rule: life.induct)
  case loading
  then obtain buf hp ir where "begin_load K (initial_driver buf hp ir) = (Inr (), d0)" by (auto simp: starts_def)
  then have "d0 = snd (begin_load K (initial_driver buf hp ir))" by simp
  then show ?case
    by (simp add: begin_load_def create_device_def Let_def split_beta log_call_def initial_driver_def)
next
  case (stage ls ph ts d ph' d')
  have "before_cookie ph \<and> REGISTRY_CALLBACK_COOKIE d' = REGISTRY_CALLBACK_COOKIE d"
    using stage.hyps(4) stage.prems(3)
    by (cases ph) (auto simp: before_cookie_def register_process_def register_image_def Let_def log_call_def
        split: if_splits prod.splits)
  then show ?case using stage by simp
next
  case (threads ls ph ts d ls' ts' d')
  have "lock_inv ts d" using life_flows [OF threads.hyps(1) threads.prems(1,2)] by (simp add: life_flow_def)
  from crun_registrations [OF threads.hyps(3) this threads.prems(2)] show ?case
    using threads by (simp add: registrations_def)
qed

lemma life_no_cookie:
  "life K obj d0 ls (Register_registry n) ts d \<Longrightarrow> starts K obj d0 \<Longrightarrow> key_names_valid K \<Longrightarrow>
   REGISTRY_CALLBACK_COOKIE d = 0"
  by (erule life_cookie) (simp_all add: before_cookie_def)

section \<open>Towards the end\<close>

lemma done_free: "life_flow ph ts d \<Longrightarrow> ts = replicate (length ts) Done \<Longrightarrow> lock_free d"
  using lock_inv_done [of "length ts" d] by (simp add: life_flow_def)

lemma life_stages:
  assumes "starts K obj d0" "key_names_valid K"
  shows "life K obj d0 ls ph ts d \<Longrightarrow> ts = replicate (length ts) Done \<Longrightarrow> stages n K ph d = (ph', d') \<Longrightarrow>
    life K obj d0 ls ph' ts d'"
proof (induction n arbitrary: ph d)
  case (Suc n)
  obtain ph1 d1 where a: "advance K ph d = (ph1, d1)" by (cases "advance K ph d")
  have "lock_free d" by (rule done_free [OF life_flows [OF Suc.prems(1) assms] Suc.prems(2)])
  then have "life K obj d0 ls ph1 ts d1"
    using Suc.prems(2) a by (intro life.stage [OF Suc.prems(1)]) (simp_all add: settled_def)
  then show ?case using Suc a by simp
qed simp

lemma life_alone: "life K obj d0 ls ph ts d \<Longrightarrow> \<not> active ph \<Longrightarrow> ts = replicate (length ts) Done"
proof (induction rule: life.induct)
  case (stage ls ph ts d ph' d')
  then show ?case by (cases ph) (auto simp: settled_def active_def split: prod.splits)
qed (simp_all add: active_def)

primrec stages_left :: "phase \<Rightarrow> nat" where
  "stages_left (Register_process n) = 15" | "stages_left (Register_image n) = 14"
| "stages_left (Register_registry n) = 13" | "stages_left (Register_thread n) = 12"
| "stages_left (Register_object n) = 11" | "stages_left (Report n) = 10" | "stages_left Running = 9"
| "stages_left Remove_object = 8" | "stages_left Remove_thread = 7" | "stages_left Remove_registry = 6"
| "stages_left Remove_image = 5" | "stages_left Remove_process = 4" | "stages_left Cancel = 3"
| "stages_left Drain = 2" | "stages_left Delete = 1" | "stages_left Unloaded = 0"

lemma advance_stages_left: "stages_left (fst (advance K ph d)) = stages_left ph - 1"
  by (cases ph) (simp_all add: split_beta)

lemma stages_unloaded: "fst (stages (stages_left ph) K ph d) = Unloaded"
proof (induction "stages_left ph" arbitrary: ph d)
  case 0
  then show ?case by (cases ph) simp_all
next
  case (Suc n)
  have "stages_left (fst (advance K ph d)) = n" using advance_stages_left [of K ph d] Suc(2) by simp
  then have "fst (stages n K (fst (advance K ph d)) (snd (advance K ph d))) = Unloaded" using Suc(1) by metis
  then show ?case unfolding Suc(2) [symmetric] by (simp add: split_beta)
qed

section \<open>A concrete life\<close>

text \<open>The driver loads, two threads exit at the same time, and the driver is unloaded.\<close>

definition sample_started :: driver where
  "sample_started = snd (begin_load sample_kernel sample_driver)"

lemma sample_begin_load: "begin_load sample_kernel sample_driver = (Inr (), sample_started)"
proof -
  have "\<not> nt_error 0" by (simp add: nt_error_def)
  then have "fst (begin_load sample_kernel sample_driver) = Inr ()"
    by (simp add: begin_load_def create_device_def sample_kernel_def Let_def)
  then show ?thesis by (simp add: prod_eq_iff sample_started_def)
qed

lemma sample_starts [simp]: "starts sample_kernel sample_wired sample_started"
  unfolding starts_def
  by (rule exI [of _ sample_object], intro exI conjI, simp add: sample_object_def, rule sample_wired_def)
    (rule sample_begin_load [unfolded sample_driver_def])

lemma sample_life:
  obtains ls where "life sample_kernel sample_wired sample_started ls Running [Done, Done] sample_pair" "timely ls"
proof -
  let ?life = "life sample_kernel sample_wired sample_started"
  have "stages 6 sample_kernel (Register_process 0) sample_started = (Running, sample_loaded)"
    using stages_load [OF sample_begin_load, of sample_object sample_loaded] sample_driver_entry
    by (simp add: sample_wired_def)
  from life_stages [OF sample_starts sample_key_names_valid life.loading _ this] have l: "?life [] Running [] sample_loaded" by simp
  obtain ls where ls: "crun sample_kernel sample_wired [] sample_loaded ls [Done, Done] sample_pair" "timely ls"
    by (rule sample_crun)
  have "?life ([] @ ls) Running [Done, Done] sample_pair"
    using l _ ls(1) by (rule life.threads) (simp add: active_def)
  then show thesis using ls(2) that by simp
qed

lemma sample_unloaded:
  obtains ls where "life sample_kernel sample_wired sample_started ls Unloaded [Done, Done]
    (driver_unload sample_kernel sample_pair)" "timely ls"
proof -
  obtain ls where ls: "life sample_kernel sample_wired sample_started ls Running [Done, Done] sample_pair" "timely ls"
    by (rule sample_life)
  show thesis using that [OF life_stages [OF sample_starts sample_key_names_valid ls(1) _ stages_unload] ls(2)] by (simp add: eval_nat_numeral)
qed

lemma active_Running [simp]: "active Running"
  by (simp add: active_def)

section \<open>Properties\<close>

text \<open>
  C1. Safety from loading to unloading, up to the first late mark. In every state of every interleaving in which
  no request has yet been marked pending after its completion (runs that do so exist), between any two
  stages of \<open>driver_entry\<close> and \<open>driver_unload\<close> and with any number of callbacks and requests in the middle
  of their routines: every use of the kernel was allowed;
  the pool blocks held are exactly those in the hands of a thread and those in the queue, no block twice; the
  IRPs held are exactly those in the hands of a thread and the parked one, no IRP twice; the flags agree
  with what is registered; at most one thread has the spinlock, it was taken, used and released in turn, and
  no step of a thread that has it completed a request; the ring is well formed; and a request is parked only
  while the queue is empty.
\<close>

theorem lifecycle_safe:
  assumes "shared_kernel_ok K" "starts K obj d0" "life K obj d0 ls ph ts d" "timely ls"
  shows "\<exists>m. mon_run (filter (\<lambda>c. \<not> lock_call c) (trace d)) mon0 = Some m \<and>
    m_live m = map_of (concat (map blocks ts) @ queue_blocks d) \<and>
    distinct (map fst (concat (map blocks ts) @ queue_blocks d)) \<and>
    {i. m_irps m i \<noteq> None} = set (concat (map hand ts)) \<union> ({PENDING_IRP d} - {null_ptr}) \<and>
    distinct (concat (map hand ts)) \<and> PENDING_IRP d \<notin> set (concat (map hand ts)) \<and>
    no_loans m \<and> regs_agree m d \<and>
    length (concat (map guards ts)) \<le> 1 \<and>
    mon_run (filter lock_call (trace d)) mon0 = Some (lock_mon (concat (map guards ts))) \<and>
    list_all (\<lambda>(t, e). guards t = [] \<or> replies (trace (snd (step K obj t e))) = replies (trace e)) ls \<and>
    ring_ok d \<and> (PENDING_IRP d = null_ptr \<or> queue_list d = [])"
proof -
  have ok: "threads_ok ts d" using life_invariant [OF assms(3,2,1,4)] by (simp add: life_ok_def)
  have "guards t = [] \<or> replies (trace (snd (step K obj t e))) = replies (trace e)" for t e
    using holder_completes_nothing [OF _ prod.collapse [symmetric], of t K obj e] by blast
  then have "list_all (\<lambda>(t, e). guards t = [] \<or> replies (trace (snd (step K obj t e))) = replies (trace e)) ls"
    unfolding list_all_iff by (simp only: split_beta) blast
  with ok show ?thesis by (rule_tac threads_ok_safe [OF ok]) (unfold threads_ok_def, blast)
qed

theorem lifecycle_safe_witness:
  "\<exists>m. mon_run (filter (\<lambda>c. \<not> lock_call c) (trace sample_pair)) mon0 = Some m \<and>
    m_live m = map_of (queue_blocks sample_pair) \<and> regs_agree m sample_pair \<and>
    mon_run (filter lock_call (trace sample_pair)) mon0 = Some mon0"
proof -
  obtain ls where ls: "life sample_kernel sample_wired sample_started ls Running [Done, Done] sample_pair" "timely ls"
    by (rule sample_life)
  have "mon0\<lparr>m_lock := None\<rparr> = mon0" by (simp add: mon0_def)
  then show ?thesis
    using lifecycle_safe [OF sample_shared_kernel_ok sample_starts ls] by (auto simp: lock_mon_def)
qed

text \<open>
  C2. Linearizability. From loading until the last callback has been removed, whatever callbacks are registered at
  the time, in every interleaving in which no request has been marked pending after its completion, the
  driver is the channel: the steps in which a submission takes the parked request or pushes, a request pops
  or parks, and a cleanup takes the parked request, in the order they happened, are a run of the channel that
  ends with the same queue and the same parked request. The replies given and the replies promised by threads
  on their way are those of the channel; its events, followed by the queued ones, are a subsequence of the
  events submitted.
\<close>

theorem concurrent_linearizable:
  assumes "shared_kernel_ok K" "starts K obj d0" "life K obj d0 ls ph ts d" "timely ls" "active ph"
    and "(c, rs) = chan_run (lin_ops K obj ls) \<lparr>ch_queue = [], ch_waiting = None, ch_drops = 0\<rparr>"
  shows "ch_queue (chan_of d) = ch_queue c \<and> ch_waiting (chan_of d) = ch_waiting c \<and>
    mset (replies (trace d)) + promises ts d = mset rs \<and>
    subseq (events_of rs @ ch_queue c) (concat (map submitted (lin_ops K obj ls)))"
  using life_channel [OF assms(1-5) refl assms(6)] by simp

theorem concurrent_linearizable_witness:
  "\<exists>ls. life sample_kernel sample_wired sample_started ls Running [Done, Done] sample_pair \<and>
    mset (replies (trace sample_pair)) = mset (snd (chan_run (lin_ops sample_kernel sample_wired ls)
      \<lparr>ch_queue = [], ch_waiting = None, ch_drops = 0\<rparr>))"
proof -
  obtain ls where ls: "life sample_kernel sample_wired sample_started ls Running [Done, Done] sample_pair" "timely ls"
    by (rule sample_life)
  show ?thesis
    using ls(1) concurrent_linearizable [OF sample_shared_kernel_ok sample_starts ls active_Running prod.collapse]
      finished_promises(1) [of 2 sample_pair] by (intro exI [of _ ls]) (simp add: numeral_2_eq_2)
qed

text \<open>
  C3. Every loss is accounted for. From loading until the last callback has been removed, in every interleaving in
  which no request has been marked pending after its completion, every event submitted has been delivered or is
  about to be, or is queued, or is gone; and the counts carried by the headers of all of them, together with the
  counts threads have taken and not yet submitted, \<open>DROP_COUNT\<close> and what threads have still to count, sum
  up to the number of events gone and of failed allocations, up to the wrap-around of the counter. No
  increment is lost between the swap in one thread and the additions in the others; the only counts the agent
  never sees are those in the headers of events that are themselves gone.
\<close>

theorem losses_accounted:
  assumes "shared_kernel_ok K" "starts K obj d0" "life K obj d0 ls ph ts d" "timely ls" "active ph"
    and "ops = lin_ops K obj ls" "c = \<lparr>ch_queue = [], ch_waiting = None, ch_drops = 0\<rparr>"
    and "seen = events_of (snd (chan_run ops c)) @ ch_queue (chan_of d)"
  shows "\<exists>gone. mset (concat (map submitted ops)) = mset seen + mset gone \<and> length gone = counted ops c \<and>
    sum_list (map header_drops seen) + sum_list (map header_drops gone) + all_carried ts d +
      DROP_COUNT d + of_nat (all_uncounted ts d) =
      of_nat (length gone + length (filter (\<lambda>x. x = Lose) ops))"
proof -
  note ch = life_channel [OF assms(1-5,7) refl, folded assms(6)]
  have "subseq seen (concat (map submitted ops))" using ch(1,5) by (simp add: assms(8))
  then obtain gone where g: "mset (concat (map submitted ops)) = mset seen + mset gone"
    "length (concat (map submitted ops)) = length seen + length gone" by (rule subseq_rest)
  have n: "length gone = counted ops c"
    using g(2) ch(6) unfolding assms(8) length_append ch(1) by linarith
  have "sum_list (map header_drops seen) + sum_list (map header_drops gone) + all_carried ts d = all_stamped ls"
    using life_carries [OF assms(3,2,1,4,5)] sum_header_drops [OF g(1)] unfolding assms(6) sent_drops_def
    by (simp only: ac_simps)
  then show ?thesis
    using g(1) n ch(4) lost_counted [of ops c] by (intro exI [of _ gone] conjI) (simp_all only: ac_simps)
qed

theorem losses_accounted_witness:
  "\<exists>ls gone. life sample_kernel sample_wired sample_started ls Running [Done, Done] sample_pair \<and>
    sum_list (map header_drops (events_of (snd (chan_run (lin_ops sample_kernel sample_wired ls)
      \<lparr>ch_queue = [], ch_waiting = None, ch_drops = 0\<rparr>)) @ ch_queue (chan_of sample_pair))) +
      sum_list (map header_drops gone) + DROP_COUNT sample_pair =
    of_nat (length gone + length (filter (\<lambda>x. x = Lose) (lin_ops sample_kernel sample_wired ls)))"
proof -
  obtain ls where ls: "life sample_kernel sample_wired sample_started ls Running [Done, Done] sample_pair" "timely ls"
    by (rule sample_life)
  have none: "all_carried [Done, Done] sample_pair = 0" "of_nat (all_uncounted [Done, Done] sample_pair) = (0 :: u32)"
    using finished_promises(2) [of 2 sample_pair] by (simp_all add: all_carried_def carries_def numeral_2_eq_2)
  show ?thesis
    using losses_accounted [OF sample_shared_kernel_ok sample_starts ls active_Running refl refl refl] ls(1)
    unfolding none add_0_right by blast
qed

text \<open>
  C4. What the agent receives is well typed. From loading until the last callback has been removed, in every
  interleaving in which no request has been marked pending after its completion, every event delivered to the agent and
  every event waiting in the queue has the length of one of the seven packed structures, and its header
  carries the schema version, the discriminant of that structure and its size.
\<close>

theorem delivered_events_typed:
  assumes "shared_kernel_ok K" "starts K obj d0" "life K obj d0 ls ph ts d" "timely ls" "active ph"
  shows "list_all typed_event (events_of (replies (trace d)) @ ch_queue (chan_of d))"
proof -
  let ?r = "chan_run (lin_ops K obj ls) \<lparr>ch_queue = [], ch_waiting = None, ch_drops = 0\<rparr>"
  note ch = life_channel [OF assms refl refl]
  have "set (events_of (snd ?r) @ ch_queue (fst ?r)) \<subseteq> set (concat (map submitted (lin_ops K obj ls)))"
    using ch(5) by (rule subseq_set)
  moreover have "set (replies (trace d)) \<subseteq> set (snd ?r)"
    using ch(3) by (metis mset_subset_eq_add_left set_mset_mono set_mset_mset)
  then have "set (events_of (replies (trace d))) \<subseteq> set (events_of (snd ?r))" by (rule events_of_mono)
  ultimately show ?thesis using life_typed [OF assms] ch(1) unfolding list_all_iff by auto
qed

theorem delivered_events_typed_witness:
  "list_all typed_event (events_of (replies (trace sample_pair)) @ ch_queue (chan_of sample_pair))"
proof -
  obtain ls where ls: "life sample_kernel sample_wired sample_started ls Running [Done, Done] sample_pair" "timely ls"
    by (rule sample_life)
  show ?thesis by (rule delivered_events_typed [OF sample_shared_kernel_ok sample_starts ls active_Running])
qed

text \<open>
  C6. Unloading gives everything back. Whatever ran before and between its stages, as long as no request was marked
  pending after its completion: when it has finished no thread is in the driver, the monitor is where it was before loading (no pool block, IRP, name, reference,
  registration, link or device held), the spinlock is free, nothing is parked and nothing is queued.
\<close>

theorem unload_gives_everything_back:
  assumes "shared_kernel_ok K" "starts K obj d0" "life K obj d0 ls Unloaded ts d" "timely ls"
  shows "ts = replicate (length ts) Done \<and>
    mon_run (filter (\<lambda>c. \<not> lock_call c) (trace d)) mon0 = Some mon0 \<and>
    mon_run (filter lock_call (trace d)) mon0 = Some mon0 \<and>
    PENDING_IRP d = null_ptr \<and> queue_list d = [] \<and> CONTROL_DEVICE d = null_ptr"
proof -
  have inv: "life_ok Unloaded ts d" by (rule life_invariant [OF assms(3,2,1,4)])
  then have ts: "ts = replicate (length ts) Done" by (simp add: life_ok_def active_def)
  have own: "owns None [] [] (unlocked d)" "mon_run (filter lock_call (trace d)) mon0 = Some mon0"
    using inv ts threads_ok_done [of "length ts" d] by (auto simp: life_ok_def)
  have idle: "queue_list d = []" "PENDING_IRP d = null_ptr" "CONTROL_DEVICE d = null_ptr" "unregistered d"
    using inv by (simp_all add: life_ok_def)
  have "mon_of (unlocked d) = Some mon0"
    using own(1) idle by (intro bare_monitor) (simp_all add: unlocked_def unregistered_def queue_list_def)
  then show ?thesis using ts own(2) idle by (simp add: mon_of_def)
qed

theorem unload_gives_everything_back_witness:
  "mon_run (filter (\<lambda>c. \<not> lock_call c) (trace (driver_unload sample_kernel sample_pair))) mon0 = Some mon0 \<and>
    queue_list (driver_unload sample_kernel sample_pair) = []"
proof -
  obtain ls where ls: "life sample_kernel sample_wired sample_started ls Unloaded [Done, Done]
    (driver_unload sample_kernel sample_pair)" "timely ls" by (rule sample_unloaded)
  show ?thesis using unload_gives_everything_back [OF sample_shared_kernel_ok sample_starts ls] by simp
qed

text \<open>
  C38. The registry callback is deaf until its cookie is stored. In every life of the driver, between the return
  of \<open>CmRegisterCallback\<close> and the store into \<open>REGISTRY_CALLBACK_COOKIE\<close> the kernel may already deliver
  notifications. The name of the key of an operation on an open key is then asked for with cookie 0, whatever
  cookie the kernel has just handed out; when the kernel refuses that request, the refused call is all the
  notification leaves behind: no event, no loss or truncation counted, nothing else changed. The stage
  ends with the kernel's cookie stored.
\<close>

theorem registry_cookie_window:
  assumes "key_names_valid K" "starts K obj d0" "life K obj d0 ls (Register_registry n) ts d"
    and "reg_arg_valid argument1 arg" "opened_key arg = Some object" "object \<noteq> null_ptr"
    and "ret_CmRegisterCallback K (trace d) = (status, cookie)" "\<not> nt_error status"
    and "w = log_call (CmRegisterCallback status cookie) d"
    and "ret_CmCallbackGetKeyObjectIDEx K (trace w) 0 object = (lookup, name, s)" "nt_error lookup"
  shows "snd (registry_notify K argument1 arg w) = log_call (CmCallbackGetKeyObjectIDEx 0 object lookup name) w \<and>
    REGISTRY_CALLBACK_COOKIE (snd (advance K (Register_registry n) d)) = cookie"
proof -
  have "REGISTRY_CALLBACK_COOKIE d = 0"
    using life_no_cookie [OF assms(3,2,1)] by simp
  then have "REGISTRY_CALLBACK_COOKIE w = 0" by (simp add: assms(9) log_call_def)
  then have "gated K object f w = (None, log_call (CmCallbackGetKeyObjectIDEx 0 object lookup name) w)" for f
    using assms(6,10,11)
    by (simp add: gated_def resolve_and_gate_object_def write_key_path_from_object_def)
  then have "registry_plan K arg w = (None, log_call (CmCallbackGetKeyObjectIDEx 0 object lookup name) w)"
    using assms(5) by (cases arg) (simp_all add: registry_plan_def opened_key_def)
  moreover have "REGISTRY_CALLBACK_COOKIE (snd (advance K (Register_registry n) d)) = cookie"
    using assms(7,8) by (simp add: register_registry_def)
  ultimately show ?thesis by (simp add: registry_notify_eq [OF assms(4)] emit_planned_def)
qed

text \<open>A kernel that knows only the cookie it handed out.\<close>

definition strict_kernel :: kernel where
  "strict_kernel = sample_kernel\<lparr>ret_CmCallbackGetKeyObjectIDEx := \<lambda>h c object.
     if c = 77 then (0, object, \<lparr>Length = 28, Buffer = Some sample_key\<rparr>)
     else (0xC000000D, null_ptr, \<lparr>Length = 0, Buffer = None\<rparr>)\<rparr>"

definition sample_window :: driver where
  "sample_window = snd (stages 2 strict_kernel (Register_process 0) sample_started)"

lemma strict_starts [simp]: "starts strict_kernel sample_wired sample_started"
proof -
  have "begin_load strict_kernel sample_driver = begin_load sample_kernel sample_driver"
    by (simp add: begin_load_def create_device_def strict_kernel_def Let_def split_beta)
  then have "begin_load strict_kernel sample_driver = (Inr (), sample_started)" using sample_begin_load by simp
  then show ?thesis unfolding starts_def
    by (intro exI [of _ sample_object] exI conjI) (simp_all add: sample_object_def sample_wired_def sample_driver_def)
qed

lemma strict_names [simp]: "key_names_valid strict_kernel"
  by (simp add: key_names_valid_def strict_kernel_def us_valid_def sample_key_def)

lemma sample_window_life: "life strict_kernel sample_wired sample_started [] (Register_registry 0) [] sample_window"
proof -
  have "\<not> nt_error 0" by (simp add: nt_error_def)
  then have "stages 2 strict_kernel (Register_process 0) sample_started = (Register_registry 0, sample_window)"
    by (simp add: sample_window_def prod_eq_iff eval_nat_numeral split_beta register_process_def register_image_def
        strict_kernel_def sample_kernel_def Let_def)
  from life_stages [OF strict_starts strict_names life.loading _ this] show ?thesis by simp
qed

theorem registry_cookie_window_witness:
  "snd (registry_notify strict_kernel 0 (DeleteKeyArg \<lparr>dk_Object = 5\<rparr>)
      (log_call (CmRegisterCallback 0 77) sample_window)) =
    log_call (CmCallbackGetKeyObjectIDEx 0 5 0xC000000D null_ptr) (log_call (CmRegisterCallback 0 77) sample_window) \<and>
   REGISTRY_CALLBACK_COOKIE (snd (advance strict_kernel (Register_registry 0) sample_window)) = 77"
proof -
  have "reg_arg_valid 0 (DeleteKeyArg \<lparr>dk_Object = 5\<rparr>)" by (simp add: reg_arg_valid_def reg_class_defs)
  moreover have "opened_key (DeleteKeyArg \<lparr>dk_Object = 5\<rparr>) = Some 5" "(5 :: ptr) \<noteq> null_ptr" "\<not> nt_error 0"
    "nt_error 0xC000000D" by (simp_all add: opened_key_def nt_error_def)
  moreover have "ret_CmRegisterCallback strict_kernel (trace sample_window) = (0, 77)"
    "ret_CmCallbackGetKeyObjectIDEx strict_kernel (trace (log_call (CmRegisterCallback 0 77) sample_window)) 0 5 =
      (0xC000000D, null_ptr, \<lparr>Length = 0, Buffer = None\<rparr>)"
    by (simp_all add: strict_kernel_def sample_kernel_def)
  ultimately show ?thesis
    using registry_cookie_window [OF strict_names strict_starts sample_window_life] by blast
qed

end
