(* ===== verification/Edr_Confidential.thy ===== *)
theory Edr_Confidential
  imports Edr_Life
begin

text \<open>
  No stale kernel memory reaches the agent. A fresh pool block holds whatever was there before; the driver
  zeroes it before anything else, so that the unused ends of strings and fields nobody fills in are sent as
  zero (\<open>alloc_event_for\<close> in \<open>src/src/callbacks/header.rs\<close> states this as its purpose). That nothing leaks is a
  statement about two runs: whatever fresh blocks and the rest of memory hold, the driver makes
  the same calls, completes the same requests with the same bytes, and queues the same bytes.
\<close>

section \<open>States that differ in memory only\<close>

text \<open>The second state differs in memory, and not inside the blocks \<open>bs\<close>.\<close>

definition alike :: "(ptr \<times> nat) list \<Rightarrow> driver \<Rightarrow> driver \<Rightarrow> bool" where
  "alike bs d e \<longleftrightarrow> e = d\<lparr>heap := heap e\<rparr> \<and> (\<forall>(p, n) \<in> set bs. \<forall>i < n. heap e p i = heap d p i)"

lemma alikeE:
  assumes "alike bs d e"
  obtains h where "e = d\<lparr>heap := h\<rparr>" "\<And>p n i. (p, n) \<in> set bs \<Longrightarrow> i < n \<Longrightarrow> h p i = heap d p i"
  using assms that [of "heap e"] by (fastforce simp: alike_def)

lemma alikeI:
  assumes "\<And>p n i. (p, n) \<in> set bs \<Longrightarrow> i < n \<Longrightarrow> h p i = heap d p i"
  shows "alike bs d (d\<lparr>heap := h\<rparr>)"
  using assms by (auto simp: alike_def)

lemma alike_mono: "alike bs d e \<Longrightarrow> set bs' \<subseteq> set bs \<Longrightarrow> alike bs' d e"
  unfolding alike_def by blast

text \<open>Operations that leave memory alone, and do not look at it.\<close>

lemma alike_frame:
  assumes "alike bs d e" "\<And>h. f (d\<lparr>heap := h\<rparr>) = (f d)\<lparr>heap := h\<rparr>" "heap (f d) = heap d"
  shows "alike bs (f d) (f e)"
proof -
  obtain h where h: "e = d\<lparr>heap := h\<rparr>" "\<And>p n i. (p, n) \<in> set bs \<Longrightarrow> i < n \<Longrightarrow> h p i = heap d p i"
    using assms(1) by (rule alikeE) blast
  show ?thesis unfolding h(1) assms(2) by (rule alikeI) (simp add: h(2) assms(3))
qed

named_theorems alike_intros

lemma alike_log [alike_intros]: "alike bs d e \<Longrightarrow> alike bs (log_call c d) (log_call c e)"
  by (rule alike_frame) (simp_all add: log_call_def)

lemma alike_bump_trunc [alike_intros]: "alike bs d e \<Longrightarrow> alike bs (bump_trunc d) (bump_trunc e)"
  by (rule alike_frame) (simp_all add: bump_trunc_def)

lemma write_at_agree:
  "(\<And>i. i < n \<Longrightarrow> b' i = b i) \<Longrightarrow> i < n \<Longrightarrow> write_at off bs b' i = write_at off bs b i"
  by (simp add: write_at_def)

lemma alike_write_mem [alike_intros]:
  assumes "alike bs d e"
  shows "alike bs (write_mem p off us d) (write_mem p off us e)"
proof -
  obtain h where h: "e = d\<lparr>heap := h\<rparr>" "\<And>p n i. (p, n) \<in> set bs \<Longrightarrow> i < n \<Longrightarrow> h p i = heap d p i"
    using assms by (rule alikeE) blast
  have "write_mem p off us e = (write_mem p off us d)\<lparr>heap := h(p := write_at off us (h p))\<rparr>"
    by (simp add: h(1) write_mem_def log_call_def)
  then show ?thesis
    by (simp only:) (rule alikeI, auto simp: write_mem_def log_call_def write_at_def h(2))
qed

lemma alike_write_field [alike_intros]:
  "alike bs d e \<Longrightarrow> alike bs (write_field lay name us p d) (write_field lay name us p e)"
  unfolding write_field_def by (rule alike_write_mem)

lemma alike_if [alike_intros]:
  "alike bs d e \<Longrightarrow> alike bs d' e' \<Longrightarrow> alike bs (if b then d else d') (if b then e else e')"
  by simp

text \<open>Zeroing makes a block the same in both.\<close>

lemma alike_zero_mem:
  assumes "alike bs d e"
  shows "alike ((p, n) # bs) (zero_mem p n d) (zero_mem p n e)"
proof -
  obtain h where h: "e = d\<lparr>heap := h\<rparr>" "\<And>p n i. (p, n) \<in> set bs \<Longrightarrow> i < n \<Longrightarrow> h p i = heap d p i"
    using assms by (rule alikeE) blast
  have "zero_mem p n e = (zero_mem p n d)\<lparr>heap := h(p := (\<lambda>i. if i < n then 0 else h p i))\<rparr>"
    by (simp add: h(1) zero_mem_def log_call_def cong: if_cong)
  then show ?thesis
    by (simp only:) (rule alikeI, auto simp: zero_mem_def log_call_def h(2))
qed

text \<open>Copying an event out sends the same bytes, when the event is one of the blocks.\<close>

lemma alike_copy_out:
  assumes "alike bs d e" "(p, n) \<in> set bs"
  shows "alike bs (copy_to_system_buffer i p n d) (copy_to_system_buffer i p n e)"
proof -
  obtain h where h: "e = d\<lparr>heap := h\<rparr>" "\<And>p n i. (p, n) \<in> set bs \<Longrightarrow> i < n \<Longrightarrow> h p i = heap d p i"
    using assms(1) by (rule alikeE) blast
  have "read_at 0 n (h p) = read_at 0 n (heap d p)" using h(2) [OF assms(2)] by (simp add: read_at_def)
  then have "copy_to_system_buffer i p n e = (copy_to_system_buffer i p n d)\<lparr>heap := h\<rparr>"
    by (simp add: h(1) copy_to_system_buffer_def Let_def log_call_def)
  then show ?thesis
    by (simp only:) (rule alikeI, simp add: copy_to_system_buffer_def Let_def log_call_def h(2))
qed

lemma alike_trace: "alike bs d e \<Longrightarrow> trace e = trace d"
  by (erule alikeE) simp

section \<open>Fillers\<close>

text \<open>The contract of a callback: what it fills in does not depend on memory.\<close>

locale blind_filler =
  fixes fill :: "ptr \<Rightarrow> driver \<Rightarrow> driver"
  assumes fill_alike: "alike bs d e \<Longrightarrow> alike bs (fill p d) (fill p e)"
begin

lemma fill_same_calls: "alike bs d e \<Longrightarrow> trace (fill p e) = trace (fill p d)"
  by (rule alike_trace [OF fill_alike])

end

text \<open>A field may be filled with what the kernel answers, which depends on the calls made.\<close>

lemma alike_write_answer:
  "alike bs d e \<Longrightarrow> us' = us \<Longrightarrow> alike bs (write_field lay name us p d) (write_field lay name us' p e)"
  by (simp add: alike_write_field)

lemma alike_copy_string [alike_intros]:
  "alike bs d e \<Longrightarrow> alike bs (copy_unicode_string_into src lay dst cap len p d)
    (copy_unicode_string_into src lay dst cap len p e)"
  by (auto simp: copy_unicode_string_into_def Let_def intro!: alike_intros split: option.splits)

lemma alike_copy_units [alike_intros]:
  "alike bs d e \<Longrightarrow> alike bs (snd (snd (copy_unicode_into src dst mx d))) (snd (snd (copy_unicode_into src dst mx e)))"
  by (auto simp: copy_unicode_into_def write_units_def Let_def intro!: alike_intros split: option.splits copy_dst.splits)

lemma copy_units_count: "fst (copy_unicode_into src dst mx e) = fst (copy_unicode_into src dst mx d)"
  by (simp add: copy_unicode_into_def Let_def split: option.splits)

lemma alike_write_count [alike_intros]:
  "alike bs d e \<Longrightarrow>
   alike bs (write_field lay name (bytes16 (of_nat (fst (copy_unicode_into src dst mx d')))) p d)
     (write_field lay name (bytes16 (of_nat (fst (copy_unicode_into src dst mx e')))) p e)"
  using copy_units_count [of src dst mx e' d'] by (simp add: alike_write_field)

lemma alike_registry_common [alike_intros]:
  "alike bs d e \<Longrightarrow> alike bs (fill_registry_common K p op d) (fill_registry_common K p op e)"
  unfolding fill_registry_common_def Let_def
  by (rule alike_write_field, rule alike_write_answer) (simp_all add: alike_trace)

lemma alike_resolved_path [alike_intros]:
  "alike bs d e \<Longrightarrow> alike bs (write_resolved_key_path p us len d) (write_resolved_key_path p us len e)"
  unfolding write_resolved_key_path_def Let_def by (intro alike_intros)

lemma alike_data_preview [alike_intros]:
  "alike bs d e \<Longrightarrow> alike bs (fill_data_preview info p d) (fill_data_preview info p e)"
  by (auto simp: fill_data_preview_def Let_def intro!: alike_intros split: option.splits)

interpretation process_exit_blind: blind_filler "fill_process_exit K pid process" for K pid process
  by unfold_locales
    (unfold fill_process_exit_def Let_def, rule alike_write_answer, erule alike_write_field, simp add: alike_trace)

interpretation process_create_blind: blind_filler "fill_process_create pid info" for pid info
  by unfold_locales (unfold fill_process_create_def, intro alike_intros)

interpretation image_load_blind: blind_filler "fill_image_load pid name info" for pid name info
  by unfold_locales
    (auto simp: fill_image_load_def fill_image_info_def intro!: alike_intros split: option.split)

interpretation thread_create_blind: blind_filler "fill_thread_create K pid tid" for K pid tid
  by unfold_locales
    (unfold fill_thread_create_def, rule alike_write_answer, intro alike_intros, assumption, simp add: alike_trace)

interpretation thread_exit_blind: blind_filler "fill_thread_exit pid tid" for pid tid
  by unfold_locales (unfold fill_thread_exit_def, intro alike_intros)

interpretation handle_access_blind: blind_filler "fill_handle_access source target desired original op"
  for source target desired original op
  by unfold_locales (unfold fill_handle_access_def, intro alike_intros)

interpretation set_value_blind: blind_filler "fill_set_value K info buf len" for K info buf len
  by unfold_locales (unfold fill_set_value_def Let_def split_beta, intro alike_intros)

interpretation delete_value_blind: blind_filler "fill_delete_value K info buf len" for K info buf len
  by unfold_locales (unfold fill_delete_value_def Let_def split_beta, intro alike_intros)

interpretation key_op_blind: blind_filler "fill_key_op K op buf len" for K op buf len
  by unfold_locales (unfold fill_key_op_def, intro alike_intros)

interpretation create_key_blind: blind_filler "fill_create_key K info" for K info
  by unfold_locales (unfold fill_create_key_def Let_def split_beta, intro alike_intros)

section \<open>Other contents of fresh blocks\<close>

abbreviation repooled :: "(history \<Rightarrow> block) \<Rightarrow> kernel \<Rightarrow> kernel" where
  "repooled c K \<equiv> K\<lparr>pool_contents := c\<rparr>"

lemma repooled_common [simp]: "fill_registry_common (repooled c K) = fill_registry_common K"
  by (simp add: fun_eq_iff fill_registry_common_def)

lemma repooled_fillers [simp]:
  "fill_process_exit (repooled c K) = fill_process_exit K"
  "fill_thread_create (repooled c K) = fill_thread_create K"
  "fill_set_value (repooled c K) = fill_set_value K"
  "fill_delete_value (repooled c K) = fill_delete_value K"
  "fill_key_op (repooled c K) = fill_key_op K"
  "fill_create_key (repooled c K) = fill_create_key K"
  by (simp_all add: fun_eq_iff fill_process_exit_def fill_thread_create_def fill_set_value_def fill_delete_value_def
      fill_key_op_def fill_create_key_def Let_def)

lemma alike_cookie: "alike bs d e \<Longrightarrow> REGISTRY_CALLBACK_COOKIE e = REGISTRY_CALLBACK_COOKIE d"
  by (erule alikeE) simp

lemma copy_units_units: "fst (snd (copy_unicode_into src dst mx e)) = fst (snd (copy_unicode_into src dst mx d))"
  by (simp add: copy_unicode_into_def Let_def split: option.splits)

lemma alike_key_path:
  assumes al: "alike bs d e"
  shows "alike bs (snd (snd (write_key_path_from_object K object dst mx d)))
      (snd (snd (write_key_path_from_object (repooled c K) object dst mx e)))"
    "fst (write_key_path_from_object (repooled c K) object dst mx e) = fst (write_key_path_from_object K object dst mx d)"
    "fst (snd (write_key_path_from_object (repooled c K) object dst mx e)) =
      fst (snd (write_key_path_from_object K object dst mx d))"
proof -
  let ?k = "ret_CmCallbackGetKeyObjectIDEx K (trace d) (REGISTRY_CALLBACK_COOKIE d) object"
  obtain status name s where k: "?k = (status, name, s)" by (metis prod_cases3)
  note same = alike_trace [OF al] alike_cookie [OF al] k
  show "alike bs (snd (snd (write_key_path_from_object K object dst mx d)))
      (snd (snd (write_key_path_from_object (repooled c K) object dst mx e)))"
    using al by (auto simp: write_key_path_from_object_def Let_def split_beta same intro!: alike_intros)
  show "fst (write_key_path_from_object (repooled c K) object dst mx e) = fst (write_key_path_from_object K object dst mx d)"
    "fst (snd (write_key_path_from_object (repooled c K) object dst mx e)) =
      fst (snd (write_key_path_from_object K object dst mx d))"
    by (simp_all add: write_key_path_from_object_def Let_def split_beta same
        copy_units_count [of _ _ _ "log_call _ e" "log_call _ d"] copy_units_units [of _ _ _ "log_call _ e" "log_call _ d"])
qed

lemma alike_resolve:
  assumes al: "alike bs d e"
  shows "alike bs (snd (resolve_and_gate_object K object d)) (snd (resolve_and_gate_object (repooled c K) object e))"
    "fst (resolve_and_gate_object (repooled c K) object e) = fst (resolve_and_gate_object K object d)"
  using alike_key_path [OF al, where K = K and c = c and object = object and dst = Local and mx = REGISTRY_KEY_PATH_MAX]
  by (auto simp: resolve_and_gate_object_def Let_def split_beta intro!: alike_intros)

lemma alike_interesting:
  assumes "alike bs d e"
  shows "alike bs (snd (is_interesting_unicode_string s d)) (snd (is_interesting_unicode_string s e))"
    "fst (is_interesting_unicode_string s e) = fst (is_interesting_unicode_string s d)"
  using assms by (auto simp: is_interesting_unicode_string_def Let_def intro!: alike_intros split: option.splits)

lemma plan_alike:
  assumes al: "alike bs d e"
  shows "alike bs (snd (plan K x d)) (snd (plan (repooled c K) x e))"
    "fst (plan (repooled c K) x e) = fst (plan K x d)"
proof -
  have "access_report (repooled c K) e info = access_report K d info" for info
    by (simp add: access_report_def alike_trace [OF al] split: option.split)
  then show "alike bs (snd (plan K x d)) (snd (plan (repooled c K) x e))"
    "fst (plan (repooled c K) x e) = fst (plan K x d)"
    using al alike_resolve [OF al, where K = K and c = c] alike_interesting [OF al]
    by (auto simp: plan_def object_gate_report registry_plan_def gated_def split_beta split: input.splits option.splits reg_argument.splits)
qed

lemma plan_blind:
  assumes "plan K x d = (Some (lay, ty, fill), d')"
  shows "blind_filler fill"
  using assms process_exit_blind.blind_filler_axioms process_create_blind.blind_filler_axioms
    image_load_blind.blind_filler_axioms thread_create_blind.blind_filler_axioms thread_exit_blind.blind_filler_axioms
    handle_access_blind.blind_filler_axioms set_value_blind.blind_filler_axioms delete_value_blind.blind_filler_axioms
    key_op_blind.blind_filler_axioms create_key_blind.blind_filler_axioms
  by (auto simp: plan_def registry_plan_def gated_def
      split: input.splits option.splits reg_argument.splits if_splits prod.splits)

section \<open>Steps\<close>

text \<open>The blocks of a thread that have been zeroed, and the one it is about to zero.\<close>

definition clean :: "pc \<Rightarrow> (ptr \<times> nat) list" where
  "clean t = (case t of Emit lay ty fill (E_zero p) \<Rightarrow> [] | _ \<Rightarrow> blocks t)"

definition zeroes :: "pc \<Rightarrow> (ptr \<times> nat) list" where
  "zeroes t = (case t of Emit lay ty fill (E_zero p) \<Rightarrow> [(p, unat (of_nat (size_of lay) :: u32))] | _ \<Rightarrow> [])"

definition blind :: "pc \<Rightarrow> bool" where
  "blind t = (case t of Emit lay ty fill e \<Rightarrow> blind_filler fill | _ \<Rightarrow> True)"

definition allocates :: "kernel \<Rightarrow> pc \<Rightarrow> driver \<Rightarrow> ptr list" where
  "allocates K t d =
    (case t of
       Emit lay ty fill E_alloc \<Rightarrow>
         filter (\<lambda>p. p \<noteq> null_ptr) [fst (alloc_event K (of_nat (size_of lay)) d)]
     | _ \<Rightarrow> [])"

lemma clean_simps [simp]:
  "clean Done = []" "clean Hung = []" "clean (Begin x) = []" "clean (Send p sz s) = submit_blocks (p, unat sz) s"
  "clean (Fetch i g) = get_blocks g" "clean (Clean i s') = []" "clean (Complete i status info) = []"
  by (simp_all add: clean_def)

lemma clean_blocks: "set (clean t) \<subseteq> set (blocks t)"
  by (auto simp: clean_def split: pc.splits emit_pc.splits)

text \<open>The step of a thread in two states that are alike.\<close>

definition consistent :: "kernel \<Rightarrow> (history \<Rightarrow> block) \<Rightarrow> driver_object \<Rightarrow> (ptr \<times> nat) list \<Rightarrow> pc \<Rightarrow> driver \<Rightarrow> driver \<Rightarrow> bool" where
  "consistent K c obj bs t d e \<longleftrightarrow> fst (step (repooled c K) obj t e) = fst (step K obj t d) \<and>
    alike (zeroes t @ bs) (snd (step K obj t d)) (snd (step (repooled c K) obj t e))"

lemma alike_free: "alike bs d e \<Longrightarrow> lock_free e = lock_free d"
  by (erule alikeE) (simp add: lock_free_def)

lemma alike_panics: "alike bs d e \<Longrightarrow> oom_panics (repooled c K) e = oom_panics K d"
  by (erule alikeE) (simp add: oom_panics_def)

lemma alloc_alike:
  assumes "alike bs d e" "fst (alloc_event K sz d) \<noteq> null_ptr \<Longrightarrow> fst (alloc_event K sz d) \<notin> fst ` set bs"
  shows "fst (alloc_event (repooled c K) sz e) = fst (alloc_event K sz d)"
    "alike bs (snd (alloc_event K sz d)) (snd (alloc_event (repooled c K) sz e))"
proof -
  obtain h where h: "e = d\<lparr>heap := h\<rparr>" "\<And>p n i. (p, n) \<in> set bs \<Longrightarrow> i < n \<Longrightarrow> h p i = heap d p i"
    using assms(1) by (rule alikeE) blast
  let ?p = "fst (alloc_event K sz d)"
  show "fst (alloc_event (repooled c K) sz e) = ?p" by (simp add: h(1) alloc_event_def Let_def)
  have "snd (alloc_event (repooled c K) sz e) = (snd (alloc_event K sz d))\<lparr>heap :=
      if ?p = null_ptr then h else h(?p := c (trace d))\<rparr>"
    by (simp add: h(1) alloc_event_def Let_def log_call_def bump_drop_def oom_panics_def)
  moreover have "(if ?p = null_ptr then h else h(?p := c (trace d))) q k = heap (snd (alloc_event K sz d)) q k"
    if "(q, n) \<in> set bs" "k < n" for q n k
  proof -
    have p: "?p = ret_ExAllocatePool2 K (trace d) POOL_FLAG_NON_PAGED (ucast sz) POOL_TAG"
      by (simp add: alloc_event_def Let_def)
    have "q \<noteq> ?p" if "?p \<noteq> null_ptr" using assms(2) [OF that] \<open>(q, n) \<in> set bs\<close> by (auto simp: image_iff)
    then have q: "?p = null_ptr \<or> q \<noteq> ?p" by blast
    then have "heap (snd (alloc_event K sz d)) q = heap d q"
      unfolding p by (auto simp: alloc_event_def Let_def log_call_def bump_drop_def)
    then show ?thesis using h(2) [OF that] q by auto
  qed
  ultimately show "alike bs (snd (alloc_event K sz d)) (snd (alloc_event (repooled c K) sz e))"
    by (simp only: alikeI)
qed

lemma alike_swap:
  "alike bs d e \<Longrightarrow> alike bs (d\<lparr>DROP_COUNT := n\<rparr>) (e\<lparr>DROP_COUNT := n\<rparr>)"
  "alike bs d e \<Longrightarrow> alike bs (d\<lparr>TRUNC_COUNT := n\<rparr>) (e\<lparr>TRUNC_COUNT := n\<rparr>)"
  by (rule alike_frame [where f = "\<lambda>d. d\<lparr>DROP_COUNT := n\<rparr>"] alike_frame [where f = "\<lambda>d. d\<lparr>TRUNC_COUNT := n\<rparr>"];
      simp)+

lemma emit_consistent:
  assumes al: "alike bs d e" and "blind_filler fill" and "set (allocates K (Emit lay ty fill s) d) \<inter> fst ` set bs = {}"
  shows "consistent K c obj bs (Emit lay ty fill s) d e"
proof (cases s)
  case E_alloc
  then have "fst (alloc_event K (of_nat (size_of lay)) d) \<notin> fst ` set bs"
    if "fst (alloc_event K (of_nat (size_of lay)) d) \<noteq> null_ptr" using assms(3) that by (simp add: allocates_def)
  from alloc_alike [OF al this] show ?thesis
    using E_alloc alike_panics [OF al] by (simp add: consistent_def emit_step_def Let_def split_beta zeroes_def)
next
  case (E_zero p)
  then show ?thesis using alike_zero_mem [OF al] by (simp add: consistent_def emit_step_def zeroes_def)
next
  case (E_header p h)
  then show ?thesis using alike_write_mem [OF al] by (simp add: consistent_def emit_step_def zeroes_def)
next
  case (E_fill p)
  then show ?thesis using blind_filler.fill_alike [OF assms(2) al] by (simp add: consistent_def emit_step_def zeroes_def)
qed (use al alike_swap [OF al] in \<open>auto simp: consistent_def emit_step_def zeroes_def elim: alikeE\<close>)

text \<open>The steps that do not look at memory.\<close>

lemma consistent_frame:
  assumes "alike bs d e" "zeroes t = []"
    and "\<And>h. step (repooled c K) obj t (d\<lparr>heap := h\<rparr>) = (fst (step K obj t d), (snd (step K obj t d))\<lparr>heap := h\<rparr>)"
    and "heap (snd (step K obj t d)) = heap d"
  shows "consistent K c obj bs t d e"
proof -
  obtain h where h: "e = d\<lparr>heap := h\<rparr>" "\<And>p n i. (p, n) \<in> set bs \<Longrightarrow> i < n \<Longrightarrow> h p i = heap d p i"
    using assms(1) by (rule alikeE) blast
  show ?thesis unfolding consistent_def h(1) assms(2,3) by (simp add: alikeI h(2) assms(4))
qed

lemma queue_heap:
  "queue_push_locked p sz (d\<lparr>heap := h\<rparr>) =
     (fst (queue_push_locked p sz d), (snd (queue_push_locked p sz d))\<lparr>heap := h\<rparr>)"
  "queue_pop_locked (d\<lparr>heap := h\<rparr>) = (fst (queue_pop_locked d), (snd (queue_pop_locked d))\<lparr>heap := h\<rparr>)"
  by (simp_all add: queue_push_locked_def queue_pop_locked_def Let_def log_call_def free_pool_def bump_drop_def)

lemmas heapless_defs = queue_heap SpinLockGuard_acquire_def SpinLockGuard_drop_def take_pending_def park_irp_def
  current_stack_location_def mark_irp_pending_def complete_irp_def free_pool_def bump_drop_def log_call_def Let_def
  split_beta frame_simps

lemma submit_consistent:
  assumes al: "alike bs d e" and p: "set (submit_blocks (p, unat sz) s) \<subseteq> set bs"
  shows "consistent K c obj bs (Send p sz s) d e"
proof (cases s)
  case (S_copy q i)
  then show ?thesis using alike_copy_out [OF al, of p "unat sz" i] p
    by (simp add: consistent_def submit_step_def zeroes_def)
qed (rule consistent_frame [OF al], simp_all add: submit_step_def zeroes_def heapless_defs)+

lemma get_consistent:
  assumes al: "alike bs d e" and p: "set (get_blocks g) \<subseteq> set bs"
  shows "consistent K c obj bs (Fetch i g) d e"
proof (cases g)
  case (G_copy s)
  then show ?thesis using alike_copy_out [OF al, of "data s" "unat (slot_size s)" i] p
    by (simp add: consistent_def get_step_def zeroes_def slot_block_def)
qed (rule consistent_frame [OF al], simp_all add: get_step_def zeroes_def heapless_defs)+

lemma begin_consistent:
  assumes al: "alike bs d e"
  shows "consistent K c obj bs (Begin x) d e"
proof (cases "\<exists>major i r len. x = IrpNotify major i r len")
  case True
  then show ?thesis using al
    by (auto simp: consistent_def begin_step_def zeroes_def intro!: alike_intros
        split: option.splits dispatch_routine.splits)
next
  case False
  note p = plan_alike [OF al, where K = K and c = c and x = x]
  show ?thesis using p by (auto simp: consistent_def zeroes_def begin_eq [OF False prod.collapse [symmetric]]
        split: option.splits prod.splits)
qed

lemma step_consistent:
  assumes al: "alike bs d e" and cl: "set (clean t) \<subseteq> set bs" "blind t" "set (allocates K t d) \<inter> fst ` set bs = {}"
  shows "consistent K c obj bs t d e"
proof (cases t)
  case (Begin x)
  then show ?thesis using begin_consistent [OF al] by simp
next
  case (Emit lay ty fill s)
  then show ?thesis using emit_consistent [OF al] cl by (simp add: blind_def)
next
  case (Send p sz s)
  then show ?thesis using submit_consistent [OF al] cl by (simp add: clean_def)
next
  case (Fetch i g)
  then show ?thesis using get_consistent [OF al] cl by (simp add: clean_def)
next
  case (Clean i s)
  show ?thesis unfolding Clean
    by (rule consistent_frame [OF al]) (cases s; simp add: cleanup_step_def zeroes_def heapless_defs)+
next
  case (Complete i status info)
  show ?thesis unfolding Complete
    by (rule consistent_frame [OF al]) (simp_all add: zeroes_def heapless_defs)
qed (use al in \<open>simp_all add: consistent_def zeroes_def\<close>)

section \<open>Runs\<close>

text \<open>What a step adds to the blocks in hand and in the queue it has zeroed itself.\<close>

lemma push_blocks:
  assumes "ring_ok d"
  shows "set (queue_blocks (snd (queue_push_locked p sz d))) \<subseteq> insert (p, unat sz) (set (queue_blocks d))"
proof -
  have "queue_list (push_slot \<lparr>data = p, slot_size = sz\<rparr> d) =
      drop (QUEUE_LEN d + 1 - QUEUE_CAP) (queue_list d @ [\<lparr>data = p, slot_size = sz\<rparr>])"
    using ring.fold_push_contents [OF assms, of "[\<lparr>data = p, slot_size = sz\<rparr>]"] by simp
  moreover have "set (drop k (ss @ [s])) \<subseteq> insert s (set ss)" for k s and ss :: "slot list"
    using set_drop_subset [of k "ss @ [s]"] by (simp del: drop_append)
  ultimately have "set (queue_list (snd (queue_push_locked p sz d))) \<subseteq>
      insert \<lparr>data = p, slot_size = sz\<rparr> (set (queue_list d))" by (simp add: push_slot_def del: drop_append)
  then show ?thesis by (auto simp: queue_blocks_def slot_block_def)
qed

lemma pop_blocks:
  assumes "ring_ok d" "queue_pop_locked d = (r, d')"
  shows "set (queue_blocks d') \<subseteq> set (queue_blocks d)" "r = Some s \<Longrightarrow> slot_block s \<in> set (queue_blocks d)"
proof -
  have "queue_list d' = tl (queue_list d)" "r = (case queue_list d of [] \<Rightarrow> None | s # ss \<Rightarrow> Some s)"
    using ring.pop_none [OF assms(1)] ring.pop_some [OF assms(1)] assms(2) by (cases "queue_list d"; simp)+
  then show "set (queue_blocks d') \<subseteq> set (queue_blocks d)" "r = Some s \<Longrightarrow> slot_block s \<in> set (queue_blocks d)"
    by (auto simp: queue_blocks_def split: list.splits dest: list.set_sel(2) [rotated])
qed

text \<open>The blocks that hold the same bytes whatever memory held before.\<close>

definition held :: "pc list \<Rightarrow> driver \<Rightarrow> (ptr \<times> nat) list" where
  "held ts d = concat (map clean ts) @ queue_blocks d"

lemma allocates_fresh:
  assumes inv: "threads_ok (us @ t # vs) d" and K: "shared_kernel_ok K"
  shows "set (allocates K t d) \<inter> fst ` set (held (us @ t # vs) d) = {}"
proof -
  have new: "p \<notin> fst ` set (held (us @ t # vs) d)"
    if t: "t = Emit lay ty fill E_alloc" and p: "p = fst (alloc_event K (of_nat (size_of lay)) d)" "p \<noteq> null_ptr"
    for lay ty fill p
  proof -
    let ?bs = "concat (map blocks (us @ t # vs))" and ?d = "snd (alloc_event K (of_nat (size_of lay)) d)"
    have own: "owns None ?bs (concat (map hand (us @ t # vs))) (unlocked d)" and f: "pool_fresh_shared K"
      using inv K by (simp_all add: threads_ok_def shared_kernel_ok_def)
    have "owns None ((p, unat (of_nat (size_of lay) :: u32)) # ?bs) (concat (map hand (us @ t # vs))) (unlocked ?d)"
      using alloc_step_owns [OF own f, of "of_nat (size_of lay)" p ?d] p by simp
    then have "distinct (map fst (((p, unat (of_nat (size_of lay) :: u32)) # ?bs) @ queue_blocks (unlocked ?d)))"
      by (rule ownsE) (simp add: blocks_owned_def)
    moreover have "queue_blocks (unlocked ?d) = queue_blocks d"
      using same_globals_alloc [of d K "of_nat (size_of lay)"]
      by (intro queue_blocks_frame queue_list_frame) (simp_all add: same_globals_def)
    ultimately have "p \<notin> fst ` set (?bs @ queue_blocks d)" by (simp add: image_Un)
    moreover have "set (held (us @ t # vs) d) \<subseteq> set (?bs @ queue_blocks d)"
      using clean_blocks by (fastforce simp: held_def)
    ultimately show ?thesis by blast
  qed
  show ?thesis
  proof (cases "\<exists>lay ty fill. t = Emit lay ty fill E_alloc")
    case True
    then obtain lay ty fill where t: "t = Emit lay ty fill E_alloc" by blast
    show ?thesis using new [OF t refl] by (simp add: t allocates_def)
  next
    case False
    then have "allocates K t d = []" by (auto simp: allocates_def split: pc.splits emit_pc.splits)
    then show ?thesis by simp
  qed
qed

lemma emit_holds:
  assumes "event_filler lay True fill" "emit_step K lay ty fill s d = (t', d')"
  shows "set (clean t') \<subseteq> set (zeroes (Emit lay ty fill s)) \<union> set (clean (Emit lay ty fill s))"
    "queue_blocks d' = queue_blocks d"
proof -
  have "unat (of_nat (size_of lay) :: u32) = size_of lay"
    using event_filler.size_ok(1) [OF assms(1)] by (simp add: unat_size_of)
  then show "set (clean t') \<subseteq> set (zeroes (Emit lay ty fill s)) \<union> set (clean (Emit lay ty fill s))"
    using assms(2) by (cases s) (auto simp: emit_step_def clean_def zeroes_def Let_def split_beta)
  have "queue_list (fill p d) = queue_list d" for p
    using fillsD(1-4) [OF event_filler.fill_fills [OF assms(1) TrueI]] by (intro queue_list_frame) simp_all
  moreover have "queue_list (snd (alloc_event K sz d)) = queue_list d" for sz
    using same_globals_alloc [of d K sz] by (intro queue_list_frame) (simp_all add: same_globals_def)
  ultimately have "queue_list d' = queue_list d"
    using assms(2) by (cases s) (auto simp: emit_step_def Let_def split_beta zero_mem_def write_mem_def log_call_def frame_simps)
  then show "queue_blocks d' = queue_blocks d" by (rule queue_blocks_frame)
qed

lemma begin_holds:
  assumes "input_ok x" "key_names_valid K" "begin_step K obj x d = (t', d')"
  shows "clean t' = []" "set (queue_blocks d') = set (queue_blocks d)"
proof -
  have "clean t' = [] \<and> queue_blocks d' = queue_blocks d"
  proof (cases "\<exists>major i r len. x = IrpNotify major i r len")
    case True
    then show ?thesis using assms(3)
      by (auto simp: begin_step_def clean_def queue_blocks_def frame_simps log_call_def
          split: option.splits dispatch_routine.splits)
  next
    case False
    obtain pl d1 where p: "plan K x d = (pl, d1)" by (cases "plan K x d")
    have "queue_list d1 = queue_list d"
      using quietD(1) [OF plan_quiet(1) [OF assms(2,1) p]] by (intro queue_list_frame) (simp_all add: same_globals_def)
    then show ?thesis using assms(3)
      by (auto simp: begin_eq [OF False p] clean_def queue_blocks_def split: option.splits)
  qed
  then show "clean t' = []" "set (queue_blocks d') = set (queue_blocks d)" by simp_all
qed

lemma submit_holds:
  assumes "ring_ok d" "submit_step K p sz s d = (t', d')"
  shows "set (clean t') \<union> set (queue_blocks d') \<subseteq> set (clean (Send p sz s)) \<union> set (queue_blocks d)"
proof (cases "\<exists>q. s = S_push q")
  case True
  then show ?thesis using assms(2) push_blocks [OF assms(1), of p sz] by (auto simp: submit_step_def split_beta)
next
  case False
  then show ?thesis using assms(2)
    by (cases s) (auto simp: submit_step_def Let_def split_beta queue_blocks_def frame_simps SpinLockGuard_acquire_def
        SpinLockGuard_drop_def take_pending_def irp_op_defs free_pool_def bump_drop_def log_call_def split: if_splits)
qed

lemma get_holds:
  assumes "ring_ok d" "get_step K i g d = (t', d')"
  shows "set (clean t') \<union> set (queue_blocks d') \<subseteq> set (clean (Fetch i g)) \<union> set (queue_blocks d)"
proof (cases "\<exists>q n. g = G_pop q n")
  case True
  then show ?thesis using assms(2) pop_blocks [OF assms(1) prod.collapse [symmetric]]
    by (auto simp: get_step_def split_beta split: option.splits)
next
  case False
  then show ?thesis using assms(2)
    by (cases g) (auto simp: get_step_def Let_def split_beta queue_blocks_def frame_simps SpinLockGuard_acquire_def
        SpinLockGuard_drop_def park_irp_def irp_op_defs free_pool_def bump_drop_def log_call_def split: if_splits)
qed

lemma step_holds:
  assumes inv: "relies t d" "ring_ok d" and K: "key_names_valid K" and st: "step K obj t d = (t', d')"
  shows "set (clean t') \<union> set (queue_blocks d') \<subseteq> set (zeroes t) \<union> set (clean t) \<union> set (queue_blocks d)"
proof (cases t)
  case (Begin x)
  then have "input_ok x" using inv by (simp add: relies_def)
  from begin_holds [OF this K, of obj d t' d'] show ?thesis using st Begin by auto
next
  case (Emit lay ty fill s)
  then have "event_filler lay True fill" using inv by (simp add: relies_def)
  from emit_holds [OF this, of K ty s d t' d'] show ?thesis using st Emit by auto
next
  case (Send p sz s)
  then show ?thesis using submit_holds [OF inv(2), of K p sz s t' d'] st by auto
next
  case (Fetch i g)
  then show ?thesis using get_holds [OF inv(2), of K i g t' d'] st by auto
next
  case (Clean i s)
  then show ?thesis using st
    by (cases s) (auto simp: cleanup_step_def take_pending_def complete_irp_def log_call_def Let_def
        queue_blocks_def frame_simps split: if_splits)
qed (use st in \<open>auto simp: complete_irp_def log_call_def Let_def queue_blocks_def frame_simps\<close>)

lemma step_blind:
  assumes "blind t" "step K obj t d = (t', d')"
  shows "blind t'"
proof (cases t)
  case (Begin x)
  show ?thesis
  proof (cases "\<exists>major i r len. x = IrpNotify major i r len")
    case True
    then show ?thesis using assms(2) Begin
      by (auto simp: begin_step_def blind_def split: option.splits dispatch_routine.splits)
  next
    case False
    obtain pl d1 where p: "plan K x d = (pl, d1)" by (cases "plan K x d")
    show ?thesis using assms(2) Begin plan_blind p
      by (auto simp: begin_eq [OF False p] blind_def split: option.splits)
  qed
next
  case (Emit lay ty fill s)
  then show ?thesis using assms by (cases s) (auto simp: emit_step_def blind_def Let_def split_beta)
next
  case (Send p sz s)
  then show ?thesis using assms(2) by (cases s) (auto simp: submit_step_def blind_def Let_def split_beta)
next
  case (Fetch i g)
  then show ?thesis using assms(2)
    by (cases g) (auto simp: get_step_def blind_def Let_def split_beta)
next
  case (Clean i s)
  then show ?thesis using assms(2) by (cases s) (auto simp: cleanup_step_def blind_def Let_def split_beta)
qed (use assms in \<open>auto simp: blind_def\<close>)

lemma arrives_alike:
  assumes "alike bs d e"
  shows "alike bs (arrives x d) (arrives x e)" "valid_input x e = valid_input x d"
proof -
  show "alike bs (arrives x d) (arrives x e)"
    by (rule alike_frame [OF assms]) (cases x; simp add: arrives_def irp_arrives_def log_call_def)+
  show "valid_input x e = valid_input x d"
    using assms by (rule alikeE) (cases x; simp add: valid_input_def)
qed

lemma threads_step_alike:
  assumes inv: "threads_ok (us @ t # vs) d" and K: "shared_kernel_ok K" and st: "step K obj t d = (t', d')"
    and al: "alike (held (us @ t # vs) d) d e" and bl: "blind t"
  shows "\<exists>e'. step (repooled c K) obj t e = (t', e') \<and> alike (held (us @ t' # vs) d') d' e'"
proof -
  have r: "relies t d" "ring_ok d" "key_names_valid K"
    using inv K by (auto simp: threads_ok_def shared_kernel_ok_def elim: ownsE)
  have "consistent K c obj (held (us @ t # vs) d) t d e"
    using al _ bl allocates_fresh [OF inv K] by (rule step_consistent) (auto simp: held_def)
  then have "fst (step (repooled c K) obj t e) = t'"
    "alike (zeroes t @ held (us @ t # vs) d) d' (snd (step (repooled c K) obj t e))"
    using st by (simp_all add: consistent_def)
  moreover have "set (held (us @ t' # vs) d') \<subseteq> set (zeroes t @ held (us @ t # vs) d)"
    using step_holds [OF r st] by (auto simp: held_def)
  ultimately show ?thesis by (metis alike_mono prod.collapse)
qed

lemma crun_alike:
  assumes "crun K obj ts d ls ts' d'" "threads_ok ts d" "shared_kernel_ok K" "wired obj" "timely ls"
    and "alike (held ts d) d e" "list_all blind ts"
  shows "(\<exists>ls' e'. crun (repooled c K) obj ts e ls' ts' e' \<and> alike (held ts' d') d' e') \<and> list_all blind ts'"
  using assms
proof (induction rule: crun.induct)
  case start
  then show ?case using crun.start by blast
next
  case (arrival ls ts' d' x)
  then obtain ls' e' where e': "crun (repooled c K) obj ts e ls' ts' e'" "alike (held ts' d') d' e'" by blast
  have "queue_list (arrives x d') = queue_list d'"
    by (rule queue_list_frame) (cases x; simp add: arrives_def irp_arrives_def log_call_def)+
  then have "held (ts' @ [Begin x]) (arrives x d') = held ts' d'" by (simp add: held_def queue_blocks_def)
  then have "alike (held (ts' @ [Begin x]) (arrives x d')) (arrives x d') (arrives x e')"
    using arrives_alike(1) [OF e'(2)] by simp
  moreover have "crun (repooled c K) obj ts e ls' (ts' @ [Begin x]) (arrives x e')"
    using e'(1) arrival.hyps(2,3) arrives_alike(2) [OF e'(2)] by (intro crun.arrival) simp_all
  ultimately show ?case using arrival by (auto simp: blind_def)
next
  case (thread ls us t vs d' t' d'')
  then obtain ls' e' where e': "crun (repooled c K) obj ts e ls' (us @ t # vs) e'"
    "alike (held (us @ t # vs) d') d' e'" and bl: "list_all blind (us @ t # vs)" by auto
  have ok: "threads_ok (us @ t # vs) d'" using crun_ok [OF thread.hyps(1) thread.prems(1-3)] thread.prems(4) by simp
  obtain e'' where e'': "step (repooled c K) obj t e' = (t', e'')" "alike (held (us @ t' # vs) d'') d'' e''"
    using threads_step_alike [OF ok thread.prems(2) thread.hyps(4) e'(2)] bl by auto
  have "crun (repooled c K) obj ts e (ls' @ [(t, e')]) (us @ t' # vs) e''"
    using e'(1) thread.hyps(2) _ e''(1) by (rule crun.thread) (use thread.hyps(3) alike_free [OF e'(2)] in simp)
  then show ?case using e''(2) bl step_blind [OF _ thread.hyps(4)] by auto
qed

section \<open>Loading and unloading\<close>

lemma drain_heap: "drain_loop (d\<lparr>heap := h\<rparr>) = (drain_loop d)\<lparr>heap := h\<rparr> \<and> heap (drain_loop d) = heap d"
proof (induction d rule: drain_loop.induct)
  case (1 d)
  show ?case
  proof (cases "fst (queue_pop_locked d)")
    case None
    then show ?thesis
      by (simp add: drain_loop.simps [of d] drain_loop.simps [of "d\<lparr>heap := h\<rparr>"] queue_heap split_beta frame_simps)
  next
    case (Some sl)
    let ?d = "free_pool (data sl) (snd (queue_pop_locked d))"
    have "drain_loop (?d\<lparr>heap := h\<rparr>) = (drain_loop ?d)\<lparr>heap := h\<rparr> \<and> heap (drain_loop ?d) = heap ?d"
      using 1 [of "Some sl" "snd (queue_pop_locked d)" sl] Some by (simp add: prod_eq_iff)
    moreover have "free_pool (data sl) ((snd (queue_pop_locked d))\<lparr>heap := h\<rparr>) = ?d\<lparr>heap := h\<rparr>" "heap ?d = heap d"
      by (simp_all add: free_pool_def log_call_def frame_simps)
    ultimately show ?thesis using Some
      by (simp add: drain_loop.simps [of d] drain_loop.simps [of "d\<lparr>heap := h\<rparr>"] queue_heap split_beta)
  qed
qed

lemma advance_heap:
  "advance (repooled c K) ph (d\<lparr>heap := h\<rparr>) = (fst (advance K ph d), (snd (advance K ph d))\<lparr>heap := h\<rparr>)"
  "heap (snd (advance K ph d)) = heap d"
proof -
  have d: "log_call cl (e\<lparr>heap := h\<rparr>) = (log_call cl e)\<lparr>heap := h\<rparr>" "heap (log_call cl e) = heap e" for cl e
    by (simp_all add: log_call_def)
  have "drain_queue (repooled c K) (d\<lparr>heap := h\<rparr>) = (drain_queue K d)\<lparr>heap := h\<rparr> \<and> heap (drain_queue K d) = heap d"
    using drain_heap [where h = h and
        d = "log_call (KeAcquireSpinLockRaiseToDpc (ret_KeAcquireSpinLockRaiseToDpc K (trace d))) d"]
    by (simp add: drain_queue_def SpinLockGuard_acquire_def SpinLockGuard_drop_def Let_def d)
  then show "advance (repooled c K) ph (d\<lparr>heap := h\<rparr>) = (fst (advance K ph d), (snd (advance K ph d))\<lparr>heap := h\<rparr>)"
    "heap (snd (advance K ph d)) = heap d"
    by (cases ph; simp add: register_defs unregister_defs report_def cancel_pending_def take_pending_def
        delete_device_def complete_irp_def Let_def split_beta log_call_def)+
qed

lemma advance_alike:
  assumes "alike bs d e" "advance K ph d = (ph', d')"
  shows "\<exists>e'. advance (repooled c K) ph e = (ph', e') \<and> alike bs d' e'"
proof -
  obtain h where h: "e = d\<lparr>heap := h\<rparr>" "\<And>p n i. (p, n) \<in> set bs \<Longrightarrow> i < n \<Longrightarrow> h p i = heap d p i"
    using assms(1) by (rule alikeE) blast
  have "alike bs d' (d'\<lparr>heap := h\<rparr>)"
    by (rule alikeI) (use h(2) advance_heap(2) [where K = K and ph = ph and d = d] assms(2) in simp)
  then show ?thesis using h(1) advance_heap(1) [where c = c and K = K and ph = ph and d = d and h = h] assms(2) by simp
qed

lemma advance_queue:
  assumes "life_ok ph' ts d'" "advance K ph d = (ph', d')"
  shows "set (queue_blocks d') \<subseteq> set (queue_blocks d)"
proof (cases "active ph")
  case True
  then show ?thesis using stage_frameD(4) [OF advance_frame [OF True assms(2)]] by (simp add: queue_blocks_def)
next
  case False
  then consider "ph = Cancel" | "queue_list d' = []"
    using assms by (cases ph) (auto simp: active_def life_ok_def)
  then show ?thesis
  proof cases
    case 1
    then have "queue_list d' = queue_list d"
      using assms(2) by (auto simp: cancel_pending_def take_pending_def complete_irp_def log_call_def Let_def frame_simps)
    then show ?thesis by (simp add: queue_blocks_def)
  qed (simp add: queue_blocks_def)
qed

lemma life_alike:
  assumes "life K obj d0 ls ph ts d" "starts K obj d0" "shared_kernel_ok K" "timely ls"
  shows "(\<exists>ls' e. life (repooled c K) obj (d0\<lparr>heap := h\<rparr>) ls' ph ts e \<and> alike (held ts d) d e) \<and> list_all blind ts"
  using assms
proof (induction rule: life.induct)
  case loading
  have "handles_valid K" using loading.prems(2) by (simp add: shared_kernel_ok_def)
  from begin_load_ok(3) [OF loading.prems(1) this] have "queue_list d0 = []" by (simp add: chan_of_def)
  then have "alike (held [] d0) d0 (d0\<lparr>heap := h\<rparr>)" by (simp add: held_def queue_blocks_def alike_def)
  then have "\<exists>ls' e. life (repooled c K) obj (d0\<lparr>heap := h\<rparr>) ls' (Register_process 0) [] e \<and> alike (held [] d0) d0 e"
    by (intro exI conjI, rule_tac life.loading)
  then show ?case by simp
next
  case (stage ls ph ts d ph' d')
  then obtain ls' e where e: "life (repooled c K) obj (d0\<lparr>heap := h\<rparr>) ls' ph ts e" "alike (held ts d) d e" by blast
  obtain e' where e': "advance (repooled c K) ph e = (ph', e')" "alike (held ts d) d' e'"
    using advance_alike [OF e(2) stage.hyps(4)] by blast
  have "life_ok ph' ts d'"
    using life_invariant [OF life.stage [OF stage.hyps] stage.prems(1,2,3)] .
  from advance_queue [OF this stage.hyps(4)] have "set (held ts d') \<subseteq> set (held ts d)" by (auto simp: held_def)
  then have "alike (held ts d') d' e'" using e'(2) by (rule alike_mono [rotated])
  moreover have "ph = Drain \<Longrightarrow> lock_free e" using stage.hyps(3) alike_free [OF e(2)] by simp
  ultimately show ?case using life.stage [OF e(1) stage.hyps(2) _ e'(1)] stage by blast
next
  case (threads ls ph ts d ls' ts' d')
  then have t: "timely ls" "timely ls'" by simp_all
  obtain ls1 e where e: "life (repooled c K) obj (d0\<lparr>heap := h\<rparr>) ls1 ph ts e" "alike (held ts d) d e" "list_all blind ts"
    using threads t by blast
  have "life_ok ph ts d" using life_invariant [OF threads.hyps(1) threads.prems(1,2) t(1)] .
  then have ok: "threads_ok ts d" by (simp add: life_ok_def)
  have w: "wired obj" using begin_load_ok(2) threads.prems by (simp add: shared_kernel_ok_def)
  obtain ls2 e' where e': "crun (repooled c K) obj ts e ls2 ts' e'" "alike (held ts' d') d' e'" "list_all blind ts'"
    using crun_alike [OF threads.hyps(3) ok threads.prems(2) w t(2) e(2,3)] by blast
  show ?case using life.threads [OF e(1) threads.hyps(2) e'(1)] e'(2,3) by blast
qed

section \<open>Properties\<close>

text \<open>
  C5. No stale kernel memory reaches the agent. Take any life of the driver, up to any state, in which no request
  has been marked pending after its completion; let every fresh pool block, and all of memory at the start, hold something else. Then the driver has a
  life that leads to a state with the same threads, the same sequence of kernel calls and completed requests, the
  same contents of every request's buffer, the same counters and flags, and the same bytes in the queue: what
  the agent received or can receive does not depend on what memory held before.
\<close>

theorem no_stale_memory_leaks:
  assumes "shared_kernel_ok K" "starts K obj d0" "life K obj d0 ls ph ts d" "timely ls"
  shows "\<exists>ls' e. life (K\<lparr>pool_contents := c\<rparr>) obj (d0\<lparr>heap := h\<rparr>) ls' ph ts e \<and>
    e = d\<lparr>heap := heap e\<rparr> \<and> trace e = trace d \<and> irps e = irps d \<and> chan_of e = chan_of d"
proof -
  obtain ls' e where e: "life (repooled c K) obj (d0\<lparr>heap := h\<rparr>) ls' ph ts e" "alike (held ts d) d e"
    using life_alike [OF assms(3,2,1,4)] by blast
  obtain h' where h': "e = d\<lparr>heap := h'\<rparr>" "\<And>p n i. (p, n) \<in> set (held ts d) \<Longrightarrow> i < n \<Longrightarrow> h' p i = heap d p i"
    using e(2) by (rule alikeE) blast
  have "slot_bytes e sl = slot_bytes d sl" if "sl \<in> set (queue_list d)" for sl
    using that h'(2) [of "data sl" "unat (slot_size sl)"]
    by (simp add: h'(1) slot_bytes_def read_at_def held_def queue_blocks_def image_iff) (force simp: slot_block_def)
  moreover have "queue_list e = queue_list d" by (rule queue_list_frame) (simp_all add: h'(1))
  ultimately have "chan_of e = chan_of d" by (simp add: chan_of_def) (simp add: h'(1))
  moreover have "e = d\<lparr>heap := heap e\<rparr>" "trace e = trace d" "irps e = irps d" by (simp_all add: h'(1))
  ultimately show ?thesis using e(1) by blast
qed

theorem no_stale_memory_leaks_witness:
  "\<exists>ls' e. life (sample_kernel\<lparr>pool_contents := \<lambda>h i. 0x55\<rparr>) sample_wired (sample_started\<lparr>heap := \<lambda>p i. 0x77\<rparr>) ls'
      Running [Done, Done] e \<and> chan_of e = chan_of sample_pair \<and> trace e = trace sample_pair"
proof -
  obtain ls where ls: "life sample_kernel sample_wired sample_started ls Running [Done, Done] sample_pair" "timely ls"
    by (rule sample_life)
  from no_stale_memory_leaks [OF sample_shared_kernel_ok sample_starts ls, of "\<lambda>h i. 0x55" "\<lambda>p i. 0x77"]
  show ?thesis by blast
qed

end
