(* ===== verification/Edr_Pressure.thy ===== *)
theory Edr_Pressure
  imports Edr_Life
begin

text \<open>
  Pool exhaustion and the debug log (\<open>alloc_event\<close> of \<open>src/src/queue/submit.rs\<close>). A failed allocation is
  announced only every 256th time. The 32-bit counter behind the rate limit wraps, and 256 divides \<open>2 ^ 32\<close>,
  so without overflow checks the rate survives the wrap; with them every \<open>2 ^ 32\<close>th failure panics instead of
  printing its line, and the thread it happens in never returns. Nothing else in the driver touches the
  counter, prints the line or panics.
\<close>

section \<open>What the trace says\<close>

definition pool_failure :: "kcall \<Rightarrow> bool" where
  "pool_failure c = (case c of ExAllocatePool2 flags n tag p \<Rightarrow> p = null_ptr | _ \<Rightarrow> False)"

definition oom_line :: "kcall \<Rightarrow> bool" where
  "oom_line c \<longleftrightarrow> c = DbgPrint ''[WazabiEDR] alloc_event OOM''"

definition overflow_panic :: "kcall \<Rightarrow> bool" where
  "overflow_panic c \<longleftrightarrow> c = OverflowPanic"

definition failures :: "driver \<Rightarrow> nat" where
  "failures d = length (filter pool_failure (trace d))"

definition oom_lines :: "driver \<Rightarrow> nat" where
  "oom_lines d = length (filter oom_line (trace d))"

definition oom_hangs :: "driver \<Rightarrow> nat" where
  "oom_hangs d = length (filter overflow_panic (trace d))"

text \<open>How many of the first \<open>n\<close> failures panic.\<close>

definition due_panics :: "kernel \<Rightarrow> nat \<Rightarrow> nat" where
  "due_panics K n = (if overflow_checks K then n div 2 ^ 32 else 0)"

definition oom_logged :: "kernel \<Rightarrow> driver \<Rightarrow> bool" where
  "oom_logged K d \<longleftrightarrow> OOM_COUNT d = of_nat (failures d) \<and> oom_hangs d = due_panics K (failures d) \<and>
    oom_lines d + oom_hangs d = failures d div 256"

lemmas oom_defs = oom_logged_def failures_def oom_lines_def oom_hangs_def

lemmas oom_call_defs = pool_failure_def oom_line_def overflow_panic_def

text \<open>The threads that have panicked.\<close>

definition hung :: "pc list \<Rightarrow> nat" where
  "hung ts = length (filter (\<lambda>t. t = Hung) ts)"

lemma hung_simps [simp]:
  "hung [] = 0" "hung (t # ts) = (if t = Hung then Suc (hung ts) else hung ts)" "hung (us @ vs) = hung us + hung vs"
  by (simp_all add: hung_def)

section \<open>One allocation\<close>

lemma every_256th: "(of_nat n :: u32) mod OOM_LOG_EVERY = 0 \<longleftrightarrow> 256 dvd n"
proof -
  have "unat ((of_nat n :: u32) mod OOM_LOG_EVERY) = n mod 2 ^ 32 mod 256"
    by (simp add: unat_mod OOM_LOG_EVERY_def unat_of_nat take_bit_eq_mod)
  also have "\<dots> = n mod 256" by (rule mod_mod_cancel) simp
  finally show ?thesis by (simp add: unat_eq_0 [symmetric] dvd_eq_mod_eq_0)
qed

lemma of_nat_zero: "(of_nat n :: u32) = 0 \<longleftrightarrow> 2 ^ 32 dvd n"
  by (simp add: word_of_nat_eq_0_iff)

lemma Suc_div: "Suc n div m = n div m + (if m dvd Suc n then 1 else 0)"
  by (simp add: div_Suc dvd_eq_mod_eq_0)

lemma due_panics_Suc:
  assumes "OOM_COUNT d = of_nat (failures d)"
  shows "due_panics K (Suc (failures d)) = due_panics K (failures d) + (if oom_panics K d then 1 else 0)"
proof -
  have "OOM_COUNT d + 1 = of_nat (Suc (failures d))" using assms by simp
  then have "oom_panics K d \<longleftrightarrow> overflow_checks K \<and> 2 ^ 32 dvd Suc (failures d)"
    using of_nat_zero [of "Suc (failures d)"] by (simp only: oom_panics_def)
  then show ?thesis by (simp only: due_panics_def Suc_div [of "failures d" "2 ^ 32"]) auto
qed

text \<open>Every 256th failure prints or panics, and a panic is such a failure.\<close>

lemma oom_calls_split:
  assumes "OOM_COUNT d = of_nat (failures d)"
  shows "length (filter oom_line (oom_calls K d)) + length (filter overflow_panic (oom_calls K d)) =
      (if 256 dvd Suc (failures d) then 1 else 0)"
    "length (filter overflow_panic (oom_calls K d)) = (if oom_panics K d then 1 else 0)"
    "filter pool_failure (oom_calls K d) = []"
proof -
  have n: "OOM_COUNT d + 1 = of_nat (Suc (failures d))" using assms by simp
  have "256 dvd Suc (failures d)" if "oom_panics K d"
  proof -
    have "2 ^ 32 dvd Suc (failures d)"
      using that of_nat_zero [of "Suc (failures d)"] unfolding oom_panics_def n by blast
    moreover have "(256 :: nat) dvd 2 ^ 32" by simp
    ultimately show ?thesis by (rule dvd_trans [rotated])
  qed
  then show "length (filter oom_line (oom_calls K d)) + length (filter overflow_panic (oom_calls K d)) =
      (if 256 dvd Suc (failures d) then 1 else 0)"
    using every_256th [of "Suc (failures d)"] by (simp add: oom_calls_def oom_call_defs n del: of_nat_Suc)
qed (simp_all add: oom_calls_def oom_call_defs)

lemma alloc_event_oom:
  assumes "oom_logged K d"
  shows "oom_logged K (snd (alloc_event K sz d))"
    "oom_hangs (snd (alloc_event K sz d)) =
      oom_hangs d + (if fst (alloc_event K sz d) = null_ptr \<and> oom_panics K d then 1 else 0)"
    "failures (snd (alloc_event K sz d)) =
      failures d + (if fst (alloc_event K sz d) = null_ptr then 1 else 0)"
proof -
  let ?d = "snd (alloc_event K sz d)"
  have c: "OOM_COUNT d = of_nat (failures d)" "oom_hangs d = due_panics K (failures d)"
    "oom_lines d + oom_hangs d = failures d div 256"
    using assms by (simp_all add: oom_logged_def)
  note o = oom_calls_split [OF c(1), of K]
  show f: "failures ?d = failures d + (if fst (alloc_event K sz d) = null_ptr then 1 else 0)"
    using o(3) by (simp add: failures_def trace_alloc_event pool_failure_def)
  show h: "oom_hangs ?d = oom_hangs d + (if fst (alloc_event K sz d) = null_ptr \<and> oom_panics K d then 1 else 0)"
    using o(2) by (cases "oom_panics K d") (simp_all add: oom_hangs_def trace_alloc_event overflow_panic_def)
  have l: "oom_lines ?d + oom_hangs ?d = oom_lines d + oom_hangs d +
      (if fst (alloc_event K sz d) = null_ptr \<and> 256 dvd Suc (failures d) then 1 else 0)"
    using o(1) by (cases "256 dvd Suc (failures d)")
      (simp_all add: oom_lines_def oom_hangs_def trace_alloc_event overflow_panic_def oom_line_def)
  show "oom_logged K ?d"
  proof (cases "fst (alloc_event K sz d) = null_ptr")
    case True
    then have "OOM_COUNT ?d = OOM_COUNT d + 1"
      by (simp add: alloc_event_def Let_def log_call_def bump_drop_def split: if_splits)
    then show ?thesis
      using True f h l c due_panics_Suc [OF c(1), of K] by (simp add: oom_logged_def Suc_div [of "failures d" 256])
  next
    case False
    then have "OOM_COUNT ?d = OOM_COUNT d" by (auto simp: alloc_event_def Let_def log_call_def)
    then show ?thesis using False f h l c by (simp add: oom_logged_def)
  qed
qed

section \<open>Everything else\<close>

definition calm_call :: "kcall \<Rightarrow> bool" where
  "calm_call c \<longleftrightarrow> \<not> pool_failure c \<and> \<not> oom_line c \<and> \<not> overflow_panic c"

text \<open>Going from \<open>d\<close> to \<open>d'\<close> nothing happened that has to do with failed allocations.\<close>

definition calm :: "driver \<Rightarrow> driver \<Rightarrow> bool" where
  "calm d d' \<longleftrightarrow> OOM_COUNT d' = OOM_COUNT d \<and> (\<exists>cs. trace d' = trace d @ cs \<and> list_all calm_call cs)"

lemmas calm_defs = calm_def calm_call_def oom_call_defs

lemma calm_counts:
  assumes "calm d d'"
  shows "failures d' = failures d" "oom_lines d' = oom_lines d" "oom_hangs d' = oom_hangs d" "OOM_COUNT d' = OOM_COUNT d"
  using assms
  by (auto simp: calm_def calm_call_def failures_def oom_lines_def oom_hangs_def list_all_iff
      filter_empty_conv [THEN iffD2])

lemma calm_logged: "calm d d' \<Longrightarrow> oom_logged K d \<Longrightarrow> oom_logged K d'"
  using calm_counts [of d d'] by (simp add: oom_logged_def)

lemma calm_refl [simp]: "calm d d"
  by (simp add: calm_def)

lemma calmI: "OOM_COUNT d' = OOM_COUNT d \<Longrightarrow> trace d' = trace d @ cs \<Longrightarrow> list_all calm_call cs \<Longrightarrow> calm d d'"
  by (auto simp: calm_def)

lemma calm_trans:
  assumes "calm a b" "calm b c"
  shows "calm a c"
proof -
  obtain cs cs' where cs: "trace b = trace a @ cs" "list_all calm_call cs" "trace c = trace b @ cs'" "list_all calm_call cs'"
    using assms by (auto simp: calm_def)
  show ?thesis using assms cs by (intro calmI [where cs = "cs @ cs'"]) (simp_all add: calm_def)
qed

lemma calm_calls [simp]: "fill_call c \<Longrightarrow> calm_call c" "gate_call c \<Longrightarrow> calm_call c"
  by (cases c; simp add: fill_call_def gate_call_def calm_call_def oom_call_defs)+

lemma calm_fills:
  assumes "fills p n d d'"
  shows "calm d d'"
proof -
  obtain cs where "trace d' = trace d @ cs" "list_all fill_call cs" using assms by (rule fills_trace)
  then show ?thesis using fillsD(6) [OF assms] by (intro calmI [where cs = cs]) (simp_all add: list_all_iff)
qed

lemma copy_unicode_into_oom: "OOM_COUNT (snd (snd (copy_unicode_into src Local mx d))) = OOM_COUNT d"
  by (simp add: copy_unicode_into_def write_units_def log_call_def bump_trunc_def Let_def split: option.split)

lemma registry_plan_oom: "OOM_COUNT (snd (registry_plan K arg d)) = OOM_COUNT d"
proof -
  have "OOM_COUNT (snd (snd (write_key_path_from_object K object Local mx d))) = OOM_COUNT d" for object mx
    using copy_unicode_into_oom by (simp add: write_key_path_from_object_def split_beta Let_def log_call_def)
  then have "OOM_COUNT (snd (gated K object f d)) = OOM_COUNT d" for object f
    by (simp add: gated_def resolve_and_gate_object_def split_beta Let_def log_call_def)
  then show ?thesis
    by (cases arg) (simp_all add: registry_plan_def is_interesting_unicode_string_def split_beta Let_def log_call_def
        split: option.split)
qed

lemma plan_calm:
  assumes "key_names_valid K" "input_ok x" "plan K x d = (pl, d')"
  shows "calm d d'"
proof -
  have "OOM_COUNT d' = OOM_COUNT d"
    using assms(3) registry_plan_oom [of K _ d]
    by (cases x) (auto simp: plan_def split_beta split: option.splits)
  moreover obtain cs where "trace d' = trace d @ cs" "list_all gate_call cs"
    using plan_quiet(1) [OF assms] by (rule quiet_calls)
  ultimately show ?thesis by (intro calmI [where cs = cs]) (simp_all add: list_all_iff)
qed

section \<open>Steps and stages\<close>

text \<open>Threads that have still to allocate their event.\<close>

definition to_allocate :: "pc \<Rightarrow> nat" where
  "to_allocate t = (case t of Begin x \<Rightarrow> 1 | Emit lay ty fill e \<Rightarrow> (if e = E_alloc then 1 else 0) | _ \<Rightarrow> 0)"

text \<open>
  What a step does to the log: the log stays right, the panics in the trace are the threads that hang, and a
  failure uses up the one allocation the thread makes.
\<close>

definition oom_step :: "kernel \<Rightarrow> pc \<Rightarrow> driver \<Rightarrow> pc \<Rightarrow> driver \<Rightarrow> bool" where
  "oom_step K t d t' d' \<longleftrightarrow> oom_logged K d' \<and> oom_hangs d' + hung [t] = oom_hangs d + hung [t'] \<and>
    failures d' + to_allocate t' \<le> failures d + to_allocate t"

lemma calm_step:
  assumes "calm d d'" "oom_logged K d" "t' = Hung \<longleftrightarrow> t = Hung" "to_allocate t' \<le> to_allocate t"
  shows "oom_step K t d t' d'"
  using assms calm_counts [OF assms(1)] calm_logged [OF assms(1,2)] by (simp add: oom_step_def)

lemma begin_step_calm:
  assumes K: "key_names_valid K" and x: "input_ok x" and st: "begin_step K obj x d = (t', d')"
  shows "calm d d' \<and> t' \<noteq> Hung \<and> to_allocate t' \<le> 1"
proof (cases "\<exists>major i r len. x = IrpNotify major i r len")
  case True
  then show ?thesis using st
    by (auto simp: begin_step_def to_allocate_def calm_defs log_call_def split: option.splits dispatch_routine.splits)
next
  case False
  obtain pl d1 where p: "plan K x d = (pl, d1)" by (cases "plan K x d")
  show ?thesis using st plan_calm [OF K x p]
    by (auto simp: begin_eq [OF False p] to_allocate_def split: option.splits)
qed

lemma emit_step_oom:
  assumes f: "event_filler lay True fill" and st: "emit_step K lay ty fill e d = (t', d')" and ok: "oom_logged K d"
  shows "oom_step K (Emit lay ty fill e) d t' d'"
proof (cases e)
  case E_alloc
  then show ?thesis using st alloc_event_oom [OF ok, of "of_nat (size_of lay)"]
    by (auto simp: emit_step_def Let_def split_beta oom_step_def to_allocate_def split: if_splits)
next
  case (E_fill p)
  have "calm d (fill p d)" by (rule calm_fills [OF event_filler.fill_fills [OF f TrueI]])
  then show ?thesis using st E_fill ok
    by (intro calm_step) (auto simp: emit_step_def to_allocate_def)
qed (use st ok in \<open>auto intro!: calm_step simp: emit_step_def Let_def zero_mem_def write_mem_def log_call_def calm_defs
    to_allocate_def\<close>)

lemma submit_step_calm:
  assumes "submit_step K p sz s d = (t', d')"
  shows "calm d d' \<and> t' \<noteq> Hung \<and> to_allocate t' = 0"
  using assms
  by (cases s) (auto simp: submit_step_def Let_def split_beta to_allocate_def calm_defs SpinLockGuard_acquire_def
      SpinLockGuard_drop_def log_call_def take_pending_def irp_op_defs free_pool_def bump_drop_def trace_push
      frame_simps split: if_splits)

lemma get_step_calm:
  assumes "get_step K i g d = (t', d')"
  shows "calm d d' \<and> t' \<noteq> Hung \<and> to_allocate t' = 0"
  using assms
  by (cases g) (auto simp: get_step_def Let_def split_beta to_allocate_def calm_defs SpinLockGuard_acquire_def
      SpinLockGuard_drop_def log_call_def park_irp_def irp_op_defs free_pool_def bump_drop_def trace_pop
      frame_simps split: option.splits if_splits)

lemma complete_calm: "calm d (snd (complete_irp i status info d))"
  by (simp add: complete_irp_def calm_defs log_call_def)

lemma cleanup_step_calm:
  assumes "cleanup_step i c d = (t', d')"
  shows "calm d d' \<and> t' \<noteq> Hung \<and> to_allocate t' = 0"
  using assms complete_calm
  by (cases c) (auto simp: cleanup_step_def take_pending_def to_allocate_def split: if_splits, simp_all add: calm_def)

lemma step_oom:
  assumes K: "key_names_valid K" and t: "planned t" and st: "step K obj t d = (t', d')" and ok: "oom_logged K d"
  shows "oom_step K t d t' d'"
proof (cases t)
  case (Begin x)
  then have "input_ok x" using t by (simp add: planned_def)
  from begin_step_calm [OF K this] show ?thesis using Begin st ok
    by (intro calm_step) (auto simp: to_allocate_def [of "Begin x"])
next
  case (Emit lay ty fill e)
  then show ?thesis using emit_step_oom [OF _ _ ok, of lay fill ty e t' d'] t st by (simp add: planned_def)
next
  case (Send p sz s)
  then show ?thesis using submit_step_calm [of K p sz s d t' d'] st ok by (intro calm_step) auto
next
  case (Fetch i g)
  then show ?thesis using get_step_calm [of K i g d t' d'] st ok by (intro calm_step) auto
next
  case (Clean i c)
  then show ?thesis using cleanup_step_calm [of i c d t' d'] st ok by (intro calm_step) auto
next
  case (Complete i status info)
  then show ?thesis using st ok complete_calm by (intro calm_step) (auto simp: to_allocate_def)
qed (use st ok in \<open>auto intro!: calm_step\<close>)

lemma crun_oom:
  assumes "crun K obj ts d ls ts' d'" "key_names_valid K" "lock_inv ts d" "oom_logged K d" "oom_hangs d = hung ts"
  shows "oom_logged K d' \<and> oom_hangs d' = hung ts' \<and>
    failures d' + sum_list (map to_allocate ts') \<le> failures d + sum_list (map to_allocate ts) + (length ts' - length ts)"
  using assms
proof (induction rule: crun.induct)
  case (arrival ls ts' d' x)
  have "calm d' (arrives x d')" by (cases x) (simp_all add: arrives_def irp_arrives_def calm_defs log_call_def)
  moreover have "length ts \<le> length ts'" by (rule crun_bound(1) [OF arrival.hyps(1)])
  ultimately show ?case
    using arrival calm_logged calm_counts [of d' "arrives x d'"] by (auto simp: to_allocate_def Suc_diff_le)
next
  case (thread ls us t vs d' t' d'')
  then have "planned t" using crun_lock [OF thread.hyps(1)] by (simp add: lock_inv_def)
  then have "oom_step K t d' t' d''" using step_oom thread by blast
  then show ?case using thread by (auto simp: oom_step_def split: if_splits)
qed simp

lemma drain_loop_calm: "calm d (drain_loop d)"
proof (induction d rule: drain_loop.induct)
  case (1 d)
  have pop: "calm d (snd (queue_pop_locked d))" by (simp add: calm_defs trace_pop frame_simps)
  show ?case
  proof (cases "fst (queue_pop_locked d)")
    case None
    then show ?thesis using pop by (subst drain_loop.simps) (simp add: split_beta)
  next
    case (Some s)
    let ?d = "snd (queue_pop_locked d)"
    have "calm ?d (free_pool (data s) ?d)" by (simp add: free_pool_def calm_defs log_call_def)
    moreover have "calm (free_pool (data s) ?d) (drain_loop (free_pool (data s) ?d))"
      using 1 [of "Some s" ?d s] Some by (simp add: prod_eq_iff)
    ultimately have "calm d (drain_loop (free_pool (data s) ?d))" using pop calm_trans by blast
    then show ?thesis using Some by (subst drain_loop.simps) (simp add: split_beta)
  qed
qed

lemma advance_calm:
  assumes "advance K ph d = (ph', d')"
  shows "calm d d'"
proof (cases "ph = Drain")
  case True
  let ?a = "snd (SpinLockGuard_acquire K d)"
  have "calm d ?a" by (simp add: SpinLockGuard_acquire_def Let_def calm_defs log_call_def)
  moreover have "calm (drain_loop ?a) (drain_queue K d)"
    by (simp add: drain_queue_def SpinLockGuard_drop_def split_beta Let_def calm_defs log_call_def)
  ultimately have "calm d (drain_queue K d)" using drain_loop_calm [of ?a] calm_trans by blast
  then show ?thesis using True assms by simp
next
  case False
  have "calm d (snd (advance K ph d))"
    using False by (cases ph) (simp_all add: register_defs unregister_defs report_def cancel_pending_def
        take_pending_def delete_device_def complete_irp_def Let_def split_beta calm_defs log_call_def)
  then show ?thesis using assms by simp
qed

lemma starts_logged:
  assumes "starts K obj d"
  shows "oom_logged K d" "oom_hangs d = 0" "failures d = 0"
proof -
  obtain buf hp ir where b: "begin_load K (initial_driver buf hp ir) = (Inr (), d)"
    using assms by (auto simp: starts_def)
  have "calm (initial_driver buf hp ir) (snd (begin_load K (initial_driver buf hp ir)))"
    by (simp add: begin_load_def create_device_def Let_def split_beta calm_defs log_call_def)
  then have c: "calm (initial_driver buf hp ir) d" using b by simp
  have i: "oom_logged K (initial_driver buf hp ir)" "oom_hangs (initial_driver buf hp ir) = 0"
    "failures (initial_driver buf hp ir) = 0"
    by (simp_all add: oom_defs initial_driver_def due_panics_def)
  show "oom_logged K d" "oom_hangs d = 0" "failures d = 0"
    using calm_logged [OF c i(1)] calm_counts [OF c] i by simp_all
qed

lemma life_oom:
  assumes "life K obj d0 ls ph ts d" "key_names_valid K" "starts K obj d0"
  shows "oom_logged K d \<and> oom_hangs d = hung ts"
  using assms
proof (induction rule: life.induct)
  case loading
  then show ?case by (simp add: starts_logged)
next
  case (stage ls ph ts d ph' d')
  then show ?case using calm_logged calm_counts [OF advance_calm [OF stage.hyps(4)]] advance_calm [OF stage.hyps(4)]
    by metis
next
  case (threads ls ph ts d ls' ts' d')
  then have "lock_inv ts d" using life_flows by (simp add: life_flow_def)
  then show ?case using crun_oom threads by blast
qed

section \<open>A kernel without memory\<close>

lemma exhausted_key_names_valid [simp]: "key_names_valid exhausted_kernel"
  using sample_key_names_valid by (simp add: key_names_valid_def exhausted_kernel_def)

lemma exhausted_begin_load: "begin_load exhausted_kernel sample_driver = (Inr (), sample_started)"
proof -
  have "begin_load exhausted_kernel sample_driver = begin_load sample_kernel sample_driver"
    by (simp add: begin_load_def create_device_def exhausted_kernel_def Let_def split_beta)
  then show ?thesis using sample_begin_load by simp
qed

lemma exhausted_starts [simp]: "starts exhausted_kernel sample_wired sample_started"
  unfolding starts_def
  by (rule exI [of _ sample_object], intro exI conjI, simp add: sample_object_def, rule sample_wired_def)
    (rule exhausted_begin_load [unfolded sample_driver_def])

text \<open>Every thread exit that comes in is one more failed allocation.\<close>

lemma exhausted_thread:
  assumes "crun exhausted_kernel obj ts d ls ts' d'"
  shows "\<exists>ls' t d''. crun exhausted_kernel obj ts d ls' (ts' @ [t]) d'' \<and> failures d'' = Suc (failures d')"
proof -
  let ?x = "ThreadNotify 7 9 0"
    and ?e = "Emit ThreadExitEvent ThreadExit (fill_thread_exit 7 9) E_alloc"
    and ?t = "if oom_panics exhausted_kernel d' then Hung else Done"
    and ?d = "snd (alloc_event exhausted_kernel 32 d')"
  have null: "fst (alloc_event exhausted_kernel 32 d') = null_ptr"
    by (simp add: alloc_event_def Let_def exhausted_kernel_def)
  have "crun exhausted_kernel obj ts d ls (ts' @ [Begin ?x]) (arrives ?x d')"
    using assms by (rule crun.arrival) (simp_all add: valid_input_def input_irps_def)
  then have "crun exhausted_kernel obj ts d (ls @ [(Begin ?x, d')]) (ts' @ ?e # []) d'"
    by (intro crun.thread) (simp_all add: acquires_def begin_step_def plan_def arrives_def)
  then have "crun exhausted_kernel obj ts d ((ls @ [(Begin ?x, d')]) @ [(?e, d')]) (ts' @ ?t # []) ?d"
    by (rule crun.thread) (simp_all add: acquires_def emit_step_def null split_beta)
  moreover have "failures ?d = Suc (failures d')"
    using null by (auto simp: failures_def trace_alloc_event oom_calls_def pool_failure_def)
  ultimately show ?thesis by blast
qed

lemma exhausted_run:
  "\<exists>ls ts d. crun exhausted_kernel obj [] d0 ls ts d \<and> failures d = failures d0 + n"
proof (induction n)
  case 0
  have "crun exhausted_kernel obj [] d0 [] [] d0 \<and> failures d0 = failures d0 + 0" by (simp add: crun.start)
  then show ?case by blast
next
  case (Suc n)
  then obtain ls ts d where "crun exhausted_kernel obj [] d0 ls ts d" "failures d = failures d0 + n" by blast
  then show ?case using exhausted_thread by fastforce
qed

lemma exhausted_life:
  obtains ls ts d where "life exhausted_kernel sample_wired sample_started ls (Register_process 0) ts d"
    "length (filter pool_failure (trace d)) = n"
proof -
  obtain ls ts d where r: "crun exhausted_kernel sample_wired [] sample_started ls ts d" "failures d = n"
    using exhausted_run [of sample_wired sample_started n] starts_logged(3) [OF exhausted_starts] by auto
  have "life exhausted_kernel sample_wired sample_started ([] @ ls) (Register_process 0) ts d"
    using life.loading _ r(1) by (rule life.threads) (simp add: active_def)
  then show thesis using that r(2) by (simp add: failures_def)
qed

section \<open>Properties\<close>

text \<open>
  C16. Memory pressure is announced at the documented rate, until the counter behind it overflows. In every state
  of every life of the driver, whatever the interleaving: the counter has the number of failed allocations
  modulo \<open>2 ^ 32\<close>; every 256th failure prints the line or panics; in a build without overflow checks none
  panics, so that the wrap of the counter does not disturb the rate; in a build with them, as the \<open>dev\<close> profile
  makes, every \<open>2 ^ 32\<close>th failure panics, and each panic is one thread of the driver that never returns.
\<close>

theorem pool_failures_announced:
  assumes "key_names_valid K" "starts K obj d0" "life K obj d0 ls ph ts d"
    and "fails = length (filter pool_failure (trace d))" "panics = length (filter overflow_panic (trace d))"
  shows "OOM_COUNT d = of_nat fails \<and>
    length (filter oom_line (trace d)) + panics = fails div unat OOM_LOG_EVERY \<and>
    panics = (if overflow_checks K then fails div 2 ^ 32 else 0) \<and>
    length (filter (\<lambda>t. t = Hung) ts) = panics"
  using life_oom [OF assms(3,1,2)]
  by (simp add: oom_defs OOM_LOG_EVERY_def due_panics_def hung_def assms(4,5))

theorem pool_failures_announced_witness:
  "(\<exists>ls ts d. life exhausted_kernel sample_wired sample_started ls (Register_process 0) ts d \<and>
      length (filter pool_failure (trace d)) = 512 \<and> length (filter oom_line (trace d)) = 2 \<and> OOM_COUNT d = 512) \<and>
   (\<exists>ls ts d. life exhausted_kernel sample_wired sample_started ls (Register_process 0) ts d \<and>
      length (filter pool_failure (trace d)) = 2 ^ 32 \<and> length (filter overflow_panic (trace d)) = 1 \<and>
      OOM_COUNT d = 0 \<and> length (filter (\<lambda>t. t = Hung) ts) = 1)"
proof -
  have on: "overflow_checks exhausted_kernel" by (simp add: exhausted_kernel_def sample_kernel_def)
  note claim = pool_failures_announced [OF exhausted_key_names_valid exhausted_starts _ refl refl]
  obtain ls ts d where a: "life exhausted_kernel sample_wired sample_started ls (Register_process 0) ts d"
    "length (filter pool_failure (trace d)) = 512" by (rule exhausted_life)
  have "length (filter oom_line (trace d)) = 2 \<and> OOM_COUNT d = 512"
    using claim [OF a(1)] a(2) on by (auto simp: OOM_LOG_EVERY_def)
  moreover obtain ls' ts' d' where b:
    "life exhausted_kernel sample_wired sample_started ls' (Register_process 0) ts' d'"
    "length (filter pool_failure (trace d')) = 2 ^ 32" by (rule exhausted_life)
  have "length (filter overflow_panic (trace d')) = 1 \<and> OOM_COUNT d' = 0 \<and>
      length (filter (\<lambda>t. t = Hung) ts') = 1"
    using claim [OF b(1)] b(2) on by simp
  ultimately show ?thesis using a b by blast
qed

end
