(* ===== verification/Edr_Unload.thy ===== *)
theory Edr_Unload
  imports Edr_Pressure
begin

text \<open>
  Unloading can be reached from every state. The threads in the driver can be run to their ends around the
  spinlock, none of them panics unless the counter of failed allocations is about to overflow, and the stages
  that are left then leave nothing registered, parked or queued and the lock free. None of this depends on the
  order of the steps: it also holds after a request has been marked too late.
\<close>

section \<open>Running the threads to their ends\<close>

lemma to_allocate_le: "sum_list (map to_allocate ts) \<le> length ts"
proof (induction ts)
  case (Cons t ts)
  have "to_allocate t \<le> 1" by (cases t) (simp_all add: to_allocate_def)
  with Cons show ?case by simp
qed simp

lemma stopped_done:
  assumes "list_all stopped ts" "hung ts = 0"
  shows "ts = replicate (length ts) Done"
proof (rule replicate_eqI)
  fix t assume t: "t \<in> set ts"
  then have "stopped t" "t \<noteq> Hung" using assms by (auto simp: list_all_iff hung_def filter_empty_conv)
  then show "t = Done" by (cases t) simp_all
qed simp

lemma threads_end:
  assumes l: "life K obj d0 ls ph ts d" and K: "key_names_valid K" and s: "starts K obj d0"
    and room: "\<not> overflow_checks K \<or> length (filter pool_failure (trace d)) + length ts < 2 ^ 32"
  shows "\<exists>ls' d'. crun K obj ts d ls' (replicate (length ts) Done) d'"
proof -
  have inv: "lock_inv ts d" using life_flows [OF l s K] by (simp add: life_flow_def)
  have oom: "oom_logged K d" "oom_hangs d = hung ts" using life_oom [OF l K s] by simp_all
  obtain ls' ts' d' where r: "crun K obj ts d ls' ts' d'" "length ts' = length ts" "list_all stopped ts'"
    using crun_completes [OF inv K] by blast
  have o: "oom_logged K d'" "oom_hangs d' = hung ts'" "failures d' \<le> failures d + length ts"
    using crun_oom [OF r(1) K inv oom] r(2) to_allocate_le [of ts] by simp_all
  have "due_panics K (failures d') = 0"
    using o(3) room by (auto simp: due_panics_def failures_def)
  then have "hung ts' = 0" using o(1,2) by (simp add: oom_logged_def)
  then have "ts' = replicate (length ts) Done" using stopped_done [OF r(3)] r(2) by simp
  then show ?thesis using r(1) by blast
qed

section \<open>Properties\<close>

text \<open>
  C7. Unloading can be reached from every state and leaves nothing standing. Whatever has happened since loading,
  in whatever order, with any threads in the middle of their routines and any stage of loading or unloading to
  come: the threads that are there can be run to their ends, the spinlock being waited for as the code does,
  and the stages that are left, at most fifteen, lead to the unloaded driver, in which no callback is
  registered, no request is parked, nothing is queued, there is no device and the lock is free. In a build with
  overflow checks this needs that the threads that are there cannot bring the failed allocations to \<open>2 ^ 32\<close>:
  the callback that reached that number would hang, and its removal would wait for it.
\<close>

theorem unload_reached:
  assumes "key_names_valid K" "starts K obj d0" "life K obj d0 ls ph ts d"
    and "\<not> overflow_checks K \<or> length (filter pool_failure (trace d)) + length ts < 2 ^ 32"
  shows "\<exists>ls' d1 d'. life K obj d0 (ls @ ls') ph (replicate (length ts) Done) d1 \<and> stages_left ph \<le> 15 \<and>
    stages (stages_left ph) K ph d1 = (Unloaded, d') \<and>
    life K obj d0 (ls @ ls') Unloaded (replicate (length ts) Done) d' \<and>
    unregistered d' \<and> PENDING_IRP d' = null_ptr \<and> QUEUE_LEN d' = 0 \<and> CONTROL_DEVICE d' = null_ptr \<and> lock_free d'"
proof -
  have left: "stages_left ph \<le> 15" by (cases ph) simp_all
  have "\<exists>ls' d1. life K obj d0 (ls @ ls') ph (replicate (length ts) Done) d1"
  proof (cases "active ph")
    case True
    then show ?thesis using life.threads [OF assms(3) True] threads_end [OF assms(3,1,2,4)] by blast
  next
    case False
    then have "life K obj d0 (ls @ []) ph (replicate (length ts) Done) d"
      using life_alone [OF assms(3)] assms(3) by simp
    then show ?thesis by blast
  qed
  then obtain ls' d1 where l: "life K obj d0 (ls @ ls') ph (replicate (length ts) Done) d1" by blast
  obtain d' where st: "stages (stages_left ph) K ph d1 = (Unloaded, d')"
    using stages_unloaded [of ph K d1] by (metis prod.collapse)
  have l': "life K obj d0 (ls @ ls') Unloaded (replicate (length ts) Done) d'"
    using life_stages [OF assms(2,1) l _ st] by simp
  have "flags_ok Unloaded d'" "CONTROL_DEVICE d' = null_ptr" "lock_free d'"
    using life_flows [OF l' assms(2,1)] lock_inv_done [of "length ts" d'] by (simp_all add: life_flow_def)
  moreover have "queue_list d' = [] \<Longrightarrow> QUEUE_LEN d' = 0" by (simp add: queue_list_def)
  ultimately show ?thesis using l left st l' by (intro exI [of _ ls'] exI [of _ d1] exI [of _ d']) simp
qed

theorem unload_reached_witness:
  "\<exists>ls' d'. life sample_kernel sample_wired sample_started ls' Unloaded [Done] d' \<and>
    unregistered d' \<and> PENDING_IRP d' = null_ptr \<and> QUEUE_LEN d' = 0 \<and> CONTROL_DEVICE d' = null_ptr \<and> lock_free d'"
proof -
  let ?x = "ThreadNotify 7 9 0"
  have "crun sample_kernel sample_wired [] sample_started [] ([] @ [Begin ?x]) (arrives ?x sample_started)"
    by (intro crun.arrival crun.start) (simp_all add: valid_input_def input_irps_def)
  then have "crun sample_kernel sample_wired [] sample_started [] [Begin ?x] sample_started"
    by (simp add: arrives_def)
  from life.threads [OF life.loading _ this]
  have l: "life sample_kernel sample_wired sample_started [] (Register_process 0) [Begin ?x] sample_started"
    by (simp add: active_def)
  have "length (filter pool_failure (trace sample_started)) = 0"
    using starts_logged(3) [OF sample_starts] by (simp add: failures_def)
  then show ?thesis
    using unload_reached [OF sample_key_names_valid sample_starts l] by auto
qed

end
