(* ===== verification/Edr_Truncations.thy ===== *)
theory Edr_Truncations
  imports Edr_Reported Edr_Stages
begin

text \<open>
  How truncations reach the agent. A string or a data preview that does not fit its field is cut short and
  counted in \<open>TRUNC_COUNT\<close>; the next event to be stamped takes the count into its header. The count is
  checked against the inputs: how many of the strings of a notification are too long for their fields, and
  whether the driver gets as far as copying them.
\<close>

section \<open>What is too long\<close>

definition over :: "nat \<Rightarrow> unicode_string option \<Rightarrow> nat" where
  "over cap src = (if truncated cap src then 1 else 0)"

text \<open>In a process creation, and in the part of a registry notification that is copied into the event.\<close>

definition create_cuts :: "ps_create_notify_info \<Rightarrow> nat" where
  "create_cuts info = over IMAGE_PATH_MAX (ImageFileName info) + over COMMAND_LINE_MAX (CommandLine info)"

definition registry_cuts :: "reg_argument \<Rightarrow> nat" where
  "registry_cuts arg =
    (case arg of
       SetValueArg i \<Rightarrow> over REGISTRY_VALUE_NAME_MAX (sv_ValueName i) +
         (if sv_Data i \<noteq> None \<and> REGISTRY_DATA_PREVIEW_MAX < unat (sv_DataSize i) then 1 else 0)
     | DeleteValueArg i \<Rightarrow> over REGISTRY_VALUE_NAME_MAX (dv_ValueName i)
     | CreateKeyArg i \<Rightarrow> over REGISTRY_KEY_PATH_MAX (ck_CompleteName i)
     | _ \<Rightarrow> 0)"

text \<open>The path of an open key is copied to be looked at, whether or not the key is watched.\<close>

definition gate_cuts :: "kernel \<Rightarrow> reg_argument \<Rightarrow> driver \<Rightarrow> nat" where
  "gate_cuts K arg d =
    (case arg of CreateKeyArg i \<Rightarrow> 0 | _ \<Rightarrow> over REGISTRY_KEY_PATH_MAX (reg_path K arg d))"

text \<open>Nothing is copied into an event that could not be allocated.\<close>

definition if_allocated :: "kernel \<Rightarrow> layout \<Rightarrow> driver \<Rightarrow> nat \<Rightarrow> nat" where
  "if_allocated K lay d n = (if fst (alloc_event K (of_nat (size_of lay)) d) = null_ptr then 0 else n)"

definition input_cuts :: "kernel \<Rightarrow> input \<Rightarrow> driver \<Rightarrow> nat" where
  "input_cuts K x d =
    (case x of
       ProcessNotify process pid (Some info) \<Rightarrow> if_allocated K ProcessCreateEvent d (create_cuts info)
     | ImageNotify name pid info \<Rightarrow> if_allocated K ImageLoadEvent d (over IMAGE_PATH_MAX name)
     | RegistryNotify argument1 arg \<Rightarrow> gate_cuts K arg d +
         (case registry_plan K arg d of
            (None, d') \<Rightarrow> 0
          | (Some f, d') \<Rightarrow> if_allocated K RegistryEvent d' (registry_cuts arg))
     | _ \<Rightarrow> 0)"

fun run_cuts :: "kernel \<Rightarrow> driver_object \<Rightarrow> input list \<Rightarrow> driver \<Rightarrow> nat" where
  "run_cuts K obj [] d = 0"
| "run_cuts K obj (x # xs) d = input_cuts K x d + run_cuts K obj xs (handle_input K obj x d)"

lemma run_cuts_snoc:
  "run_cuts K obj (xs @ [x]) d = run_cuts K obj xs d + input_cuts K x (fold (handle_input K obj) xs d)"
  by (induction xs arbitrary: d) simp_all

section \<open>What headers carry\<close>

definition header_truncs :: "u8 list \<Rightarrow> u32" where
  "header_truncs e = trunc_count (read_header (as_block e))"

definition sent_truncs :: "chan_op list \<Rightarrow> u32" where
  "sent_truncs ops = sum_list (map header_truncs (concat (map submitted ops)))"

lemma sent_truncs_append [simp]: "sent_truncs (xs @ ys) = sent_truncs xs + sent_truncs ys"
  by (simp add: sent_truncs_def)

lemma sent_truncs_Nil [simp]: "sent_truncs [] = 0"
  by (simp add: sent_truncs_def)

section \<open>Fillers that count\<close>

text \<open>The contract of a callback with \<open>TRUNC_COUNT\<close>: it adds the number of strings it cuts short.\<close>

locale counting_filler = header_keeper lay valid fill ty
  for lay :: layout and valid :: bool and fill :: "ptr \<Rightarrow> driver \<Rightarrow> driver" and ty :: EventType +
  fixes n :: nat
  assumes counts: "valid \<Longrightarrow> TRUNC_COUNT (fill p d) = TRUNC_COUNT d + of_nat n"

lemma submit_event_truncs [simp]: "TRUNC_COUNT (submit_event K p sz d) = TRUNC_COUNT d"
proof (cases "PENDING_IRP d = null_ptr")
  case True
  then show ?thesis by (simp add: submit_enqueue [OF True refl] log_call_def frame_simps)
next
  case False
  then show ?thesis
    by (cases "sz \<le> OutputBufferLength (irps d (PENDING_IRP d))")
      (simp_all add: submit_deliver [OF refl] submit_too_small [OF refl])
qed

lemma alloc_event_truncs [simp]: "TRUNC_COUNT (snd (alloc_event K sz d)) = TRUNC_COUNT d"
  by (simp add: alloc_event_def Let_def log_call_def bump_drop_def)

context counting_filler
begin

lemma emitted_header:
  assumes valid and p: "fst (alloc_event_for K lay (event_type_u16 ty) d) \<noteq> null_ptr"
  shows "read_header (event_block K lay ty fill d) = stamped_header K lay (event_type_u16 ty) d"
proof -
  obtain b where "heap (snd (alloc_event_for K lay (event_type_u16 ty) d))
      (fst (alloc_event_for K lay (event_type_u16 ty) d)) =
      write_at 0 (header_bytes (stamped_header K lay (event_type_u16 ty) d)) (zero_block (size_of lay) b)"
    using alloc_event_for_heap(1) [OF refl p size_ok(1)] by blast
  then show ?thesis
    using keeps_header [OF assms(1)] by (simp add: event_block_def split_beta read_header_write)
qed

lemma emit_truncs:
  assumes valid
  shows "TRUNC_COUNT (emit_event K lay ty fill d) + sent_truncs (emit_ops K lay ty fill d) =
    TRUNC_COUNT d + of_nat (if_allocated K lay d n)"
proof (cases "fst (alloc_event_for K lay (event_type_u16 ty) d) = null_ptr")
  case True
  then show ?thesis
    by (simp add: emit_event_def emit_ops_def sent_truncs_def split_beta Let_def alloc_event_for_null
        fst_alloc_event_for if_allocated_def)
next
  case False
  have "header_truncs (read_at 0 (size_of lay) (event_block K lay ty fill d)) = TRUNC_COUNT d"
    using emitted_header [OF assms False] size_ok(2)
    by (simp add: header_truncs_def read_header_prefix stamped_header_def)
  then show ?thesis
    using False counts [OF assms] alloc_event_for_counters(2) [OF False]
    by (simp add: emit_event_def emit_ops_def sent_truncs_def split_beta Let_def if_allocated_def
        fst_alloc_event_for)
qed

end

section \<open>The callbacks\<close>

lemma truncs_field [simp]:
  "TRUNC_COUNT (write_field lay name bs p d) = TRUNC_COUNT d"
  "TRUNC_COUNT (log_call c d) = TRUNC_COUNT d"
  "TRUNC_COUNT (bump_trunc d) = TRUNC_COUNT d + 1"
  by (simp_all add: write_field_def write_mem_def log_call_def bump_trunc_def)

lemma truncs_copy [simp]:
  assumes "pus_valid src"
  shows "TRUNC_COUNT (copy_unicode_string_into src lay dst cap len_dst p d) = TRUNC_COUNT d + of_nat (over cap src)"
    and "TRUNC_COUNT (snd (snd (copy_unicode_into src (Field lay dst p) mx d))) = TRUNC_COUNT d + of_nat (over mx src)"
proof -
  show "TRUNC_COUNT (copy_unicode_string_into src lay dst cap len_dst p d) = TRUNC_COUNT d + of_nat (over cap src)"
    using trunc_copy_unicode_string_into [OF assms] by (simp add: over_def)
  show "TRUNC_COUNT (snd (snd (copy_unicode_into src (Field lay dst p) mx d))) = TRUNC_COUNT d + of_nat (over mx src)"
    using assms by (cases rule: copy_cases [where cap = mx])
      (simp_all add: copy_unicode_into_skips copy_unicode_into_copies write_units_def over_def)
qed

lemma truncs_preview:
  "TRUNC_COUNT (fill_data_preview info p d) = TRUNC_COUNT d +
    (if sv_Data info \<noteq> None \<and> REGISTRY_DATA_PREVIEW_MAX < unat (sv_DataSize info) then 1 else 0)"
  by (auto simp: fill_data_preview_def Let_def word_gt_0 split: option.split)

lemma truncs_registry_pieces [simp]:
  "TRUNC_COUNT (fill_registry_common K p op d) = TRUNC_COUNT d"
  "TRUNC_COUNT (write_resolved_key_path p us k d) = TRUNC_COUNT d"
  by (simp_all add: fill_registry_common_def write_resolved_key_path_def Let_def)

interpretation process_exit_count:
  counting_filler ProcessExitEvent True "fill_process_exit K pid process" ProcessExit 0 for K pid process
  by unfold_locales (simp add: fill_process_exit_def Let_def)

interpretation process_create_count:
  counting_filler ProcessCreateEvent "create_info_valid info" "fill_process_create pid info" ProcessCreate
    "create_cuts info" for pid info
  by unfold_locales (simp add: fill_process_create_def create_info_valid_def create_cuts_def)

interpretation image_load_count:
  counting_filler ImageLoadEvent "pus_valid name" "fill_image_load pid name info" ImageLoad
    "over IMAGE_PATH_MAX name" for pid name info
  by unfold_locales (simp add: fill_image_load_def fill_image_info_def split: option.split)

interpretation thread_create_count:
  counting_filler ThreadCreateEvent True "fill_thread_create K pid tid" ThreadCreate 0 for K pid tid
  by unfold_locales (simp add: fill_thread_create_def)

interpretation thread_exit_count:
  counting_filler ThreadExitEvent True "fill_thread_exit pid tid" ThreadExit 0 for pid tid
  by unfold_locales (simp add: fill_thread_exit_def)

interpretation handle_access_count:
  counting_filler ProcessHandleAccessEvent True "fill_handle_access source target desired original op"
    ProcessHandleAccess 0 for source target desired original op
  by unfold_locales (simp add: fill_handle_access_def)

interpretation registry_count:
  counting_filler RegistryEvent "reg_arg_valid argument1 arg \<and> us = copied 512 (reg_path K arg d0)"
    "planned_fill K arg (padded 512 us) (length us)" RegistryModify "registry_cuts arg"
  for argument1 arg us K d0
proof unfold_locales
  fix p d
  assume "reg_arg_valid argument1 arg \<and> us = copied 512 (reg_path K arg d0)"
  then show "TRUNC_COUNT (planned_fill K arg (padded 512 us) (length us) p d) = TRUNC_COUNT d + of_nat (registry_cuts arg)"
    by (cases arg) (simp_all add: planned_fill_def registry_cuts_def reg_arg_valid_def set_value_valid_def
        fill_set_value_def fill_delete_value_def fill_key_op_def fill_create_key_def truncs_preview Let_def split_beta)
qed

section \<open>Every input\<close>

lemma gated_truncs:
  assumes "key_names_valid K"
  shows "TRUNC_COUNT (snd (gated K object fill d)) = TRUNC_COUNT d + of_nat (over 512 (key_name K object d))"
proof -
  obtain r d' where r: "resolve_and_gate_object K object d = (r, d')" by fastforce
  then show ?thesis using resolve_and_gate_object_spec(3) [OF assms r] by (simp add: gated_def over_def)
qed

lemma registry_plan_truncs:
  assumes K: "key_names_valid K" and v: "reg_arg_valid argument1 arg"
  shows "TRUNC_COUNT (snd (registry_plan K arg d)) = TRUNC_COUNT d + of_nat (gate_cuts K arg d)"
proof (cases arg)
  case (CreateKeyArg i)
  obtain r d' where r: "is_interesting_unicode_string (ck_CompleteName i) d = (r, d')" by fastforce
  have "pus_valid (ck_CompleteName i)" using v CreateKeyArg by (simp add: reg_arg_valid_def)
  then show ?thesis using is_interesting_unicode_string_spec(3) [OF _ r] CreateKeyArg r
    by (simp add: registry_plan_def gate_cuts_def)
qed (simp_all add: registry_plan_def gate_cuts_def reg_path_def gated_truncs [OF K] REGISTRY_KEY_PATH_MAX_def,
  simp_all add: over_def truncated_def us_units_def)

lemma registry_truncs:
  assumes K: "key_names_valid K" and v: "reg_arg_valid argument1 arg"
  shows "TRUNC_COUNT (snd (registry_notify K argument1 arg d)) + sent_truncs (registry_ops K arg d) =
    TRUNC_COUNT d + of_nat (input_cuts K (RegistryNotify argument1 arg) d)"
proof -
  obtain pl d' where pl: "registry_plan K arg d = (pl, d')" by fastforce
  have g: "TRUNC_COUNT d' = TRUNC_COUNT d + of_nat (gate_cuts K arg d)"
    using registry_plan_truncs [OF K v, of d] pl by simp
  show ?thesis
  proof (cases pl)
    case None
    then show ?thesis using g pl
      by (simp add: registry_notify_eq [OF v] emit_planned_def registry_ops_def input_cuts_def)
  next
    case (Some f)
    let ?us = "copied 512 (reg_path K arg d)"
    have f: "f = planned_fill K arg (padded 512 ?us) (length ?us)"
      using registry_plan_spec(2) [OF K v pl] Some by (simp split: if_splits)
    have "TRUNC_COUNT (emit_event K RegistryEvent RegistryModify f d') +
        sent_truncs (emit_ops K RegistryEvent RegistryModify f d') =
        TRUNC_COUNT d' + of_nat (if_allocated K RegistryEvent d' (registry_cuts arg))"
      unfolding f using v by (intro registry_count.emit_truncs) blast
    then show ?thesis using g pl Some
      by (simp add: registry_notify_eq [OF v] emit_planned_def registry_ops_def input_cuts_def add.assoc)
  qed
qed

lemma call_dispatch_truncs: "TRUNC_COUNT (snd (call_dispatch K obj major i d)) = TRUNC_COUNT d"
proof -
  have "TRUNC_COUNT (snd (dispatch_device_control K i d)) = TRUNC_COUNT d"
    by (simp add: dispatch_device_control_def SpinLockGuard_acquire_def SpinLockGuard_drop_def irp_op_defs
        park_irp_def free_pool_def bump_drop_def log_call_def Let_def split_beta frame_simps
        split: option.split)
  then show ?thesis
    by (simp add: call_dispatch_def dispatch_invalid_def dispatch_create_close_def dispatch_cleanup_def
        complete_irp_def take_pending_def Let_def split: option.split dispatch_routine.split)
qed

lemma dispatch_truncs:
  "TRUNC_COUNT (snd (call_dispatch K obj major i (irp_arrives i r len d))) + sent_truncs (dispatch_ops major i r) =
    TRUNC_COUNT d"
  by (simp add: call_dispatch_truncs dispatch_ops_def sent_truncs_def irp_arrives_def split: dispatch_routine.split)

lemma handle_input_truncs:
  assumes "key_names_valid K" "valid_input x d"
  shows "TRUNC_COUNT (handle_input K obj x d) + sent_truncs (input_ops K x d) =
    TRUNC_COUNT d + of_nat (input_cuts K x d)"
proof (cases x)
  case (ProcessNotify process pid ci)
  then show ?thesis using assms(2) process_exit_count.emit_truncs [OF TrueI] process_create_count.emit_truncs
    by (cases ci) (simp_all add: handle_input_def input_ops_def input_cuts_def valid_input_def process_notify_def
        process_ops_def process_info_valid_def emit_process_create_eq emit_process_exit_eq if_allocated_def)
next
  case (ImageNotify name pid info)
  then show ?thesis using assms(2) image_load_count.emit_truncs
    by (simp add: handle_input_def input_ops_def input_cuts_def valid_input_def image_load_notify_def
        image_ops_def emit_image_load_eq)
next
  case (ThreadNotify pid tid create)
  then show ?thesis using thread_create_count.emit_truncs [OF TrueI] thread_exit_count.emit_truncs [OF TrueI]
    by (simp add: handle_input_def input_ops_def input_cuts_def thread_notify_def thread_ops_def
        emit_thread_create_eq emit_thread_exit_eq if_allocated_def)
next
  case (ObjectNotify info)
  then show ?thesis using handle_access_count.emit_truncs [OF TrueI]
    by (simp add: handle_input_def input_ops_def input_cuts_def process_object_notify_eq object_ops_def
        emit_handle_access_eq if_allocated_def split: option.split)
next
  case (RegistryNotify argument1 arg)
  then show ?thesis using registry_truncs [OF assms(1)] assms(2)
    by (simp add: handle_input_def input_ops_def valid_input_def)
next
  case (IrpNotify major i r len)
  then show ?thesis using dispatch_truncs by (simp add: handle_input_def input_ops_def input_cuts_def)
qed

section \<open>Whole runs\<close>

lemma truncs_carry_on:
  fixes a b c m n s t :: u32
  assumes "a + s = b + m" "b + t = c + n"
  shows "a + (t + s) = c + (n + m)"
proof -
  have "a + (t + s) = (a + s) + t" by (simp add: add_ac)
  also have "\<dots> = (b + t) + m" unfolding assms(1) by (simp add: add_ac)
  also have "\<dots> = c + (n + m)" unfolding assms(2) by (simp add: add_ac)
  finally show ?thesis .
qed

lemma run_truncs:
  assumes "run K obj d xs d'" "key_names_valid K"
  shows "TRUNC_COUNT d' + sent_truncs (run_ops K obj xs d) = TRUNC_COUNT d + of_nat (run_cuts K obj xs d)"
  using assms(1)
proof (induction rule: run.induct)
  case start
  then show ?case by simp
next
  case (step xs d' x)
  note one = handle_input_truncs [OF assms(2) step.hyps(2), of obj]
  then show ?case
    using truncs_carry_on [OF one step.IH] run_state [OF step.hyps(1)]
    by (simp add: run_ops_snoc run_cuts_snoc)
qed

lemma loading_truncs:
  "TRUNC_COUNT (snd (create_device K d)) = TRUNC_COUNT d"
  "TRUNC_COUNT (snd (register_process K x)) = TRUNC_COUNT (snd x)"
  "TRUNC_COUNT (snd (register_image K x)) = TRUNC_COUNT (snd x)"
  "TRUNC_COUNT (snd (register_registry K x)) = TRUNC_COUNT (snd x)"
  "TRUNC_COUNT (snd (register_thread K x)) = TRUNC_COUNT (snd x)"
  "TRUNC_COUNT (snd (register_object K x)) = TRUNC_COUNT (snd x)"
  by (simp_all add: create_device_def register_defs split_beta Let_def log_call_def)

lemma loads_truncs:
  assumes "loads K obj d"
  shows "TRUNC_COUNT d = 0"
proof -
  have "TRUNC_COUNT (snd (snd (driver_entry K obj0 d0))) = TRUNC_COUNT d0" for obj0 d0
    by (simp add: driver_entry_def Let_def split_beta loading_truncs split: sum.split)
  then have "TRUNC_COUNT (snd (snd (driver_entry K obj0 (initial_driver buf hp ir)))) = 0" for obj0 buf hp ir
    by (simp add: initial_driver_def)
  then show ?thesis using assms unfolding loads_def by (metis snd_conv)
qed

text \<open>
  C11. Truncations are accounted for. After a successful load and any sequence of valid notifications and
  requests, the truncation counts in the headers of all submitted events and the counter's current value add up,
  modulo \<open>2 ^ 32\<close>, to the number of strings and previews the driver has copied that were too long for
  their fields: each is counted once and handed to one event. Among them are the paths that are copied only to be
  looked at: they are counted even when the key is not watched and no event carries the cut path, which is
  more than the comments on the counter say it counts.
\<close>

theorem truncations_accounted:
  assumes "kernel_ok K" "loads K obj d" "run K obj d xs d'"
  shows "TRUNC_COUNT d' + sent_truncs (run_ops K obj xs d) = of_nat (run_cuts K obj xs d)"
  using run_truncs [OF assms(3)] assms(1) loads_truncs [OF assms(2)] by (simp add: kernel_ok_def)

text \<open>An image load with a path of 600 units: one is cut short.\<close>

definition long_name :: "unicode_string option" where
  "long_name = Some \<lparr>Length = 1200, Buffer = Some (replicate 600 0x41)\<rparr>"

lemma long_name_facts: "pus_valid long_name" "truncated 512 long_name"
  by (simp_all add: long_name_def pus_valid_def us_valid_def truncated_def us_units_def)

theorem truncations_accounted_witness:
  "TRUNC_COUNT (handle_input sample_kernel sample_wired (ImageNotify long_name 7 None) sample_loaded) +
    sent_truncs (run_ops sample_kernel sample_wired [ImageNotify long_name 7 None] sample_loaded) = 1"
proof -
  let ?x = "ImageNotify long_name 7 None"
  have "run sample_kernel sample_wired sample_loaded ([] @ [?x])
      (handle_input sample_kernel sample_wired ?x sample_loaded)"
    by (rule run.step [OF run.start]) (simp add: valid_input_def long_name_facts)
  moreover have "fst (alloc_event sample_kernel 1070 sample_loaded) \<noteq> null_ptr"
    by (simp add: alloc_event_def Let_def sample_kernel_def next_block_def)
  then have "run_cuts sample_kernel sample_wired [?x] sample_loaded = 1"
    by (simp add: input_cuts_def if_allocated_def over_def long_name_facts IMAGE_PATH_MAX_def)
  ultimately show ?thesis
    using truncations_accounted [OF sample_kernel_ok sample_loads] by fastforce
qed

end
