(* ===== verification/Edr_Irql.thy ===== *)
theory Edr_Irql
  imports Edr_Stages
begin

text \<open>
  Interrupt request levels. Windows documents for every routine the highest level it may be called at; memory
  that may be paged out must not be touched at \<open>DISPATCH_LEVEL\<close>. A thread enters the driver at the level of
  whoever notifies it (the object callback at up to \<open>DISPATCH_LEVEL\<close>, by the contract its module states; the
  others at \<open>PASSIVE_LEVEL\<close>), taking the spinlock raises it to \<open>DISPATCH_LEVEL\<close>, and releasing the lock
  goes back to the level handed to \<open>KeReleaseSpinLock\<close>. What is checked are the calls the trace has an entry
  for. The routines that only read something (\<open>KeQuerySystemTimePrecise\<close>, \<open>PsGetCurrentProcessId\<close>,
  \<open>PsGetProcessId\<close>, \<open>PsGetProcessExitStatus\<close>, \<open>IoGetCurrentProcess\<close>, \<open>RtlSubAuthorityCountSid\<close>,
  \<open>RtlSubAuthoritySid\<close>) and \<open>RtlInitUnicodeString\<close> have none, and nothing is shown about the levels they are
  called at. Nor has a panic a level of its own.
\<close>

section \<open>Levels\<close>

definition PASSIVE_LEVEL :: u8 where "PASSIVE_LEVEL = 0"
definition APC_LEVEL :: u8 where "APC_LEVEL = 1"
definition DISPATCH_LEVEL :: u8 where "DISPATCH_LEVEL = 2"

lemmas level_defs = PASSIVE_LEVEL_def APC_LEVEL_def DISPATCH_LEVEL_def

text \<open>
  The documented limits. The strings and structures a callback reads may be pageable, so reading them
  is limited like the registry routines are. For registering and removing, and for the routines of the
  resolvers, \<open>PASSIVE_LEVEL\<close> is used throughout: some of them are documented for \<open>APC_LEVEL\<close> too.
\<close>

definition max_irql :: "kcall \<Rightarrow> u8" where
  "max_irql c =
    (case c of
       ExAllocatePool2 flags bytes tag p \<Rightarrow>
         if flags = POOL_FLAG_NON_PAGED then DISPATCH_LEVEL else APC_LEVEL
     | ReadSource n avail \<Rightarrow> APC_LEVEL
     | CmCallbackGetKeyObjectIDEx cookie object status name \<Rightarrow> APC_LEVEL
     | CmCallbackReleaseKeyObjectIDEx name \<Rightarrow> APC_LEVEL
     | IoCreateDevice ext name type characteristics exclusive status device \<Rightarrow> APC_LEVEL
     | IoDeleteDevice device \<Rightarrow> APC_LEVEL
     | IoCreateSymbolicLink link target status \<Rightarrow> PASSIVE_LEVEL
     | IoDeleteSymbolicLink link \<Rightarrow> PASSIVE_LEVEL
     | PsSetCreateProcessNotifyRoutineEx remove status \<Rightarrow> PASSIVE_LEVEL
     | PsSetLoadImageNotifyRoutine status \<Rightarrow> PASSIVE_LEVEL
     | PsRemoveLoadImageNotifyRoutine \<Rightarrow> PASSIVE_LEVEL
     | CmRegisterCallback status cookie \<Rightarrow> PASSIVE_LEVEL
     | CmUnRegisterCallback cookie \<Rightarrow> PASSIVE_LEVEL
     | PsSetCreateThreadNotifyRoutine status \<Rightarrow> PASSIVE_LEVEL
     | PsRemoveCreateThreadNotifyRoutine \<Rightarrow> PASSIVE_LEVEL
     | ObRegisterCallbacks registration status handle \<Rightarrow> PASSIVE_LEVEL
     | ObUnRegisterCallbacks handle \<Rightarrow> PASSIVE_LEVEL
     | PsLookupProcessByProcessId pid status p \<Rightarrow> PASSIVE_LEVEL
     | SeLocateProcessImageName process status name \<Rightarrow> PASSIVE_LEVEL
     | PsReferencePrimaryToken process token \<Rightarrow> PASSIVE_LEVEL
     | PsDereferencePrimaryToken token \<Rightarrow> PASSIVE_LEVEL
     | SeQueryInformationToken token class status blob \<Rightarrow> PASSIVE_LEVEL
     | RtlConvertSidToUnicodeString sid status buffer \<Rightarrow> PASSIVE_LEVEL
     | RtlFreeUnicodeString buffer \<Rightarrow> PASSIVE_LEVEL
     | _ \<Rightarrow> DISPATCH_LEVEL)"

text \<open>\<open>KeReleaseSpinLock\<close> has to be called at \<open>DISPATCH_LEVEL\<close>.\<close>

definition callable_at :: "u8 \<Rightarrow> kcall \<Rightarrow> bool" where
  "callable_at l c \<longleftrightarrow>
    l \<le> max_irql c \<and> (case c of KeReleaseSpinLock q \<Rightarrow> l = DISPATCH_LEVEL | _ \<Rightarrow> True)"

definition irql_after :: "u8 \<Rightarrow> kcall \<Rightarrow> u8" where
  "irql_after l c =
    (case c of KeAcquireSpinLockRaiseToDpc q \<Rightarrow> DISPATCH_LEVEL | KeReleaseSpinLock q \<Rightarrow> q | _ \<Rightarrow> l)"

fun irql_run :: "u8 \<Rightarrow> history \<Rightarrow> u8 option" where
  "irql_run l [] = Some l"
| "irql_run l (c # cs) = (if callable_at l c then irql_run (irql_after l c) cs else None)"

lemmas irql_defs = callable_at_def irql_after_def max_irql_def

lemma irql_run_append:
  "irql_run l (xs @ ys) = (case irql_run l xs of None \<Rightarrow> None | Some l' \<Rightarrow> irql_run l' ys)"
  by (induction xs arbitrary: l) auto

lemma levels_ordered:
  "l \<le> PASSIVE_LEVEL \<Longrightarrow> l \<le> APC_LEVEL" "l \<le> APC_LEVEL \<Longrightarrow> l \<le> DISPATCH_LEVEL"
  "l \<le> PASSIVE_LEVEL \<Longrightarrow> l \<le> DISPATCH_LEVEL" "\<not> DISPATCH_LEVEL \<le> APC_LEVEL"
  by (simp_all add: level_defs word_le_nat_alt unat_eq_0)

text \<open>Filling in an event and resolving a key name may be done up to \<open>APC_LEVEL\<close>.\<close>

lemma paged_calls_run:
  "list_all (\<lambda>c. fill_call c \<or> gate_call c) cs \<Longrightarrow> l \<le> APC_LEVEL \<Longrightarrow> irql_run l cs = Some l"
  using levels_ordered(2)
  by (induction cs) (auto simp: irql_defs fill_call_def gate_call_def split: kcall.splits)

section \<open>What a routine does to the level\<close>

definition runs_at :: "u8 \<Rightarrow> u8 \<Rightarrow> driver \<Rightarrow> driver \<Rightarrow> bool" where
  "runs_at l l' d d' \<longleftrightarrow> (\<exists>cs. trace d' = trace d @ cs \<and> irql_run l cs = Some l')"

lemma runs_at_same: "trace d' = trace d \<Longrightarrow> runs_at l l d d'"
  by (simp add: runs_at_def)

lemma runs_at_call:
  "trace d' = trace d @ [c] \<Longrightarrow> callable_at l c \<Longrightarrow> l' = irql_after l c \<Longrightarrow> runs_at l l' d d'"
  by (simp add: runs_at_def)

lemma runs_at_trans:
  assumes "runs_at l l' d d'" "runs_at l' l'' d' d''"
  shows "runs_at l l'' d d''"
proof -
  obtain cs cs' where "trace d' = trace d @ cs" "irql_run l cs = Some l'"
    "trace d'' = trace d' @ cs'" "irql_run l' cs' = Some l''"
    using assms by (auto simp: runs_at_def)
  then have "trace d'' = trace d @ cs @ cs' \<and> irql_run l (cs @ cs') = Some l''" by (simp add: irql_run_append)
  then show ?thesis unfolding runs_at_def by (rule exI)
qed

lemma runs_at_fills: "fills p n d d' \<Longrightarrow> l \<le> APC_LEVEL \<Longrightarrow> runs_at l l d d'"
  using paged_calls_run by (fastforce simp: runs_at_def list_all_iff elim!: fills_trace)

lemma runs_at_quiet: "quiet d d' \<Longrightarrow> l \<le> APC_LEVEL \<Longrightarrow> runs_at l l d d'"
  using paged_calls_run by (fastforce simp: runs_at_def list_all_iff elim!: quiet_calls)

lemma runs_at_log: "callable_at l c \<Longrightarrow> irql_after l c = l \<Longrightarrow> runs_at l l d (log_call c d)"
  by (simp add: runs_at_def log_call_def)

section \<open>Threads\<close>

text \<open>The level a notification or request arrives at, as the modules of the callbacks state it.\<close>

definition input_irql :: "input \<Rightarrow> u8" where
  "input_irql x = (case x of ObjectNotify info \<Rightarrow> DISPATCH_LEVEL | _ \<Rightarrow> PASSIVE_LEVEL)"

text \<open>The level of a thread that entered the driver at level \<open>b\<close>.\<close>

definition thread_irql :: "u8 \<Rightarrow> pc \<Rightarrow> u8" where
  "thread_irql b t = (if guards t = [] then b else DISPATCH_LEVEL)"

text \<open>
  The calls one thread makes, whatever other threads do in between: each of its steps may find any
  state. The kernel answers an acquisition with the level the thread had.
\<close>

inductive thread_run :: "kernel \<Rightarrow> driver_object \<Rightarrow> u8 \<Rightarrow> pc \<Rightarrow> history \<Rightarrow> pc \<Rightarrow> bool"
  for K :: kernel and obj :: driver_object and b :: u8 and t :: pc where
  enters: "thread_run K obj b t [] t"
| steps: "thread_run K obj b t cs t' \<Longrightarrow> ret_KeAcquireSpinLockRaiseToDpc K (trace d) = b \<Longrightarrow>
    step K obj t' d = (t'', d') \<Longrightarrow> trace d' = trace d @ cs' \<Longrightarrow> thread_run K obj b t (cs @ cs') t''"

definition level_ok :: "u8 \<Rightarrow> pc \<Rightarrow> bool" where
  "level_ok b t \<longleftrightarrow> b \<le> DISPATCH_LEVEL \<and> list_all (\<lambda>g. saved_irql g = b) (guards t) \<and>
    (case t of
       Begin x \<Rightarrow> input_ok x \<and> b \<le> input_irql x
     | Emit lay ty fill e \<Rightarrow> (\<forall>p d. runs_at b b d (fill p d))
     | _ \<Rightarrow> True)"

lemma begin_step_irql:
  assumes K: "key_names_valid K" and ok: "level_ok b (Begin x)" and st: "begin_step K obj x d = (t', d')"
  shows "runs_at b (thread_irql b t') d d' \<and> level_ok b t'"
proof -
  have x: "input_ok x" "b \<le> input_irql x" "b \<le> DISPATCH_LEVEL" using ok by (simp_all add: level_ok_def)
  consider (irp) major i r len where "x = IrpNotify major i r len" | (object) info where "x = ObjectNotify info"
    | (paged) "\<nexists>major i r len. x = IrpNotify major i r len" "b \<le> APC_LEVEL"
    using x(2) levels_ordered(1) by (cases x) (auto simp: input_irql_def)
  then show ?thesis
  proof cases
    case irp
    then show ?thesis using st x(3)
      by (auto simp: begin_step_def thread_irql_def level_ok_def runs_at_same log_call_def
          intro: runs_at_call [where c = Panic] split: option.splits dispatch_routine.splits)
        (simp_all add: runs_at_def irql_defs)
  next
    case object
    have "runs_at b b e (fill_handle_access s u ds orig op p e)" for s u ds orig op p e
      using x(3) by (simp add: runs_at_def fill_handle_access_def write_field_def write_mem_def log_call_def irql_defs)
    then show ?thesis using st x(3) object
      by (auto simp: begin_step_def plan_def thread_irql_def level_ok_def runs_at_same split: option.splits)
  next
    case paged
    obtain pl d1 where p: "plan K x d = (pl, d1)" by (cases "plan K x d")
    note q = plan_quiet [OF K x(1) p]
    have "runs_at b b e (fill pp e)" if "pl = Some (lay, ty, fill)" for lay ty fill pp e
      using runs_at_fills [OF event_filler.fill_fills [OF q(2) [OF that] TrueI] paged(2)] .
    then show ?thesis using st runs_at_quiet [OF q(1) paged(2)] x(3)
      by (auto simp: begin_eq [OF paged(1) p] thread_irql_def level_ok_def split: option.splits)
  qed
qed

lemma emit_step_irql:
  assumes ok: "level_ok b (Emit lay ty fill e)" and st: "emit_step K lay ty fill e d = (t', d')"
  shows "runs_at b (thread_irql b t') d d' \<and> level_ok b t'"
proof -
  have f: "b \<le> DISPATCH_LEVEL" "\<And>p d. runs_at b b d (fill p d)" using ok by (simp_all add: level_ok_def)
  have "runs_at b b d (snd (alloc_event K sz d))" for sz
    using f(1) by (simp add: runs_at_def trace_alloc_event oom_calls_def irql_defs)
  then show ?thesis using st f
    by (cases e) (auto simp: emit_step_def Let_def split_beta thread_irql_def level_ok_def zero_mem_def write_mem_def
        runs_at_def log_call_def irql_defs)
qed

lemma submit_step_irql:
  assumes ok: "level_ok b (Send p sz s)" and q: "ret_KeAcquireSpinLockRaiseToDpc K (trace d) = b"
    and st: "submit_step K p sz s d = (t', d')"
  shows "runs_at (thread_irql b (Send p sz s)) (thread_irql b t') d d' \<and> level_ok b t'"
  using ok st q
  by (cases s) (auto simp: submit_step_def Let_def split_beta thread_irql_def level_ok_def runs_at_def irql_defs
      SpinLockGuard_acquire_def SpinLockGuard_drop_def log_call_def take_pending_def irp_op_defs free_pool_def
      bump_drop_def trace_push split: if_splits)

lemma get_step_irql:
  assumes ok: "level_ok b (Fetch i g)" and q: "ret_KeAcquireSpinLockRaiseToDpc K (trace d) = b"
    and st: "get_step K i g d = (t', d')"
  shows "runs_at (thread_irql b (Fetch i g)) (thread_irql b t') d d' \<and> level_ok b t'"
  using ok st q
  by (cases g) (auto simp: get_step_def Let_def split_beta thread_irql_def level_ok_def runs_at_def irql_defs
      SpinLockGuard_acquire_def SpinLockGuard_drop_def log_call_def park_irp_def irp_op_defs free_pool_def
      bump_drop_def trace_pop split: option.splits)

lemma complete_irql: "b \<le> DISPATCH_LEVEL \<Longrightarrow> runs_at b b d (snd (complete_irp i status info d))"
  by (simp add: runs_at_def complete_irp_def log_call_def irql_defs)

lemma step_irql:
  assumes K: "key_names_valid K" and ok: "level_ok b t" and q: "ret_KeAcquireSpinLockRaiseToDpc K (trace d) = b"
    and st: "step K obj t d = (t', d')"
  shows "runs_at (thread_irql b t) (thread_irql b t') d d' \<and> level_ok b t'"
proof (cases t)
  case (Begin x)
  then show ?thesis using begin_step_irql [OF K, of b x obj d t' d'] ok st by (simp add: thread_irql_def)
next
  case (Emit lay ty fill e)
  then show ?thesis using emit_step_irql [of b lay ty fill e K d t' d'] ok st by (simp add: thread_irql_def)
next
  case (Send p sz s)
  then show ?thesis using submit_step_irql [OF _ q, of p sz s t' d'] ok st by simp
next
  case (Fetch i g)
  then show ?thesis using get_step_irql [OF _ q, of i g t' d'] ok st by simp
next
  case (Clean i c)
  then show ?thesis using ok st complete_irql
    by (cases c) (auto simp: cleanup_step_def take_pending_def thread_irql_def level_ok_def runs_at_same split: if_splits)
next
  case (Complete i status info)
  then show ?thesis using ok st complete_irql by (auto simp: thread_irql_def level_ok_def)
qed (use ok st in \<open>auto simp: runs_at_same\<close>)

lemma thread_run_irql:
  assumes "thread_run K obj b t cs t'" "key_names_valid K" "level_ok b t"
  shows "irql_run (thread_irql b t) cs = Some (thread_irql b t') \<and> level_ok b t'"
  using assms
proof (induction rule: thread_run.induct)
  case (steps cs t' d t'' d' cs')
  then have ih: "irql_run (thread_irql b t) cs = Some (thread_irql b t')" "level_ok b t'" by simp_all
  have "runs_at (thread_irql b t') (thread_irql b t'') d d' \<and> level_ok b t''"
    using step_irql [OF steps.prems(1) ih(2) steps.hyps(2,3)] .
  then show ?case using ih(1) steps.hyps(4) by (auto simp: runs_at_def irql_run_append)
qed simp

text \<open>A thread can always go on, from any state that answers with its level.\<close>

lemma thread_run_iterate:
  assumes K: "key_names_valid K" "level_ok b t" and q: "ret_KeAcquireSpinLockRaiseToDpc K (trace d) = b"
  shows "\<exists>cs. thread_run K obj b t cs (((\<lambda>t. fst (step K obj t d)) ^^ n) t)"
proof (induction n)
  case 0
  show ?case unfolding funpow_0 by (rule exI, rule thread_run.enters)
next
  case (Suc n)
  let ?t = "((\<lambda>t. fst (step K obj t d)) ^^ n) t"
  obtain cs where cs: "thread_run K obj b t cs ?t" using Suc by blast
  have "level_ok b ?t" using thread_run_irql [OF cs K] by simp
  from step_irql [OF K(1) this q prod.collapse [symmetric]]
  obtain cs' where "trace (snd (step K obj ?t d)) = trace d @ cs'" by (auto simp: runs_at_def)
  from thread_run.steps [OF cs q prod.collapse [symmetric] this] show ?case by auto
qed

section \<open>Loading and unloading\<close>

text \<open>Both routines are called at \<open>PASSIVE_LEVEL\<close>; only draining the queue raises the level, and goes back.\<close>

lemma drain_loop_irql: "runs_at DISPATCH_LEVEL DISPATCH_LEVEL d (drain_loop d)"
proof (induction d rule: drain_loop.induct)
  case (1 d)
  have pop: "runs_at DISPATCH_LEVEL DISPATCH_LEVEL d (snd (queue_pop_locked d))"
    by (rule runs_at_call [OF trace_pop]) (simp_all add: irql_defs)
  show ?case
  proof (cases "fst (queue_pop_locked d)")
    case None
    then show ?thesis using pop by (subst drain_loop.simps) (simp add: split_beta)
  next
    case (Some s)
    let ?d = "snd (queue_pop_locked d)"
    have "runs_at DISPATCH_LEVEL DISPATCH_LEVEL ?d (free_pool (data s) ?d)"
      by (simp add: free_pool_def runs_at_log irql_defs)
    then have "runs_at DISPATCH_LEVEL DISPATCH_LEVEL d (drain_loop (free_pool (data s) ?d))"
      using 1 [of "Some s" ?d s] Some by (simp add: runs_at_trans [OF pop] runs_at_trans prod_eq_iff)
    then show ?thesis using Some by (subst drain_loop.simps) (simp add: split_beta)
  qed
qed

lemma drain_queue_irql:
  assumes "ret_KeAcquireSpinLockRaiseToDpc K (trace d) = PASSIVE_LEVEL"
  shows "runs_at PASSIVE_LEVEL PASSIVE_LEVEL d (drain_queue K d)"
proof -
  let ?a = "log_call (KeAcquireSpinLockRaiseToDpc PASSIVE_LEVEL) d"
  have e: "drain_queue K d = log_call (KeReleaseSpinLock PASSIVE_LEVEL) (drain_loop ?a)"
    using assms by (simp add: drain_queue_def SpinLockGuard_acquire_def SpinLockGuard_drop_def)
  have "runs_at PASSIVE_LEVEL DISPATCH_LEVEL d ?a"
    by (simp add: runs_at_def log_call_def irql_defs levels_ordered)
  moreover have "runs_at DISPATCH_LEVEL PASSIVE_LEVEL (drain_loop ?a) (drain_queue K d)"
    unfolding e by (simp add: runs_at_def log_call_def irql_defs)
  ultimately show ?thesis using drain_loop_irql [of ?a] runs_at_trans by blast
qed

lemma advance_irql:
  assumes "ret_KeAcquireSpinLockRaiseToDpc K (trace d) = PASSIVE_LEVEL" "advance K ph d = (ph', d')"
  shows "runs_at PASSIVE_LEVEL PASSIVE_LEVEL d d'"
proof (cases "ph = Drain")
  case True
  then show ?thesis using drain_queue_irql [OF assms(1)] assms(2) by simp
next
  case False
  have "runs_at PASSIVE_LEVEL PASSIVE_LEVEL d (snd (advance K ph d))"
    using False levels_ordered complete_irql [of PASSIVE_LEVEL]
    by (cases ph) (simp_all add: register_defs unregister_defs report_def cancel_pending_def take_pending_def
        delete_device_def complete_irp_def Let_def split_beta runs_at_def log_call_def irql_defs)
  then show ?thesis using assms(2) by simp
qed

lemma begin_load_irql: "runs_at PASSIVE_LEVEL PASSIVE_LEVEL d (snd (begin_load K d))"
  using levels_ordered
  by (simp add: begin_load_def create_device_def Let_def split_beta runs_at_def log_call_def irql_defs)

section \<open>A concrete thread\<close>

text \<open>A handle with \<open>PROCESS_VM_READ\<close> is opened at \<open>DISPATCH_LEVEL\<close>; the thread takes eleven steps.\<close>

definition sample_access :: ob_pre_operation_information where
  "sample_access =
    \<lparr>Operation = 1, KernelHandle = 0, Object = 9, Parameters = Some
       \<lparr>CreateHandleInformation = \<lparr>DesiredAccess = 0, OriginalDesiredAccess = 0x10\<rparr>,
        DuplicateHandleInformation = \<lparr>DesiredAccess = 0, OriginalDesiredAccess = 0\<rparr>\<rparr>\<rparr>"

lemma sample_object_thread:
  "((\<lambda>t. fst (step (sample_kernel\<lparr>ret_KeAcquireSpinLockRaiseToDpc := \<lambda>h. DISPATCH_LEVEL\<rparr>) sample_wired t
      sample_driver)) ^^ 11) (Begin (ObjectNotify (Some sample_access))) = Done"
proof -
  let ?K = "sample_kernel\<lparr>ret_KeAcquireSpinLockRaiseToDpc := \<lambda>h. DISPATCH_LEVEL\<rparr>"
  have "access_report ?K sample_driver (Some sample_access) = Some (4, 9, 0, 0x10, Create)"
    by (simp add: access_report_def sample_access_def OB_OPERATION_HANDLE_CREATE_def asks_dangerous_def
        dangerous_rights_def)
  then have "fst (step ?K sample_wired (Begin (ObjectNotify (Some sample_access))) sample_driver) =
      Emit ProcessHandleAccessEvent ProcessHandleAccess (fill_handle_access 4 9 0 0x10 Create) E_alloc"
    by (simp add: begin_step_def plan_def object_gate_report)
  moreover have "fst (alloc_event ?K sz sample_driver) \<noteq> null_ptr" for sz
    by (simp add: alloc_event_def Let_def sample_kernel_def next_block_def)
  moreover have "PENDING_IRP sample_driver = null_ptr" by (simp add: sample_driver_def initial_driver_def)
  ultimately show ?thesis
    by (simp add: eval_nat_numeral emit_step_def submit_step_def take_pending_def SpinLockGuard_acquire_def Let_def
        split_beta del: step.simps(3))
qed

section \<open>Properties\<close>

text \<open>
  C8. Interrupt request levels are respected. Whatever other threads do in between, a callback or request that
  enters the driver at a level its module allows for, up to \<open>DISPATCH_LEVEL\<close> for the object callback, calls
  every kernel routine the trace records at a level the routine allows: nothing that may be paged is touched with the spinlock
  held, an object callback makes no paged allocation, and the level the spinlock guard hands back is the
  one the thread came with.
\<close>

theorem irql_respected:
  assumes "key_names_valid K" "input_ok x" "b \<le> input_irql x" "thread_run K obj b (Begin x) cs t"
  shows "irql_run b cs = Some (thread_irql b t)"
proof -
  have "b \<le> DISPATCH_LEVEL" using assms(3) levels_ordered(3) by (cases x) (auto simp: input_irql_def)
  then have "level_ok b (Begin x)" using assms(2,3) by (simp add: level_ok_def)
  then show ?thesis using thread_run_irql [OF assms(4,1)] by (simp add: thread_irql_def)
qed

theorem irql_respected_witness:
  "\<exists>cs. thread_run (sample_kernel\<lparr>ret_KeAcquireSpinLockRaiseToDpc := \<lambda>h. DISPATCH_LEVEL\<rparr>) sample_wired DISPATCH_LEVEL
      (Begin (ObjectNotify (Some sample_access))) cs Done \<and> irql_run DISPATCH_LEVEL cs = Some DISPATCH_LEVEL"
proof -
  let ?K = "sample_kernel\<lparr>ret_KeAcquireSpinLockRaiseToDpc := \<lambda>h. DISPATCH_LEVEL\<rparr>"
    and ?x = "ObjectNotify (Some sample_access)"
  have K: "key_names_valid ?K" using sample_key_names_valid by (simp add: key_names_valid_def)
  have x: "input_ok ?x" "DISPATCH_LEVEL \<le> input_irql ?x" by (simp_all add: input_ok_def input_irql_def)
  then have l: "level_ok DISPATCH_LEVEL (Begin ?x)" by (simp add: level_ok_def)
  obtain cs where cs: "thread_run ?K sample_wired DISPATCH_LEVEL (Begin ?x) cs Done"
    using thread_run_iterate [OF K l, of sample_driver sample_wired 11] sample_object_thread by auto
  then show ?thesis using irql_respected [OF K x cs] by (auto simp: thread_irql_def)
qed

text \<open>
  C15. The stages of loading and unloading stay within their levels: run at \<open>PASSIVE_LEVEL\<close>, each stage calls
  every kernel routine the trace records at a level it allows and ends at \<open>PASSIVE_LEVEL\<close>, whatever has happened since the
  stage before.
\<close>

theorem stages_irql:
  assumes "ret_KeAcquireSpinLockRaiseToDpc K (trace d) = PASSIVE_LEVEL" "advance K ph d = (ph', d')"
    and "begin_load K d0 = (r, d1)"
  shows "\<exists>cs cs1. trace d' = trace d @ cs \<and> irql_run PASSIVE_LEVEL cs = Some PASSIVE_LEVEL \<and>
    trace d1 = trace d0 @ cs1 \<and> irql_run PASSIVE_LEVEL cs1 = Some PASSIVE_LEVEL"
  using advance_irql [OF assms(1,2)] begin_load_irql [of d0 K] assms(3) by (simp add: runs_at_def)

theorem stages_irql_witness:
  "\<exists>cs. trace (drain_queue sample_kernel sample_driver) = trace sample_driver @ cs \<and>
    irql_run PASSIVE_LEVEL cs = Some PASSIVE_LEVEL"
proof -
  have q: "ret_KeAcquireSpinLockRaiseToDpc sample_kernel (trace sample_driver) = PASSIVE_LEVEL"
    by (simp add: sample_kernel_def PASSIVE_LEVEL_def)
  have a: "advance sample_kernel Drain sample_driver = (Delete, drain_queue sample_kernel sample_driver)" by simp
  from stages_irql [OF q a prod.collapse [symmetric]] show ?thesis by blast
qed

end
