(* ===== verification/Edr_Accounting.thy ===== *)
theory Edr_Accounting
  imports Edr_Sample
begin

text \<open>
  The two loss counters. \<open>make_header\<close> moves both into the header of the event being built, so a count
  travels with that event: it is reported if the event is delivered, and gone if the event itself is
  lost. The reportable total is the counter plus what the queued events carry.
\<close>

section \<open>What can still be reported\<close>

definition carried :: "driver \<Rightarrow> slot \<Rightarrow> u32" where
  "carried d s = drop_count (read_header (heap d (data s)))"

definition reportable :: "driver \<Rightarrow> u32" where
  "reportable d = DROP_COUNT d + sum_list (map (carried d) (queue_list d))"

lemma carried_frame: "heap d' = heap d \<Longrightarrow> carried d' = carried d"
  by (rule ext) (simp add: carried_def)

lemma map_carried_tl:
  fixes f :: "'a \<Rightarrow> u32"
  shows "xs \<noteq> [] \<Longrightarrow> sum_list (map f (tl xs)) = sum_list (map f xs) - f (hd xs)"
  by (cases xs) simp_all

section \<open>Properties\<close>

text \<open>
  Stamping a header moves both counters into it and resets them: the loss count of the header is
  the counter, and the counters start again from zero. Schema version, type and size are the ones
  asked for.
\<close>

lemma make_header_moves_counters:
  "make_header K ty sz d =
    (\<lparr>version = 6, htype = ty, timestamp = ret_KeQuerySystemTimePrecise K (trace d), hsize = sz,
      drop_count = DROP_COUNT d, trunc_count = TRUNC_COUNT d\<rparr>, d\<lparr>DROP_COUNT := 0, TRUNC_COUNT := 0\<rparr>)"
  by (simp add: make_header_def EVENT_VERSION_def Let_def)

text \<open>
  An allocation that fails counts one loss, wrapping at \<open>2 ^ 32\<close>, and changes neither the queue nor
  the parked request nor the truncation count; one that succeeds counts nothing.
\<close>

lemma alloc_event_failure_counted:
  "DROP_COUNT (snd (alloc_event K sz d)) =
     DROP_COUNT d + (if fst (alloc_event K sz d) = null_ptr then 1 else 0) \<and>
   TRUNC_COUNT (snd (alloc_event K sz d)) = TRUNC_COUNT d \<and>
   queue_list (snd (alloc_event K sz d)) = queue_list d \<and>
   PENDING_IRP (snd (alloc_event K sz d)) = PENDING_IRP d"
  using same_globalsD [OF same_globals_alloc [of d K sz]]
  by (simp add: alloc_event_def Let_def log_call_def bump_drop_def)

text \<open>
  C39. Pushing onto a full queue loses what the evicted event was carrying: the reportable total goes
  up by one for the evicted event and by what the new event carries, and down by what the evicted
  event carried, which no later header will report.
\<close>

theorem eviction_forgets_carried_losses:
  assumes "ring_ok d" "QUEUE_LEN d = QUEUE_CAP"
  shows "reportable (snd (queue_push_locked p sz d)) =
    reportable d + 1 + carried d \<lparr>data = p, slot_size = sz\<rparr> - carried d (hd (queue_list d))"
proof -
  let ?d = "snd (queue_push_locked p sz d)"
  have c: "carried ?d = carried d" by (rule carried_frame) (simp add: frame_simps)
  have "length (queue_list d) = QUEUE_CAP" using assms(2) by (simp add: length_queue_list)
  then have "queue_list d \<noteq> []" by (metis QUEUE_CAP_pos length_greater_0_conv)
  then show ?thesis
    using assms push_queue_list [OF assms(1), of p sz]
    by (simp add: reportable_def c frame_simps map_carried_tl)
qed

text \<open>A full queue whose oldest event carries two losses.\<close>

definition full_driver :: driver where
  "full_driver = sample_driver
    \<lparr>QUEUE_BUF := (\<lambda>i. \<lparr>data = Suc i, slot_size = 32\<rparr>), QUEUE_LEN := QUEUE_CAP,
     heap := (\<lambda>p. if p = 1 then write_at 0 (header_bytes
       \<lparr>version = 6, htype = 6, timestamp = 0, hsize = 32, drop_count = 2, trunc_count = 0\<rparr>) (\<lambda>_. 0)
       else (\<lambda>_. 0))\<rparr>"

lemma full_driver_ring: "ring_ok full_driver" "QUEUE_LEN full_driver = QUEUE_CAP"
  by (simp_all add: full_driver_def ring_ok_def sample_driver_def initial_driver_def)

lemma read_header_zero: "drop_count (read_header (\<lambda>_. 0)) = 0"
  by (simp add: read_header_def)

theorem eviction_forgets_carried_losses_witness:
  "reportable (snd (queue_push_locked 5000 32 full_driver)) = reportable full_driver - 1"
proof -
  have "hd (queue_list full_driver) = \<lparr>data = 1, slot_size = 32\<rparr>"
    using hd_queue_list [of full_driver]
    by (simp add: full_driver_def sample_driver_def initial_driver_def)
  then have "carried full_driver (hd (queue_list full_driver)) = 2"
    by (simp add: carried_def full_driver_def read_header_write)
  moreover have "carried full_driver \<lparr>data = 5000, slot_size = 32\<rparr> = 0"
    by (simp add: carried_def full_driver_def read_header_zero)
  ultimately show ?thesis
    using eviction_forgets_carried_losses [OF full_driver_ring, of 5000 32] by simp
qed

end
