(* ===== verification/Edr_Resolvers.thy ===== *)
theory Edr_Resolvers
  imports Edr_Process
begin

text \<open>
  The three resolvers of \<open>src/src/callbacks/process.rs\<close> that are compiled but not called: the parent's
  image path, the user's SID and the integrity level. What is checked is their layered clean-up: on
  every path each reference is dropped and each buffer given back, exactly once.
\<close>

section \<open>Operations\<close>

definition TOKEN_USER_CLASS :: u32 where "TOKEN_USER_CLASS = 1"
definition TOKEN_INTEGRITY_LEVEL_CLASS :: u32 where "TOKEN_INTEGRITY_LEVEL_CLASS = 25"
definition INTEGRITY_LEVEL_UNRESOLVED :: u32 where "INTEGRITY_LEVEL_UNRESOLVED = 0xFFFFFFFF"

definition fill_parent_image_path ::
  "kernel \<Rightarrow> u32 \<Rightarrow> layout \<Rightarrow> string \<Rightarrow> string \<Rightarrow> ptr \<Rightarrow> driver \<Rightarrow> driver" where
  "fill_parent_image_path K parent_pid lay dst len_dst evt d =
    (if parent_pid = 0 then d
     else
       let (status, peproc) = ret_PsLookupProcessByProcessId K (trace d) (ucast parent_pid);
           d = log_call (PsLookupProcessByProcessId (ucast parent_pid) status peproc) d
       in if status \<noteq> STATUS_SUCCESS \<or> peproc = null_ptr then d
          else
            let (status, image_name, s) = ret_SeLocateProcessImageName K (trace d) peproc;
                d = log_call (SeLocateProcessImageName peproc status image_name) d;
                d = (if status = STATUS_SUCCESS \<and> image_name \<noteq> null_ptr then
                       let d = copy_unicode_string_into (Some s) lay dst IMAGE_PATH_MAX len_dst evt d
                       in log_call (ExFreePool image_name) d
                     else d)
            in log_call (ObfDereferenceObject peproc) d)"

text \<open>
  \<open>ret_SeQueryInformationToken\<close> returns the status, the blob and the SID pointer the blob begins
  with; \<open>ret_RtlConvertSidToUnicodeString\<close> the status, the buffer pointer and the string.
\<close>

definition fill_user_sid ::
  "kernel \<Rightarrow> layout \<Rightarrow> string \<Rightarrow> string \<Rightarrow> ptr \<Rightarrow> driver \<Rightarrow> driver" where
  "fill_user_sid K lay dst len_dst evt d =
    (let process = ret_IoGetCurrentProcess K (trace d);
         token = ret_PsReferencePrimaryToken K (trace d) process;
         d = log_call (PsReferencePrimaryToken process token) d
     in if token = null_ptr then d
        else
          let (status, token_info, sid) = ret_SeQueryInformationToken K (trace d) token TOKEN_USER_CLASS;
              d = log_call (SeQueryInformationToken token TOKEN_USER_CLASS status token_info) d;
              d = (if status = STATUS_SUCCESS \<and> token_info \<noteq> null_ptr then
                     let d = (if sid \<noteq> null_ptr then
                                let (status, buffer, sid_str) =
                                      ret_RtlConvertSidToUnicodeString K (trace d) sid;
                                    d = log_call (RtlConvertSidToUnicodeString sid status buffer) d
                                in (case Buffer sid_str of
                                      None \<Rightarrow> d
                                    | Some units \<Rightarrow>
                                        if status = STATUS_SUCCESS \<and> Length sid_str > 0 then
                                          let chars = unat (Length sid_str div 2);
                                              copy = min chars (USER_SID_MAX - 1);
                                              d = (if chars > copy then bump_trunc d else d);
                                              d = log_call (ReadSource copy (length units)) d;
                                              d = write_field lay dst (bytes_of_units (take copy units)) evt d;
                                              d = write_field lay len_dst (bytes16 (of_nat copy)) evt d
                                          in log_call (RtlFreeUnicodeString buffer) d
                                        else d)
                              else d)
                     in log_call (ExFreePool token_info) d
                   else d)
          in log_call (PsDereferencePrimaryToken token) d)"

definition resolve_integrity_level :: "kernel \<Rightarrow> driver \<Rightarrow> u32 \<times> driver" where
  "resolve_integrity_level K d =
    (let process = ret_IoGetCurrentProcess K (trace d);
         token = ret_PsReferencePrimaryToken K (trace d) process;
         d = log_call (PsReferencePrimaryToken process token) d
     in if token = null_ptr then (INTEGRITY_LEVEL_UNRESOLVED, d)
        else
          let (status, blob, sid) = ret_SeQueryInformationToken K (trace d) token TOKEN_INTEGRITY_LEVEL_CLASS;
              d = log_call (SeQueryInformationToken token TOKEN_INTEGRITY_LEVEL_CLASS status blob) d;
              (result, d) =
                (if status = STATUS_SUCCESS \<and> blob \<noteq> null_ptr then
                   let result =
                         (if sid \<noteq> null_ptr then
                            (case ret_RtlSubAuthorityCountSid K (trace d) sid of
                               None \<Rightarrow> INTEGRITY_LEVEL_UNRESOLVED
                             | Some count \<Rightarrow>
                                 if count > 0 then
                                   (case ret_RtlSubAuthoritySid K (trace d) sid (ucast (count - 1)) of
                                      None \<Rightarrow> INTEGRITY_LEVEL_UNRESOLVED
                                    | Some rid \<Rightarrow> rid)
                                 else INTEGRITY_LEVEL_UNRESOLVED)
                          else INTEGRITY_LEVEL_UNRESOLVED)
                   in (result, log_call (ExFreePool blob) d)
                 else (INTEGRITY_LEVEL_UNRESOLVED, d))
          in (result, log_call (PsDereferencePrimaryToken token) d))"

section \<open>What the resolvers rely on\<close>

text \<open>
  A buffer the system allocates for the caller is not one that is in use, strings are well formed,
  and a SID converted with success gives a buffer with a string that is not empty.
\<close>

definition blob_fresh :: "history \<Rightarrow> u32 \<Rightarrow> ptr \<Rightarrow> bool" where
  "blob_fresh h status p \<longleftrightarrow>
    (\<forall>m. mon_run h mon0 = Some m \<longrightarrow> status = STATUS_SUCCESS \<longrightarrow> p \<noteq> null_ptr \<longrightarrow> m_live m p = None)"

definition resolver_kernel_ok :: "kernel \<Rightarrow> bool" where
  "resolver_kernel_ok K \<longleftrightarrow>
    (\<forall>h p. case ret_SeLocateProcessImageName K h p of (status, name, s) \<Rightarrow> blob_fresh h status name \<and> us_valid s) \<and>
    (\<forall>h t c. case ret_SeQueryInformationToken K h t c of (status, blob, sid) \<Rightarrow> blob_fresh h status blob) \<and>
    (\<forall>h sid. case ret_RtlConvertSidToUnicodeString K h sid of (status, buffer, s) \<Rightarrow>
       us_valid s \<and> (status = STATUS_SUCCESS \<longrightarrow> buffer \<noteq> null_ptr \<and> Buffer s \<noteq> None \<and> Length s > 0))"

lemma resolver_kernel_okD:
  assumes "resolver_kernel_ok K"
  shows "case ret_SeLocateProcessImageName K h p of (status, name, s) \<Rightarrow> blob_fresh h status name \<and> us_valid s"
    "\<And>c. case ret_SeQueryInformationToken K h p c of (status, blob, sid) \<Rightarrow> blob_fresh h status blob"
    "case ret_RtlConvertSidToUnicodeString K h p of (status, buffer, s) \<Rightarrow>
       us_valid s \<and> (status = STATUS_SUCCESS \<longrightarrow> buffer \<noteq> null_ptr \<and> Buffer s \<noteq> None \<and> Length s > 0)"
  using assms by (simp_all add: resolver_kernel_ok_def)

section \<open>Clean-up\<close>

text \<open>The event being filled stays live while a blob of the system is held beside it.\<close>

definition holding :: "ptr \<Rightarrow> nat \<Rightarrow> driver \<Rightarrow> monitor \<Rightarrow> bool" where
  "holding evt n d m \<longleftrightarrow> mon_of d = Some m \<and> m_live m evt = Some n"

lemma holding_fills: "holding p n d m \<Longrightarrow> fills p n d d' \<Longrightarrow> holding p n d' m"
  using fillsD(17) by (simp add: holding_def)

lemma holding_call:
  "holding p n d m \<Longrightarrow> mon_step c m = Some m' \<Longrightarrow> m_live m' p = Some n \<Longrightarrow> holding p n (log_call c d) m'"
  by (simp add: holding_def mon_simps)

lemma fun_upd_undo: "f x = v \<Longrightarrow> f(x := v) = f"
  by auto

lemma blob_balance:
  assumes "m_live m b = None"
  shows "m\<lparr>m_live := (m_live m)(b := None)\<rparr> = m"
  using fun_upd_undo [of "m_live m" b None] assms by simp

text \<open>A blob is taken and freed around a step that keeps the monitor.\<close>

lemma holding_blob:
  assumes h: "holding p n d m" and fresh: "m_live m b = None"
    and c: "mon_step c m = Some (m\<lparr>m_live := (m_live m)(b := Some 0)\<rparr>)"
    and f: "\<And>m'. holding p n (log_call c d) m' \<Longrightarrow> holding p n d' m'"
  shows "holding p n (log_call (ExFreePool b) d') m"
proof -
  let ?m = "m\<lparr>m_live := (m_live m)(b := Some 0)\<rparr>"
  have ne: "p \<noteq> b" using h fresh by (auto simp: holding_def)
  have "holding p n (log_call c d) ?m" using h c ne by (intro holding_call) (auto simp: holding_def)
  then have "holding p n d' ?m" by (rule f)
  moreover have "?m\<lparr>m_live := (m_live ?m)(b := None)\<rparr> = m" using blob_balance [OF fresh] by simp
  ultimately show ?thesis using h by (intro holding_call) (auto simp: holding_def)
qed

text \<open>A reference is taken and dropped around a step that keeps the monitor.\<close>

lemma holding_ref:
  assumes h: "holding p n d m"
    and c: "mon_step c m = Some (m\<lparr>m_refs := (m_refs m)(r := Suc (m_refs m r))\<rparr>)"
    and c': "c' = ObfDereferenceObject r \<or> c' = PsDereferencePrimaryToken r"
    and f: "\<And>m'. holding p n (log_call c d) m' \<Longrightarrow> holding p n d' m'"
  shows "holding p n (log_call c' d') m"
proof -
  let ?m = "m\<lparr>m_refs := (m_refs m)(r := Suc (m_refs m r))\<rparr>"
  have "holding p n (log_call c d) ?m" using h c by (intro holding_call) (auto simp: holding_def)
  then have "holding p n d' ?m" by (rule f)
  then show ?thesis using c' by (auto simp: holding_def mon_simps)
qed

lemma holding_string:
  assumes h: "holding p n d m"
    and c: "mon_step c m = Some (m\<lparr>m_strings := (m_strings m)(r := Suc (m_strings m r))\<rparr>)"
    and f: "\<And>m'. holding p n (log_call c d) m' \<Longrightarrow> holding p n d' m'"
  shows "holding p n (log_call (RtlFreeUnicodeString r) d') m"
proof -
  let ?m = "m\<lparr>m_strings := (m_strings m)(r := Suc (m_strings m r))\<rparr>"
  have "holding p n (log_call c d) ?m" using h c by (intro holding_call) (auto simp: holding_def)
  then have "holding p n d' ?m" by (rule f)
  then show ?thesis by (auto simp: holding_def mon_simps)
qed

lemma blob_freshD:
  "blob_fresh (trace d) status p \<Longrightarrow> holding evt n d m \<Longrightarrow> status = STATUS_SUCCESS \<Longrightarrow> p \<noteq> null_ptr \<Longrightarrow>
   m_live m p = None"
  by (simp add: blob_fresh_def holding_def mon_of_def)

lemma fill_parent_image_path_balanced:
  assumes K: "resolver_kernel_ok K" and h: "holding evt (size_of lay) d m"
    and dst: "dst \<in> fst ` set lay" "2 * (IMAGE_PATH_MAX - 1) \<le> field_width lay dst"
    and len: "len_dst \<in> fst ` set lay" "2 \<le> field_width lay len_dst"
  shows "holding evt (size_of lay) (fill_parent_image_path K pid lay dst len_dst evt d) m"
proof -
  obtain st peproc where r: "ret_PsLookupProcessByProcessId K (trace d) (ucast pid) = (st, peproc)"
    by (rule prod.exhaust)
  let ?c = "PsLookupProcessByProcessId (ucast pid) st peproc"
  let ?d1 = "log_call ?c d"
  obtain st2 name s where r2: "ret_SeLocateProcessImageName K (trace ?d1) peproc = (st2, name, s)"
    by (rule prod_cases3)
  let ?c2 = "SeLocateProcessImageName peproc st2 name"
  have K2: "blob_fresh (trace ?d1) st2 name" "us_valid s"
    using resolver_kernel_okD(1) [OF K, of "trace ?d1" peproc] r2 by simp_all
  show ?thesis
  proof (cases "pid = 0 \<or> st \<noteq> STATUS_SUCCESS \<or> peproc = null_ptr")
    case True
    then show ?thesis using h holding_call [of evt "size_of lay" d m ?c m]
      by (auto simp: fill_parent_image_path_def r holding_def)
  next
    case False
    let ?d3 = "if st2 = STATUS_SUCCESS \<and> name \<noteq> null_ptr
      then log_call (ExFreePool name) (copy_unicode_string_into (Some s) lay dst IMAGE_PATH_MAX len_dst evt
        (log_call ?c2 ?d1)) else log_call ?c2 ?d1"
    have "holding evt (size_of lay) ?d3 m'" if h1: "holding evt (size_of lay) ?d1 m'" for m'
    proof (cases "st2 = STATUS_SUCCESS \<and> name \<noteq> null_ptr")
      case True
      note fresh = blob_freshD [OF K2(1) h1]
      have f: "fills evt (size_of lay) (log_call ?c2 ?d1)
          (copy_unicode_string_into (Some s) lay dst IMAGE_PATH_MAX len_dst evt (log_call ?c2 ?d1))"
        using dst len K2(2) by (intro fills_copy_unicode_string_into fills_refl refl) (simp_all add: pus_valid_def)
      show ?thesis using True fresh holding_fills [OF _ f]
        by (simp, intro holding_blob [OF h1, of name ?c2]) simp_all
    next
      case False
      have "holding evt (size_of lay) (log_call ?c2 ?d1) m'"
        using h1 False by (intro holding_call [OF h1]) (auto simp: holding_def)
      then show ?thesis using False by auto
    qed
    then have "holding evt (size_of lay) (log_call (ObfDereferenceObject peproc) ?d3) m"
      using False by (intro holding_ref [OF h, of ?c peproc]) simp_all
    moreover have "fill_parent_image_path K pid lay dst len_dst evt d = log_call (ObfDereferenceObject peproc) ?d3"
      using False r2 by (auto simp: fill_parent_image_path_def r Let_def)
    ultimately show ?thesis by simp
  qed
qed

text \<open>The copy of the SID string, with its clean-up.\<close>

definition sid_copy :: "kernel \<Rightarrow> ptr \<Rightarrow> layout \<Rightarrow> string \<Rightarrow> string \<Rightarrow> ptr \<Rightarrow> driver \<Rightarrow> driver" where
  "sid_copy K sid lay dst len_dst evt d =
    (let (status, buffer, sid_str) = ret_RtlConvertSidToUnicodeString K (trace d) sid;
         d = log_call (RtlConvertSidToUnicodeString sid status buffer) d
     in (case Buffer sid_str of
           None \<Rightarrow> d
         | Some units \<Rightarrow>
             if status = STATUS_SUCCESS \<and> Length sid_str > 0 then
               let chars = unat (Length sid_str div 2);
                   copy = min chars (USER_SID_MAX - 1);
                   d = (if chars > copy then bump_trunc d else d);
                   d = log_call (ReadSource copy (length units)) d;
                   d = write_field lay dst (bytes_of_units (take copy units)) evt d;
                   d = write_field lay len_dst (bytes16 (of_nat copy)) evt d
               in log_call (RtlFreeUnicodeString buffer) d
             else d))"

lemma sid_copy_balanced:
  assumes K: "resolver_kernel_ok K" and h: "holding evt (size_of lay) d m"
    and dst: "dst \<in> fst ` set lay" "2 * (USER_SID_MAX - 1) \<le> field_width lay dst"
    and len: "len_dst \<in> fst ` set lay" "2 \<le> field_width lay len_dst"
  shows "holding evt (size_of lay) (sid_copy K sid lay dst len_dst evt d) m"
proof -
  obtain st buffer s where r: "ret_RtlConvertSidToUnicodeString K (trace d) sid = (st, buffer, s)"
    by (rule prod_cases3)
  have K2: "us_valid s" "st = STATUS_SUCCESS \<Longrightarrow> buffer \<noteq> null_ptr \<and> Buffer s \<noteq> None \<and> Length s > 0"
    using resolver_kernel_okD(3) [OF K, of "trace d" sid] r by simp_all
  let ?c = "RtlConvertSidToUnicodeString sid st buffer"
  show ?thesis
  proof (cases "st = STATUS_SUCCESS")
    case False
    then have "sid_copy K sid lay dst len_dst evt d = log_call ?c d"
      by (simp add: sid_copy_def r Let_def split: option.splits)
    then show ?thesis using False h holding_call [of evt "size_of lay" d m ?c m]
      by (simp add: holding_def)
  next
    case True
    with K2 obtain us where us: "Buffer s = Some us" "Length s > 0" "buffer \<noteq> null_ptr" by auto
    let ?d = "copy_unicode_string_into (Some s) lay dst USER_SID_MAX len_dst evt (log_call ?c d)"
    have f: "fills evt (size_of lay) (log_call ?c d) ?d"
      using dst len K2(1) by (intro fills_copy_unicode_string_into fills_refl refl) (simp_all add: pus_valid_def)
    have "sid_copy K sid lay dst len_dst evt d = log_call (RtlFreeUnicodeString buffer) ?d"
      using us True by (simp add: sid_copy_def r copy_unicode_string_into_def Let_def word_neq_0_conv)
    moreover have "holding evt (size_of lay) (log_call (RtlFreeUnicodeString buffer) ?d) m"
      using True us(3) holding_fills [OF _ f] by (intro holding_string [OF h, of ?c buffer]) simp_all
    ultimately show ?thesis by simp
  qed
qed

lemma fill_user_sid_balanced:
  assumes K: "resolver_kernel_ok K" and h: "holding evt (size_of lay) d m"
    and dst: "dst \<in> fst ` set lay" "2 * (USER_SID_MAX - 1) \<le> field_width lay dst"
    and len: "len_dst \<in> fst ` set lay" "2 \<le> field_width lay len_dst"
  shows "holding evt (size_of lay) (fill_user_sid K lay dst len_dst evt d) m"
proof -
  define process where "process = ret_IoGetCurrentProcess K (trace d)"
  define token where "token = ret_PsReferencePrimaryToken K (trace d) process"
  let ?c = "PsReferencePrimaryToken process token"
  let ?d1 = "log_call ?c d"
  obtain st blob sid where r: "ret_SeQueryInformationToken K (trace ?d1) token TOKEN_USER_CLASS = (st, blob, sid)"
    by (rule prod_cases3)
  let ?c2 = "SeQueryInformationToken token TOKEN_USER_CLASS st blob"
  have K2: "blob_fresh (trace ?d1) st blob"
    using resolver_kernel_okD(2) [OF K, of "trace ?d1" token TOKEN_USER_CLASS] r by simp
  define d2 where "d2 = (if sid \<noteq> null_ptr then sid_copy K sid lay dst len_dst evt (log_call ?c2 ?d1)
    else log_call ?c2 ?d1)"
  define d3 where "d3 = (if st = STATUS_SUCCESS \<and> blob \<noteq> null_ptr then log_call (ExFreePool blob) d2
    else log_call ?c2 ?d1)"
  have e: "fill_user_sid K lay dst len_dst evt d =
      (if token = null_ptr then ?d1 else log_call (PsDereferencePrimaryToken token) d3)"
    using r by (simp add: fill_user_sid_def d3_def d2_def sid_copy_def Let_def flip: process_def token_def)
  have "holding evt (size_of lay) d3 m'" if h1: "holding evt (size_of lay) ?d1 m'" for m'
  proof (cases "st = STATUS_SUCCESS \<and> blob \<noteq> null_ptr")
    case True
    have "holding evt (size_of lay) d2 m2" if "holding evt (size_of lay) (log_call ?c2 ?d1) m2" for m2
      using that sid_copy_balanced [OF K that dst len, of sid] by (simp add: d2_def)
    then show ?thesis using True blob_freshD [OF K2 h1]
      by (simp add: d3_def, intro holding_blob [OF h1, of blob ?c2]) simp_all
  next
    case False
    then have "holding evt (size_of lay) (log_call ?c2 ?d1) m'"
      using h1 by (intro holding_call [OF h1]) (auto simp: holding_def)
    then show ?thesis using False by (auto simp: d3_def)
  qed
  then have "token \<noteq> null_ptr \<Longrightarrow> holding evt (size_of lay) (log_call (PsDereferencePrimaryToken token) d3) m"
    by (intro holding_ref [OF h, of ?c token]) simp_all
  moreover have "token = null_ptr \<Longrightarrow> holding evt (size_of lay) ?d1 m"
    using h by (intro holding_call [OF h]) (auto simp: holding_def)
  ultimately show ?thesis by (simp add: e)
qed

lemma resolve_integrity_level_balanced:
  assumes K: "resolver_kernel_ok K" and m: "mon_of d = Some m"
  shows "mon_of (snd (resolve_integrity_level K d)) = Some m"
proof -
  define process where "process = ret_IoGetCurrentProcess K (trace d)"
  define token where "token = ret_PsReferencePrimaryToken K (trace d) process"
  let ?d1 = "log_call (PsReferencePrimaryToken process token) d"
  obtain st blob sid where
    r: "ret_SeQueryInformationToken K (trace ?d1) token TOKEN_INTEGRITY_LEVEL_CLASS = (st, blob, sid)"
    by (rule prod_cases3)
  let ?c2 = "SeQueryInformationToken token TOKEN_INTEGRITY_LEVEL_CLASS st blob"
  have K2: "blob_fresh (trace ?d1) st blob"
    using resolver_kernel_okD(2) [OF K, of "trace ?d1" token TOKEN_INTEGRITY_LEVEL_CLASS] r by simp
  have e: "snd (resolve_integrity_level K d) =
      (if token = null_ptr then ?d1
       else log_call (PsDereferencePrimaryToken token)
         (if st = STATUS_SUCCESS \<and> blob \<noteq> null_ptr then log_call (ExFreePool blob) (log_call ?c2 ?d1)
          else log_call ?c2 ?d1))"
    using r by (simp add: resolve_integrity_level_def Let_def flip: process_def token_def)
  let ?m1 = "m\<lparr>m_refs := (m_refs m)(token := Suc (m_refs m token))\<rparr>"
  have m1: "token \<noteq> null_ptr \<Longrightarrow> mon_of ?d1 = Some ?m1" using m by (simp add: mon_simps)
  have "st = STATUS_SUCCESS \<Longrightarrow> blob \<noteq> null_ptr \<Longrightarrow> token \<noteq> null_ptr \<Longrightarrow> m_live m blob = None"
    using K2 m1 by (simp add: blob_fresh_def mon_of_def)
  then show ?thesis using m m1 by (auto simp: e mon_simps blob_balance)
qed

section \<open>Properties\<close>

text \<open>
  Resolving the parent's image path into a live event leaves the monitor where it was: the
  reference on the parent is dropped and the name buffer freed, once each, on every path.
\<close>

lemma fill_parent_image_path_cleans_up:
  assumes "resolver_kernel_ok K" "mon_of d = Some m" "m_live m evt = Some (size_of ProcessCreateEvent)"
  shows "mon_of (fill_parent_image_path K pid ProcessCreateEvent ''parent_image_path''
    ''parent_image_path_len'' evt d) = Some m"
proof -
  have "holding evt (size_of ProcessCreateEvent) (fill_parent_image_path K pid ProcessCreateEvent
      ''parent_image_path'' ''parent_image_path_len'' evt d) m"
    using assms by (intro fill_parent_image_path_balanced)
      (simp_all add: holding_def, simp_all add: ProcessCreateEvent_def max_defs)
  then show ?thesis by (simp add: holding_def)
qed

text \<open>A state with one event allocated, for the witnesses.\<close>

definition sample_event_state :: driver where
  "sample_event_state = log_call (ExAllocatePool2 POOL_FLAG_NON_PAGED 10672 POOL_TAG 1) sample_driver"

lemma sample_event_live:
  "mon_of sample_event_state = Some (mon0\<lparr>m_live := (m_live mon0)(1 := Some 10672)\<rparr>)"
  by (simp add: sample_event_state_def mon_simps sample_driver_def) (simp add: mon0_def)

lemma sample_resolver_kernel_ok: "resolver_kernel_ok sample_kernel"
  by (simp add: resolver_kernel_ok_def sample_kernel_def blob_fresh_def next_block_fresh us_valid_def)

text \<open>
  Resolving the user's SID into a live event leaves the monitor where it was: the token reference,
  the token information and the SID string are all given back.
\<close>

lemma fill_user_sid_cleans_up:
  assumes "resolver_kernel_ok K" "mon_of d = Some m" "m_live m evt = Some (size_of ProcessCreateEvent)"
  shows "mon_of (fill_user_sid K ProcessCreateEvent ''user_sid'' ''user_sid_len'' evt d) = Some m"
proof -
  have "holding evt (size_of ProcessCreateEvent)
      (fill_user_sid K ProcessCreateEvent ''user_sid'' ''user_sid_len'' evt d) m"
    using assms by (intro fill_user_sid_balanced)
      (simp_all add: holding_def, simp_all add: ProcessCreateEvent_def max_defs)
  then show ?thesis by (simp add: holding_def)
qed

text \<open>
  C35. Resolving the parent's image path and the user's SID into a live event leaves the monitor where it was,
  on every path: the reference on the parent is dropped and its name buffer freed, and the token reference, the
  token information and the SID string are given back, once each.
\<close>

theorem path_and_sid_resolvers_clean_up:
  assumes "resolver_kernel_ok K" "mon_of d = Some m" "m_live m evt = Some (size_of ProcessCreateEvent)"
  shows "mon_of (fill_parent_image_path K pid ProcessCreateEvent ''parent_image_path''
      ''parent_image_path_len'' evt d) = Some m \<and>
    mon_of (fill_user_sid K ProcessCreateEvent ''user_sid'' ''user_sid_len'' evt d) = Some m"
  using fill_parent_image_path_cleans_up [OF assms] fill_user_sid_cleans_up [OF assms] by simp

theorem path_and_sid_resolvers_clean_up_witness:
  "mon_of (fill_parent_image_path sample_kernel 4 ProcessCreateEvent ''parent_image_path''
      ''parent_image_path_len'' 1 sample_event_state) = mon_of sample_event_state \<and>
   mon_of (fill_user_sid sample_kernel ProcessCreateEvent ''user_sid'' ''user_sid_len'' 1 sample_event_state) =
      mon_of sample_event_state"
  using path_and_sid_resolvers_clean_up [OF sample_resolver_kernel_ok sample_event_live, of 1 4]
  by (simp add: sample_event_live)

text \<open>
  C36. Resolving the integrity level gives back the token reference and the token information on every path, and
  the result is exact: when the primary token of the current process can be referenced, the query of its
  integrity level succeeds and the SID it returns has a last sub-authority, the result is that value; in
  every other case it is the sentinel.
\<close>

theorem resolve_integrity_level_cleans_up:
  assumes "resolver_kernel_ok K" "mon_of d = Some m"
    and "process = ret_IoGetCurrentProcess K (trace d)" "token = ret_PsReferencePrimaryToken K (trace d) process"
    and "h = trace d @ [PsReferencePrimaryToken process token]"
    and "ret_SeQueryInformationToken K h token TOKEN_INTEGRITY_LEVEL_CLASS = (status, blob, sid)"
    and "h' = h @ [SeQueryInformationToken token TOKEN_INTEGRITY_LEVEL_CLASS status blob]"
    and "queried \<longleftrightarrow> token \<noteq> null_ptr \<and> status = STATUS_SUCCESS \<and> blob \<noteq> null_ptr \<and> sid \<noteq> null_ptr"
  shows "mon_of (snd (resolve_integrity_level K d)) = Some m \<and>
    (\<forall>count rid. queried \<and> ret_RtlSubAuthorityCountSid K h' sid = Some count \<and> 0 < count \<and>
       ret_RtlSubAuthoritySid K h' sid (ucast (count - 1)) = Some rid \<longrightarrow> fst (resolve_integrity_level K d) = rid) \<and>
    (fst (resolve_integrity_level K d) \<noteq> INTEGRITY_LEVEL_UNRESOLVED \<longrightarrow>
       queried \<and> (\<exists>count. ret_RtlSubAuthorityCountSid K h' sid = Some count \<and> 0 < count \<and>
         ret_RtlSubAuthoritySid K h' sid (ucast (count - 1)) = Some (fst (resolve_integrity_level K d))))"
proof -
  have mon: "mon_of (snd (resolve_integrity_level K d)) = Some m"
    using assms(1,2) by (rule resolve_integrity_level_balanced)
  have tr: "trace (log_call (PsReferencePrimaryToken process token) d) = h"
    "trace (log_call (SeQueryInformationToken token TOKEN_INTEGRITY_LEVEL_CLASS status blob)
      (log_call (PsReferencePrimaryToken process token) d)) = h'"
    by (simp_all add: assms(5,7) log_call_def)
  have res: "fst (resolve_integrity_level K d) =
    (if queried then
       (case ret_RtlSubAuthorityCountSid K h' sid of
          Some count \<Rightarrow> if 0 < count then
            (case ret_RtlSubAuthoritySid K h' sid (ucast (count - 1)) of Some rid \<Rightarrow> rid
             | None \<Rightarrow> INTEGRITY_LEVEL_UNRESOLVED) else INTEGRITY_LEVEL_UNRESOLVED
        | None \<Rightarrow> INTEGRITY_LEVEL_UNRESOLVED)
     else INTEGRITY_LEVEL_UNRESOLVED)"
    unfolding resolve_integrity_level_def Let_def assms(3,4) [symmetric] tr assms(6,8) prod.case
    by (auto split: option.splits)
  show ?thesis using mon by (auto simp: res split: option.splits)
qed

theorem resolve_integrity_level_cleans_up_witness:
  "mon_of (snd (resolve_integrity_level sample_kernel sample_event_state)) = mon_of sample_event_state \<and>
   fst (resolve_integrity_level sample_kernel sample_event_state) = 0x3000"
proof -
  let ?h = "trace sample_event_state @ [PsReferencePrimaryToken 6 7]"
  have K: "ret_IoGetCurrentProcess sample_kernel h = 6" "ret_PsReferencePrimaryToken sample_kernel h p = 7"
    "ret_SeQueryInformationToken sample_kernel h t c = (0, next_block h, 8)"
    "ret_RtlSubAuthorityCountSid sample_kernel h s = Some 1" "ret_RtlSubAuthoritySid sample_kernel h s i = Some 0x3000"
    "next_block h \<noteq> null_ptr" for h p t c s i
    by (simp_all add: sample_kernel_def next_block_def)
  note r = resolve_integrity_level_cleans_up [OF sample_resolver_kernel_ok sample_event_live refl refl refl K(3) refl refl]
  show ?thesis using r by (simp add: K sample_event_live STATUS_SUCCESS_def)
qed

end
