(* ===== verification/Spec2Isabelle.thy ===== *)
theory Spec2Isabelle
  imports Edr_Confidential Edr_Unload Edr_Truncations Edr_Irql Edr_Accounting Edr_Resolvers
begin

text \<open>
  A verification of the WazabiEDR kernel driver (the Rust crate under \<open>src/src\<close>).

  \<^bold>\<open>The program.\<close> The driver observes process, image, thread, handle and registry activity through kernel
  callbacks, turns each notification into a packed event, and hands the events to a user-mode agent. The
  agent asks for one event at a time with an IOCTL; if none is queued its request is parked. The parts:

  \<^item> the wire format (\<open>events.rs\<close>) and the driver-wide state (\<open>state.rs\<close>);
  \<^item> the ring buffer and the producer side of the queue (\<open>queue/ring.rs\<close>, \<open>queue/submit.rs\<close>);
  \<^item> the helpers (\<open>util/spin_lock.rs\<close>, \<open>util/strings.rs\<close>, \<open>util/sync_cell.rs\<close>);
  \<^item> the request side (\<open>ipc/mod.rs\<close>, \<open>ipc/irp.rs\<close>, \<open>ipc/dispatch.rs\<close>);
  \<^item> the callbacks (\<open>callbacks/header.rs\<close>, \<open>process.rs\<close>, \<open>image.rs\<close>, \<open>thread.rs\<close>, \<open>object.rs\<close>, \<open>registry.rs\<close>);
  \<^item> loading and unloading (\<open>lib.rs\<close>).

  Callbacks and the agent's requests meet in the queue and in \<open>PENDING_IRP\<close>, under one spinlock: a callback
  either fills the parked request or queues its event, evicting the oldest when 4096 are queued; a request
  either takes the oldest event or is parked. Two counters, \<open>DROP_COUNT\<close> and \<open>TRUNC_COUNT\<close>, travel in the
  headers of later events.

  \<^bold>\<open>The model.\<close> The driver's globals, pool memory and IRPs are one record (\<open>Edr_State\<close>); every routine is a
  function on it, written in the order of the source with the same early returns. Kernel calls that take, use or
  give back something or print, and accesses to memory the driver does not own outright, are appended to a
  trace; calls that only read something (\<open>KeQuerySystemTimePrecise\<close>, \<open>PsGetCurrentProcessId\<close>,
  \<open>PsGetProcessId\<close>, \<open>PsGetProcessExitStatus\<close>, \<open>IoGetCurrentProcess\<close>, \<open>RtlSubAuthorityCountSid\<close>,
  \<open>RtlSubAuthoritySid\<close>) and \<open>RtlInitUnicodeString\<close> leave no entry. The WDK is a parameter:
  the record \<open>kernel\<close> of \<open>Edr_Kernel\<close> holds what each routine returns as a function of the trace so far, and
  the documented rules of use are a monitor over traces that gets stuck on a forbidden use (double free, use
  after free, access beyond a block, completing an IRP twice or touching it afterwards, completing with the
  spinlock held, touching the queue without it, unbalanced registrations and references). Words keep their
  width, so the counters wrap. The one addition that is not an atomic operation and can overflow, the \<open>+ 1\<close> after
  \<open>OOM_COUNT.fetch_add\<close>, wraps or panics according to the build (\<open>overflow_checks\<close>); a thread that panics
  never returns (\<open>Hung\<close>). Ring indices are natural numbers because the ring invariant bounds them.

  \<^bold>\<open>The theories.\<close>
  \<^item> \<open>Edr_Prelude\<close>: machine types, little-endian encoding, blocks of bytes.
  \<^item> \<open>Edr_Events\<close>: constants, discriminants and packed layouts of \<open>events.rs\<close>; fields are disjoint and inside.
  \<^item> \<open>Edr_Kernel\<close>, \<open>Edr_State\<close>: the WDK boundary, the monitor, the globals of \<open>state.rs\<close>.
  \<^item> \<open>Edr_Ring\<close>: \<open>queue_push_locked\<close> and \<open>queue_pop_locked\<close>; the locale \<open>evicting_queue\<close> is the contract of a
    bounded queue that evicts its oldest entry, and the ring interprets it.
  \<^item> \<open>Edr_Util\<close>, \<open>Edr_Irp\<close>: the lock guard, \<open>wstr16\<close>, the IRP helpers, the IOCTL code.
  \<^item> \<open>Edr_Ownership\<close>: the invariant \<open>owns\<close> (which blocks, IRPs, lock and registrations the driver holds) and
    how each elementary operation changes it.
  \<^item> \<open>Edr_Submit\<close>, \<open>Edr_Dispatch\<close>: \<open>alloc_event\<close>, \<open>submit_event\<close> and the dispatch routines.
  \<^item> \<open>Edr_Channel\<close>: the abstract channel and the refinement of the three operations to it; order and
    conservation of events on the channel.
  \<^item> \<open>Edr_Header\<close>: \<open>make_header\<close>, \<open>alloc_event_for\<close>; the locale \<open>event_filler\<close> is the interface between the
    common skeleton of a callback and what it fills in. \<open>Edr_Strings\<close>: what a bounded string copy does.
  \<^item> \<open>Edr_Process\<close>, \<open>Edr_Image\<close>, \<open>Edr_Thread\<close>, \<open>Edr_Object\<close>, \<open>Edr_Registry\<close> (with \<open>Edr_Registry_Gate\<close>,
    \<open>Edr_Registry_Emit\<close>, \<open>Edr_Registry_Content\<close>): the callbacks, each an interpretation of \<open>event_filler\<close>,
    with the contents of its events and its filter. \<open>Edr_Resolvers\<close>: the three resolvers of \<open>process.rs\<close> that
    are kept but not called.
  \<^item> \<open>Edr_Lifecycle\<close>: \<open>driver_entry\<close> and \<open>driver_unload\<close>, stage by stage, and what loading asks the kernel for.
  \<^item> \<open>Edr_System\<close>: all inputs in any order; the invariant and the simulation of whole runs.
  \<^item> \<open>Edr_Threads\<close>: every routine cut into the steps between which other threads may run, as program
    counters (\<open>pc\<close>) with a \<open>step\<close> function; a rank that every step lowers; a thread that is not interrupted
    does what the routine of the sequential model does. \<open>Edr_Interleave\<close>: what a thread holds at each program
    counter (blocks, IRPs, the lock guard), what it relies on, and that every step keeps the books.
    \<open>Edr_Schedule\<close>: the runs \<open>crun\<close> of any number of threads, in which a thread that is about to take the
    spinlock waits while the lock is held (\<open>lock_free\<close>, read off the trace); the agreement of the lock with the
    program counters (\<open>lock_inv\<close>), which holds in every order of steps; the common invariant \<open>threads_ok\<close>;
    and progress. \<open>Edr_Linear\<close>: the step in which an operation takes effect on the channel, the replies and
    losses a thread has promised after it, and that every run is a run of the channel. \<open>Edr_Concurrent\<close>: the
    lock is never waited for in vain, a concrete interleaving, and the run in which a request is marked pending
    after its completion. \<open>Edr_Wire\<close>: the locale
    \<open>header_keeper\<close>, which every callback interprets, and that every thread builds well-typed events.
    \<open>Edr_Reported\<close>: the loss counts that headers carry, from the swap of \<open>DROP_COUNT\<close> to the submission.
  \<^item> \<open>Edr_Stages\<close>: \<open>driver_entry\<close> and \<open>driver_unload\<close> cut into stages (\<open>phase\<close>, \<open>advance\<close>), and the runs
    \<open>life\<close> in which threads run between the stages; their invariant and simulation, and what holds of the lock
    and of the teardown without any condition on the order (\<open>life_flow\<close>). \<open>Edr_Life\<close>: the
    resulting properties, from loading to unloading.
  \<^item> \<open>Edr_Irql\<close>: the documented level limits of the kernel routines, and that the calls of every thread and of
    every stage respect them.
  \<^item> \<open>Edr_Confidential\<close>: two lives side by side that differ in what memory held before (\<open>alike\<close>); the locale
    \<open>blind_filler\<close>, which every callback interprets, says that filling an event does not look at the block.
  \<^item> \<open>Edr_Truncations\<close>: the strings of an input that are too long for their fields, the locale
    \<open>counting_filler\<close> of the callbacks that count them, and the ledger of \<open>TRUNC_COUNT\<close> over whole runs.
    \<open>Edr_Pressure\<close>: failed allocations, \<open>OOM_COUNT\<close>, the rate-limited debug line and the panic when the
    counter overflows in a checked build. \<open>Edr_Unload\<close>: from every state the threads can be run to their ends
    and the driver be unloaded.
  \<^item> \<open>Edr_Accounting\<close>, \<open>Edr_Race\<close>: what the loss counters can and cannot report; the window between
    publishing a request and marking it pending.
  \<^item> \<open>Edr_Sample\<close>: a concrete kernel on which the assumptions hold, for the witnesses.

  \<^bold>\<open>What is shown.\<close> The driver has a defect: it publishes a request before marking it pending, so that another
  processor can complete the request in between; a run in which this happens is constructed. What is said
  next of memory, IRPs and the channel is said of the runs in which no request has been marked pending after its
  completion (\<open>timely\<close>); nothing is claimed of the others from the late mark on. In every state from the
  creation of the device to the end of unloading, with any number of callbacks and requests in the middle of
  their routines and any stage of loading or unloading to come: every recorded use of the kernel was allowed; the
  pool blocks held are exactly the queued events and those in the hands of threads, and likewise for IRPs; the
  flags agree with what is registered. Until the last callback has been removed the driver is a run of the
  channel, so events are delivered in the order their submissions took effect, and the losses are exactly what
  headers have carried, what the counter holds and what threads have still to count. Unloading gives
  everything back, and nothing that memory held before the driver got it reaches the agent. The following holds
  in every order of steps: the spinlock is held exactly while one thread is in a lock section, so that some
  thread can always go on; unloading can be reached from every state and leaves nothing registered, parked or
  queued; failed allocations are announced at the documented rate, and every \<open>2 ^ 32\<close>th one hangs its thread
  in a checked build; every recorded call is made at a level the routine allows. When inputs are handled one at a
  time, safety holds with the full monitor, replies come in order, and every truncation is counted once and
  handed to one event. Each callback's event is described field by field, and every event delivered has the
  size and the header of its type. The findings are theorems as well.

  \<^bold>\<open>Bounds.\<close> There is no fuel: every loop of the driver is a total function with a termination proof (the
  prefix test, the string widening and the drain at unload), and the model has no recursion besides. A
  thread takes at most fifteen steps, and from any state at most fifteen stages remain until unloading is over.

  \<^bold>\<open>What is relied on.\<close> The pool does not hand out a block twice (\<open>pool_fresh\<close>, \<open>pool_fresh_shared\<close>), handles
  of a successful registration or device are not null (\<open>handles_valid\<close>), strings are as long as announced
  (\<open>key_names_valid\<close>, \<open>valid_input\<close>), the last removal of a callback returns when no callback is running, and
  the I/O manager does not unload a driver with requests in flight (\<open>settled\<close>). In interleaved runs
  notifications may arrive also before their callback is registered and after it is removed, which is more
  than the kernel does. \<open>Edr_Sample\<close> shows that the assumptions on the kernel can hold.

  The monitor knows blocks and IRPs by their addresses. A late mark that hits an address the I/O manager has
  meanwhile used for a new request of the driver is a write to an IRP the driver owns, and such runs are
  covered by what is said of the timely ones.

  \<^bold>\<open>What is not modelled.\<close> Interleavings are sequentially consistent: the memory orderings given to the atomic
  operations are not distinguished. In interleaved runs the two halves of the monitor, the lock and everything
  else, are checked separately, because the lock of one processor says nothing about the calls of another;
  that nothing is completed under the lock is then a statement about the thread that has it. A stage of
  loading or unloading, a kernel call with the store or swap of its flag, is one step; what can be seen
  between the registration of the registry callback and the store of its cookie is a theorem of its own.
  Stack depth is not modelled, nor are the counter \<open>registered_count\<close>, which nothing reads, and the text of
  debug messages beyond their beginning. A thread that panics is taken to stop there for good, whatever the panic
  handler of the WDK crates does. The WDK itself, the build script and the workspace files are outside.
\<close>

section \<open>Whole runs\<close>

text \<open>
  C9. Safety of the whole driver. After a successful load and any sequence of valid notifications and
  IRPs, the monitor accepts the whole trace; the spinlock is free; the pool blocks held are exactly the
  queued events with their sizes; the IRPs held are the parked one, if any; no key name, reference or
  string is on loan; and the registration flags agree with what is registered.
\<close>

theorem system_safe:
  assumes "kernel_ok K" "reachable K obj d"
  shows "\<exists>m. mon_of d = Some m \<and> m_lock m = None \<and> no_loans m \<and> regs_agree m d \<and>
    m_live m = map_of (map (\<lambda>s. (data s, unat (slot_size s))) (queue_list d)) \<and>
    {i. m_irps m i \<noteq> None} = (if PENDING_IRP d = null_ptr then {} else {PENDING_IRP d})"
  using reachable_ok(1) [OF assms] by (rule driver_ok_holds) blast

theorem system_safe_witness:
  "\<exists>m. mon_of sample_final = Some m \<and> m_lock m = None \<and>
    m_live m = map_of (map (\<lambda>s. (data s, unat (slot_size s))) (queue_list sample_final))"
  using system_safe [OF sample_kernel_ok sample_reachable] by blast

text \<open>
  C10. Refinement of the whole driver. A run is a run of the abstract channel: the queue, the parked
  request and the loss counter of the final state, and the sequence of all completed requests with
  status, length and delivered bytes, are those of the channel under the operations of the inputs.
\<close>

theorem system_refines:
  assumes "kernel_ok K" "loads K obj d" "run K obj d xs d'"
  shows "(chan_of d', replies (trace d')) =
    chan_run (run_ops K obj xs d) \<lparr>ch_queue = [], ch_waiting = None, ch_drops = 0\<rparr>"
proof -
  have "handles_valid K" using assms(1) by (simp add: kernel_ok_def)
  note l = loads_ok [OF assms(2) this]
  have "simulates (run_ops K obj xs d) d d'" using assms(3,1) l(3,1) by (rule run_simulates)
  then show ?thesis by (simp add: simulates_def loads_idle [OF assms(2)])
qed

theorem system_refines_witness:
  "(chan_of sample_final, replies (trace sample_final)) =
    chan_run (run_ops sample_kernel sample_wired sample_inputs sample_loaded)
      \<lparr>ch_queue = [], ch_waiting = None, ch_drops = 0\<rparr>"
  by (rule system_refines [OF sample_kernel_ok sample_loads sample_run])

text \<open>
  Order. The events the agent received, in the order of the completions, followed by the events
  still queued, form a subsequence of the events submitted: nothing is reordered, duplicated or made up.
\<close>

lemma system_order:
  assumes "kernel_ok K" "loads K obj d" "run K obj d xs d'"
  shows "subseq (events_of (replies (trace d')) @ ch_queue (chan_of d'))
    (concat (map submitted (run_ops K obj xs d)))"
proof -
  have "handles_valid K" using assms(1) by (simp add: kernel_ok_def)
  note l = loads_ok [OF assms(2) this]
  have "simulates (run_ops K obj xs d) d d'" using assms(3,1) l(3,1) by (rule run_simulates)
  then show ?thesis
    using chan_run_order [OF chan_of_ok [OF l(1)], of "run_ops K obj xs d"]
    by (simp add: simulates_def loads_idle [OF assms(2)])
qed

text \<open>
  Conservation. Every event submitted was delivered, is still queued, or was counted: their numbers
  add up, the losses being the increments of the loss counter along the run.
\<close>

lemma system_conservation:
  assumes "kernel_ok K" "loads K obj d" "run K obj d xs d'"
  shows "length (concat (map submitted (run_ops K obj xs d))) =
    length (events_of (replies (trace d'))) + QUEUE_LEN d' +
    counted (run_ops K obj xs d) \<lparr>ch_queue = [], ch_waiting = None, ch_drops = 0\<rparr>"
proof -
  have "handles_valid K" using assms(1) by (simp add: kernel_ok_def)
  note l = loads_ok [OF assms(2) this]
  have s: "simulates (run_ops K obj xs d) d d'" using assms(3,1) l(3,1) by (rule run_simulates)
  have "length (ch_queue (chan_of d')) = QUEUE_LEN d'" by (simp add: chan_of_def)
  then show ?thesis
    using chan_run_conservation [OF chan_of_ok [OF l(1)], of "run_ops K obj xs d"] s
      run_ops_nonempty [of K obj xs d]
    by (simp add: simulates_def loads_idle [OF assms(2)] del: set_concat)
qed

text \<open>
  Unloading from any reachable state gives everything back: the monitor ends where it began, with no
  pool block, IRP, reference or name held, every callback removed, and the link and the device deleted.
\<close>

lemma unload_releases_everything:
  assumes "kernel_ok K" "reachable K obj d"
  shows "mon_of (driver_unload K d) = Some mon0"
  using reachable_ok(1,2) [OF assms] by (intro driver_unload_mon) (simp_all add: driver_ok_def)

text \<open>
  C13. The outcome of loading, in terms of what the kernel answers. Loading fails exactly when the device or its
  symbolic link cannot be created, with the status of the call that failed, and then nothing is held, as before
  loading. Otherwise it succeeds, whatever the registrations answer: the lock is initialised, the device, its flag
  and the link are made, and each of the five callbacks is asked for once and in this order, also after
  another one was refused; each flag, cookie and handle is then what its own registration answered. The monitor
  accepts the calls either way.
\<close>

theorem driver_entry_outcome:
  assumes "handles_valid K" "driver_entry K obj (initial_driver buf hp ir) = (status, obj', d)"
    and "h = [DbgPrint ''[WazabiEDR] DriverEntry called'', KeInitializeSpinLock]"
    and "ret_IoCreateDevice K h = (st, device)"
    and "link = ret_IoCreateSymbolicLink K
      (h @ [IoCreateDevice 0 (wstr16 DEVICE_NAME) FILE_DEVICE_UNKNOWN 0 0 st device,
        SetDeviceFlags device DO_BUFFERED_IO])"
  shows "driver_ok d \<and> status = (if nt_error st then st else if nt_error link then link else STATUS_SUCCESS) \<and>
    (nt_error status \<longrightarrow> mon_of d = Some mon0) \<and>
    (\<not> nt_error status \<longrightarrow> device \<noteq> null_ptr \<and> CONTROL_DEVICE d = device \<and>
      (\<exists>hp hi hr ht ho. requests_made d = create_requests st device link @
        [PsSetCreateProcessNotifyRoutineEx False (ret_PsSetCreateProcessNotifyRoutineEx K hp False),
         PsSetLoadImageNotifyRoutine (ret_PsSetLoadImageNotifyRoutine K hi),
         CmRegisterCallback (fst (ret_CmRegisterCallback K hr)) (snd (ret_CmRegisterCallback K hr)),
         PsSetCreateThreadNotifyRoutine (ret_PsSetCreateThreadNotifyRoutine K ht),
         ObRegisterCallbacks cb_reg (fst (ret_ObRegisterCallbacks K ho)) (snd (ret_ObRegisterCallbacks K ho))] \<and>
       (PROCESS_CALLBACK_REGISTERED d \<longleftrightarrow> \<not> nt_error (ret_PsSetCreateProcessNotifyRoutineEx K hp False)) \<and>
       (IMAGE_CALLBACK_REGISTERED d \<longleftrightarrow> \<not> nt_error (ret_PsSetLoadImageNotifyRoutine K hi)) \<and>
       (REGISTRY_CALLBACK_REGISTERED d \<longleftrightarrow> \<not> nt_error (fst (ret_CmRegisterCallback K hr))) \<and>
       (REGISTRY_CALLBACK_REGISTERED d \<longrightarrow> REGISTRY_CALLBACK_COOKIE d = snd (ret_CmRegisterCallback K hr)) \<and>
       (THREAD_CALLBACK_REGISTERED d \<longleftrightarrow> \<not> nt_error (ret_PsSetCreateThreadNotifyRoutine K ht)) \<and>
       OBJECT_CALLBACK_HANDLE d = (if nt_error (fst (ret_ObRegisterCallbacks K ho)) then null_ptr
         else snd (ret_ObRegisterCallbacks K ho))))"
proof -
  let ?d0 = "log_call KeInitializeSpinLock
    (log_call (DbgPrint ''[WazabiEDR] DriverEntry called'') (initial_driver buf hp ir))"
  let ?d1 = "snd (create_device K ?d0)"
  note e = driver_entry_owns [OF driver_ok_initial [unfolded driver_ok_def] initial_unregistered assms(1,2)]
  have tr: "trace ?d0 = h" "requests_made ?d0 = [KeInitializeSpinLock]"
    by (simp_all add: assms(3) requests_made_def initial_driver_def log_call_def is_debug_def)
  note c = create_device_asks [of K ?d0 st device link, unfolded tr, OF assms(4,5)]
  have err: "nt_error status \<longrightarrow> mon_of d = Some mon0"
    using e(1,2) driver_entry_idle [OF assms(2)] bare_monitor by blast
  have st: "status = (if nt_error st then st else if nt_error link then link else STATUS_SUCCESS)"
    using assms(2) c(1) by (simp add: driver_entry_def Let_def split_beta split: if_splits sum.splits)
  define y where "y = register_object K (register_thread K (register_registry K
      (register_image K (register_process K (0, ?d1)))))"
  show ?thesis
  proof (cases "nt_error status")
    case True
    then show ?thesis using e(1) st err by (simp add: driver_ok_def)
  next
    case False
    then have ok: "\<not> nt_error st" "\<not> nt_error link" using st by (auto split: if_splits)
    note c2 = c(2) [OF ok]
    obtain s where d: "d = log_call (DbgPrint s) (snd y)"
      using assms(2) c(1) ok by (auto simp: driver_entry_def Let_def split_beta y_def)
    have un: "unregistered ?d1" "CONTROL_DEVICE ?d1 = device"
      using c2 by (auto simp: registrations_def unregistered_def initial_driver_def log_call_def)
    have req: "requests_made d = requests_made (snd y)" by (simp add: d)
    have made: "requests_made ?d1 = create_requests st device link"
      using c2 by (simp add: tr create_requests_def)
    have same: "CONTROL_DEVICE d = CONTROL_DEVICE (snd y)"
      "PROCESS_CALLBACK_REGISTERED d = PROCESS_CALLBACK_REGISTERED (snd y)"
      "IMAGE_CALLBACK_REGISTERED d = IMAGE_CALLBACK_REGISTERED (snd y)"
      "REGISTRY_CALLBACK_REGISTERED d = REGISTRY_CALLBACK_REGISTERED (snd y)"
      "REGISTRY_CALLBACK_COOKIE d = REGISTRY_CALLBACK_COOKIE (snd y)"
      "THREAD_CALLBACK_REGISTERED d = THREAD_CALLBACK_REGISTERED (snd y)"
      "OBJECT_CALLBACK_HANDLE d = OBJECT_CALLBACK_HANDLE (snd y)" by (simp_all add: d log_call_def)
    have "CONTROL_DEVICE (snd y) = device" using register_all_asks [OF un(1) y_def] un(2) by (elim exE conjE) simp
    then have dev: "CONTROL_DEVICE d = device" "device \<noteq> null_ptr" using e(3) [OF False] same(1) by simp_all
    have owned: "driver_ok d" using e(1) by (simp add: driver_ok_def)
    show ?thesis
      by (intro conjI impI, rule owned, rule st, use False in simp, rule dev(2), rule dev(1))
        (insert register_all_asks [OF un(1) y_def, unfolded made, folded same req], elim exE conjE,
         intro exI conjI, assumption+)
  qed
qed

text \<open>A system whose image-load slots are all taken.\<close>

definition crowded_kernel :: kernel where
  "crowded_kernel = sample_kernel\<lparr>ret_PsSetLoadImageNotifyRoutine := \<lambda>h. 0xC000009A\<rparr>"

theorem driver_entry_outcome_witness:
  "fst (driver_entry crowded_kernel sample_object sample_driver) = STATUS_SUCCESS \<and>
   PROCESS_CALLBACK_REGISTERED (snd (snd (driver_entry crowded_kernel sample_object sample_driver))) \<and>
   \<not> IMAGE_CALLBACK_REGISTERED (snd (snd (driver_entry crowded_kernel sample_object sample_driver))) \<and>
   THREAD_CALLBACK_REGISTERED (snd (snd (driver_entry crowded_kernel sample_object sample_driver))) \<and>
   OBJECT_CALLBACK_HANDLE (snd (snd (driver_entry crowded_kernel sample_object sample_driver))) = 9"
proof -
  obtain status obj d where r: "driver_entry crowded_kernel sample_object sample_driver = (status, obj, d)"
    by (cases "driver_entry crowded_kernel sample_object sample_driver")
  have K: "handles_valid crowded_kernel" "ret_IoCreateDevice crowded_kernel h = (0, 1)"
    "ret_IoCreateSymbolicLink crowded_kernel h = 0" "ret_PsSetCreateProcessNotifyRoutineEx crowded_kernel h b = 0"
    "ret_PsSetLoadImageNotifyRoutine crowded_kernel h = 0xC000009A"
    "ret_PsSetCreateThreadNotifyRoutine crowded_kernel h = 0" "ret_ObRegisterCallbacks crowded_kernel h = (0, 9)" for h b
    by (simp_all add: crowded_kernel_def sample_kernel_def handles_valid_def)
  have n: "\<not> nt_error 0" "nt_error 0xC000009A" by (simp_all add: nt_error_def)
  show ?thesis
    using driver_entry_outcome [OF K(1) r [unfolded sample_driver_def] refl K(2) refl] unfolding r
    by (auto simp: K n)
qed

text \<open>
  C20. In every reachable state the ring indices are in range, at most 4096 events are queued, and
  when a request is parked the queue is empty: a waiting agent is never left with an event at hand.
\<close>

theorem parked_request_means_empty_queue:
  assumes "kernel_ok K" "reachable K obj d"
  shows "QUEUE_HEAD d < 4096 \<and> QUEUE_TAIL d < 4096 \<and> QUEUE_LEN d \<le> 4096 \<and>
    QUEUE_TAIL d = (QUEUE_HEAD d + QUEUE_LEN d) mod 4096 \<and>
    (PENDING_IRP d \<noteq> null_ptr \<longrightarrow> QUEUE_LEN d = 0)"
proof -
  obtain m where m: "ring_ok d" "irps_owned [] m d"
    using reachable_ok(1) [OF assms] unfolding driver_ok_def by (rule ownsE)
  have "QUEUE_LEN d = 0" if "PENDING_IRP d \<noteq> null_ptr"
    using m(2) that length_queue_list [of d] unfolding irps_owned_def by (metis list.size(3))
  with m(1) show ?thesis by (simp add: ring_ok_def QUEUE_CAP_def)
qed

theorem parked_request_means_empty_queue_witness:
  "QUEUE_LEN sample_final \<le> 4096 \<and> QUEUE_TAIL sample_final = (QUEUE_HEAD sample_final + QUEUE_LEN sample_final) mod 4096"
  using parked_request_means_empty_queue [OF sample_kernel_ok sample_reachable] by simp

section \<open>The queue and the requests\<close>

text \<open>
  C17. \<open>submit_event\<close> refines the channel's submission on all three of its paths: a parked request is
  completed with the event's bytes, or with a too-small status and a counted loss, or the event joins
  the queue, evicting and counting the oldest when the queue is full.
\<close>

theorem submit_event_refines:
  assumes "ring_ok d" "e = read_at 0 (unat sz) (heap d p)"
  shows "chan_of (submit_event K p sz d) = fst (chan_submit e (chan_of d)) \<and>
    replies (trace (submit_event K p sz d)) = replies (trace d) @ snd (chan_submit e (chan_of d))"
  using submit_refines [OF assms] by simp

theorem submit_event_refines_witness:
  "ch_queue (chan_of (submit_event sample_kernel 1 2 sample_driver)) = [replicate 2 0]"
proof -
  have "ring_ok sample_driver" using sample_driver_ok by (auto simp: driver_ok_def elim: ownsE)
  from submit_event_refines [OF this refl, of sample_kernel 1 2]
  show ?thesis
    by (simp add: chan_submit_def sample_driver_def chan_of_def initial_driver_def queue_list_def
        QUEUE_CAP_def)
qed

text \<open>
  C18. A \<open>GET_EVENT\<close> request refines the channel's get: it returns the oldest event whole, or drops and
  counts it when the buffer is too small, or is parked when there is none, or is refused when another
  request is parked already.
\<close>

theorem dispatch_device_control_refines:
  assumes "ring_ok d" "i \<noteq> null_ptr" "i \<noteq> PENDING_IRP d"
    and "IoControlCode (irps d i) = IOCTL_WEDR_GET_EVENT" "n = OutputBufferLength (irps d i)"
  shows "chan_of (snd (dispatch_device_control K i d)) = fst (chan_get i n (chan_of d)) \<and>
    replies (trace (snd (dispatch_device_control K i d))) = replies (trace d) @ snd (chan_get i n (chan_of d))"
  using get_refines [OF assms] by simp

theorem dispatch_device_control_refines_witness:
  "ch_waiting (chan_of (snd (dispatch_device_control sample_kernel 5 sample_driver))) = Some (5, 0x4000)"
proof -
  have r: "ring_ok sample_driver" using sample_driver_ok by (auto simp: driver_ok_def elim: ownsE)
  have p: "(5 :: nat) \<noteq> null_ptr" "5 \<noteq> PENDING_IRP sample_driver"
    "IoControlCode (irps sample_driver 5) = IOCTL_WEDR_GET_EVENT"
    by (simp_all add: sample_driver_def initial_driver_def ioctl_value)
  show ?thesis
    using dispatch_device_control_refines [OF r p refl, of sample_kernel]
    by (simp add: chan_get_def) (simp add: chan_of_def sample_driver_def initial_driver_def queue_list_def)
qed

text \<open>
  C19. A cleanup refines the channel's cleanup: the parked request, if any, is cancelled, the cleanup
  request itself succeeds, and queued events stay queued.
\<close>

theorem dispatch_cleanup_refines:
  assumes "i \<noteq> PENDING_IRP d"
  shows "chan_of (snd (dispatch_cleanup i d)) = fst (chan_cleanup i (chan_of d)) \<and>
    replies (trace (snd (dispatch_cleanup i d))) = replies (trace d) @ snd (chan_cleanup i (chan_of d))"
  using cleanup_refines [OF assms] by simp

theorem dispatch_cleanup_refines_witness:
  "replies (trace (snd (dispatch_cleanup 5 (sample_driver\<lparr>PENDING_IRP := 6\<rparr>)))) =
    [(6, STATUS_CANCELLED, 0, []), (5, STATUS_SUCCESS, 0, [])]"
  using dispatch_cleanup_refines [of 5 "sample_driver\<lparr>PENDING_IRP := 6\<rparr>"]
  by (simp add: chan_cleanup_def chan_of_def) (simp add: sample_driver_def initial_driver_def)

text \<open>
  C21. The ring under any sequence of pushes holds the most recent 4096 entries of what it held and
  what was pushed, in order.
\<close>

theorem ring_keeps_newest:
  assumes "ring_ok d"
  shows "ring_ok (fold push_slot xs d) \<and>
    queue_list (fold push_slot xs d) = drop (QUEUE_LEN d + length xs - QUEUE_CAP) (queue_list d @ xs)"
  using ring.fold_push_invar [OF assms] ring.fold_push_contents [OF assms] by simp

theorem ring_keeps_newest_witness:
  "queue_list (push_slot \<lparr>data = 2, slot_size = 8\<rparr> (push_slot \<lparr>data = 1, slot_size = 4\<rparr> sample_driver)) =
    [\<lparr>data = 1, slot_size = 4\<rparr>, \<lparr>data = 2, slot_size = 8\<rparr>]"
proof -
  have "ring_ok sample_driver" using sample_driver_ok by (auto simp: driver_ok_def elim: ownsE)
  from ring_keeps_newest [OF this, of "[\<lparr>data = 1, slot_size = 4\<rparr>, \<lparr>data = 2, slot_size = 8\<rparr>]"]
  show ?thesis by (simp add: sample_driver_def initial_driver_def queue_list_def QUEUE_CAP_def)
qed

text \<open>
  A pop returns the oldest entry and leaves the others in order, or reports an empty queue; it
  keeps the ring invariant and touches neither memory nor the counters.
\<close>

lemma queue_pop_fifo:
  assumes "ring_ok d"
  shows "ring_ok (snd (queue_pop_locked d)) \<and>
    fst (queue_pop_locked d) = (case queue_list d of [] \<Rightarrow> None | s # ss \<Rightarrow> Some s) \<and>
    queue_list (snd (queue_pop_locked d)) = tl (queue_list d) \<and>
    heap (snd (queue_pop_locked d)) = heap d \<and> DROP_COUNT (snd (queue_pop_locked d)) = DROP_COUNT d"
  using ring.pop_invar [OF assms] ring.pop_none [OF assms] ring.pop_some [OF assms]
  by (cases "queue_list d") (simp_all add: frame_simps)

section \<open>The table and the wire format\<close>

text \<open>
  C14. After \<open>driver_entry\<close> every one of the 28 dispatch slots is filled, whatever they held: create and
  close, cleanup and device control with their routines and all others with the rejecting one; the
  unload routine is set.
\<close>

theorem dispatch_table_total:
  assumes "length (MajorFunction obj) = 28"
  shows "DriverUnload (fst (snd (driver_entry K obj d))) \<and>
    MajorFunction (fst (snd (driver_entry K obj d))) = map (\<lambda>major. Some (routine_for major)) [0..<28]"
proof (rule conjI)
  show "DriverUnload (fst (snd (driver_entry K obj d)))"
    by (simp add: driver_entry_obj wire_dispatch_def Let_def)
  show "MajorFunction (fst (snd (driver_entry K obj d))) = map (\<lambda>major. Some (routine_for major)) [0..<28]"
    unfolding driver_entry_obj
  proof (rule nth_equalityI)
    show "length (MajorFunction (wire_dispatch obj)) = length (map (\<lambda>major. Some (routine_for major)) [0..<28])"
      using assms by (simp add: wire_dispatch_def Let_def del: upt_Suc)
    then show "MajorFunction (wire_dispatch obj) ! i = map (\<lambda>major. Some (routine_for major)) [0..<28] ! i"
      if "i < length (MajorFunction (wire_dispatch obj))" for i
      using that wire_dispatch_nth [OF assms, of i] by simp
  qed
qed

theorem dispatch_table_total_witness:
  "MajorFunction (fst (snd (driver_entry sample_kernel sample_object sample_driver))) ! 27 = Some Dispatch_invalid \<and>
   MajorFunction (fst (snd (driver_entry sample_kernel sample_object sample_driver))) ! 0x12 = Some Dispatch_cleanup"
  using dispatch_table_total [of sample_object sample_kernel sample_driver]
  by (simp add: sample_object_def routine_for_def irp_mj_defs)

text \<open>
  The packed layouts: every event begins with its 24-byte header, has the size the source asserts or
  documents, and two different fields of it share no byte and lie inside it.
\<close>

lemma event_layouts_sound:
  assumes "m \<noteq> n" "m \<in> fst ` set (event_layout ty)" "n \<in> fst ` set (event_layout ty)"
  shows "field_off (event_layout ty) ''header'' = 0 \<and> field_width (event_layout ty) ''header'' = 24 \<and>
    size_of (event_layout ty) =
      (case ty of ProcessCreate \<Rightarrow> 10672 | ProcessExit \<Rightarrow> 32 | ImageLoad \<Rightarrow> 1070 | RegistryModify \<Rightarrow> 1580
       | ThreadCreate \<Rightarrow> 36 | ThreadExit \<Rightarrow> 32 | ProcessHandleAccess \<Rightarrow> 42) \<and>
    field_off (event_layout ty) m + field_width (event_layout ty) m \<le> size_of (event_layout ty) \<and>
    (field_off (event_layout ty) m + field_width (event_layout ty) m \<le> field_off (event_layout ty) n \<or>
     field_off (event_layout ty) n + field_width (event_layout ty) n \<le> field_off (event_layout ty) m)"
proof -
  have h: "field_off (event_layout ty) ''header'' = 0" "field_width (event_layout ty) ''header'' = 24"
    by (cases ty; simp add: event_layout_defs)+
  have z: "size_of (event_layout ty) =
      (case ty of ProcessCreate \<Rightarrow> 10672 | ProcessExit \<Rightarrow> 32 | ImageLoad \<Rightarrow> 1070 | RegistryModify \<Rightarrow> 1580
       | ThreadCreate \<Rightarrow> 36 | ThreadExit \<Rightarrow> 32 | ProcessHandleAccess \<Rightarrow> 42)"
    by (cases ty) simp_all
  show ?thesis
    using h z field_inside [OF assms(2)] fields_disjoint [OF assms(1), of "event_layout ty"] assms(2,3)
    by blast
qed

end
